(* ===== verification/Prelude.thy ===== *)
theory Prelude
  imports Main "HOL-Library.Word" "HOL-Library.Signed_Division"
begin

text \<open>
  Shared vocabulary of the development: the ways a C++ call can fail to return
  normally, a sequencing operator for such calls, \<^verbatim>\<open>size_t\<close> arithmetic, the memory
  image of integers, and generic facts about lists that several components use.
  The collections \<open>inv_intros\<close> and \<open>model_simps\<close> gather, per component,
  the preservation lemmas and the characteristic equations.
\<close>

named_theorems inv_intros "preservation of component invariants"
named_theorems model_simps "characteristic equations of model operations"

section \<open>Abnormal outcomes\<close>

text \<open>
  \<open>Assert_Failed\<close> is a failed \<^verbatim>\<open>assert\<close>, \<open>Out_Of_Bounds\<close> an access outside an
  object (undefined behaviour in C++), \<open>Use_After_Free\<close> a dereference of a deleted
  object, \<open>Undefined\<close> a signed overflow or another computation C++ leaves undefined,
  \<open>Exit_Failure\<close> a call of \<^verbatim>\<open>exit(EXIT_FAILURE)\<close>; the remaining
  constructors are C++ exceptions that leave the function.
\<close>

datatype failure =
    Assert_Failed
  | Out_Of_Bounds
  | Use_After_Free
  | Null_Deref
  | Undefined
  | Exit_Failure
  | Length_Error
  | Bad_Alloc
  | Bad_Weak_Ptr
  | Bad_Function_Call
  | Runtime_Error string
  | Invalid_Argument string
  | Out_Of_Range string

type_synonym 'a res = "failure + 'a"

fun bindE :: "'e + 'a \<Rightarrow> ('a \<Rightarrow> 'e + 'b) \<Rightarrow> 'e + 'b" where
  "bindE (Inl e) f = Inl e"
| "bindE (Inr x) f = f x"

definition assertE :: "bool \<Rightarrow> 'a res \<Rightarrow> 'a res" where
  "assertE c r = (if c then r else Inl Assert_Failed)"

lemma assertE_True [simp]: "c \<Longrightarrow> assertE c r = r"
  by (simp add: assertE_def)

lemma assertE_False [simp]: "\<not> c \<Longrightarrow> assertE c r = Inl Assert_Failed"
  by (simp add: assertE_def)

lemma assertE_Inr_iff: "assertE c r = Inr x \<longleftrightarrow> c \<and> r = Inr x"
  by (simp add: assertE_def)

lemma bindE_Inr_iff: "bindE m f = Inr y \<longleftrightarrow> (\<exists>x. m = Inr x \<and> f x = Inr y)"
  by (cases m) auto

lemma bindE_Inl_iff: "bindE m f = Inl e \<longleftrightarrow> m = Inl e \<or> (\<exists>x. m = Inr x \<and> f x = Inl e)"
  by (cases m) auto

lemma bindE_assoc: "bindE (bindE m f) g = bindE m (\<lambda>x. bindE (f x) g)"
  by (cases m) auto

lemma bindE_cong [fundef_cong]:
  "m = m' \<Longrightarrow> (\<And>x. m' = Inr x \<Longrightarrow> f x = g x) \<Longrightarrow> bindE m f = bindE m' g"
  by (cases m') auto

text \<open>Running a list of fallible actions from left to right, stopping at the first failure.\<close>

fun foldE :: "('a \<Rightarrow> 's \<Rightarrow> 'e + 's) \<Rightarrow> 'a list \<Rightarrow> 's \<Rightarrow> 'e + 's" where
  "foldE f [] s = Inr s"
| "foldE f (x # xs) s = bindE (f x s) (foldE f xs)"

lemma foldE_append: "foldE f (xs @ ys) s = bindE (foldE f xs s) (foldE f ys)"
proof (induction xs arbitrary: s)
  case (Cons x xs)
  then show ?case by (cases "f x s") simp_all
qed simp

lemma foldE_rel:
  assumes "I s"
    and step: "\<And>x s. x \<in> set xs \<Longrightarrow> I s \<Longrightarrow>
      case f x s of Inl e \<Rightarrow> e \<in> F | Inr s' \<Rightarrow> I s' \<and> R s s'"
    and refl: "\<And>s. R s s" and trans: "\<And>a b c. R a b \<Longrightarrow> R b c \<Longrightarrow> R a c"
  shows "case foldE f xs s of Inl e \<Rightarrow> e \<in> F | Inr s' \<Rightarrow> I s' \<and> R s s'"
  using assms(1) step
proof (induction xs arbitrary: s)
  case (Cons x xs)
  show ?case
  proof (cases "f x s")
    case (Inl e)
    then show ?thesis using Cons.prems(2)[of x s] Cons.prems(1) by simp
  next
    case (Inr t)
    then have t: "I t" "R s t" using Cons.prems(2)[of x s] Cons.prems(1) by simp_all
    have "case foldE f xs t of Inl e \<Rightarrow> e \<in> F | Inr s' \<Rightarrow> I s' \<and> R t s'"
      using Cons.prems(2) by (intro Cons.IH[OF t(1)]) simp
    then show ?thesis using Inr t(2) trans by (auto split: sum.splits)
  qed
qed (simp add: refl)

lemma foldE_invariant:
  assumes "\<And>x s s'. x \<in> set xs \<Longrightarrow> I s \<Longrightarrow> f x s = Inr s' \<Longrightarrow> I s'"
    and "I s" and "foldE f xs s = Inr s'"
  shows "I s'"
  using assms
proof (induction xs arbitrary: s)
  case Nil
  then show ?case by simp
next
  case (Cons x xs)
  from Cons.prems(3) obtain t where t: "f x s = Inr t" "foldE f xs t = Inr s'"
    by (auto simp: bindE_Inr_iff)
  then have "I t" using Cons.prems(1,2) by auto
  with t(2) show ?case by (intro Cons.IH[of t]) (auto intro: Cons.prems(1))
qed

section \<open>Sizes\<close>

text \<open>
  \<^verbatim>\<open>size_t\<close> is a 64-bit unsigned integer: sums and differences wrap. Under the
  components' invariants every size is at most \<open>max_alloc\<close>, the
  \<^verbatim>\<open>max_size()\<close> of a \<^verbatim>\<open>std::vector<char>\<close>, and the operators are exact.
\<close>

type_synonym size_t = nat

definition size_mod :: nat where
  "size_mod = 2 ^ 64"

definition max_alloc :: nat where
  "max_alloc = 2 ^ 63 - 1"

definition sz_add :: "size_t \<Rightarrow> size_t \<Rightarrow> size_t" where
  "sz_add a b = (a + b) mod size_mod"

definition sz_sub :: "size_t \<Rightarrow> size_t \<Rightarrow> size_t" where
  "sz_sub a b = (a + (size_mod - b mod size_mod)) mod size_mod"

lemma sz_add_exact: "a + b < size_mod \<Longrightarrow> sz_add a b = a + b"
  by (simp add: sz_add_def)

lemma sz_sub_exact: "b \<le> a \<Longrightarrow> a < size_mod \<Longrightarrow> sz_sub a b = a - b"
proof -
  assume a: "b \<le> a" "a < size_mod"
  then have "a + (size_mod - b mod size_mod) = (a - b) + size_mod" by simp
  then have "sz_sub a b = (a - b) mod size_mod" by (simp only: sz_sub_def mod_add_self2)
  with a show ?thesis by simp
qed

lemma max_alloc_less: "max_alloc + max_alloc < size_mod"
  by (simp add: max_alloc_def size_mod_def)

lemma sz_add_small: "a \<le> max_alloc \<Longrightarrow> b \<le> max_alloc \<Longrightarrow> sz_add a b = a + b"
  using max_alloc_less by (simp add: sz_add_exact)

lemma sz_sub_small: "b \<le> a \<Longrightarrow> a \<le> max_alloc \<Longrightarrow> sz_sub a b = a - b"
  using max_alloc_less by (simp add: sz_sub_exact)

section \<open>Signed integers\<close>

text \<open>
  \<^verbatim>\<open>int64_t\<close> is \<^typ>\<open>int\<close> with its range checked: arithmetic that leaves the range is
  undefined in C++. Division and remainder truncate towards zero.
\<close>

definition in_i64 :: "int \<Rightarrow> bool" where
  "in_i64 x \<longleftrightarrow> - (2 ^ 63) \<le> x \<and> x < 2 ^ 63"

definition i64 :: "int \<Rightarrow> int res" where
  "i64 x = (if in_i64 x then Inr x else Inl Undefined)"

definition in_i32 :: "int \<Rightarrow> bool" where
  "in_i32 x \<longleftrightarrow> - (2 ^ 31) \<le> x \<and> x < 2 ^ 31"

text \<open>An atomic 64-bit counter wraps.\<close>

definition wrap64 :: "int \<Rightarrow> int" where
  "wrap64 x = (x + 2 ^ 63) mod 2 ^ 64 - 2 ^ 63"

lemma wrap64_exact: "in_i64 x \<Longrightarrow> wrap64 x = x"
  by (simp add: in_i64_def wrap64_def)

lemma in_i64_wrap64: "in_i64 (wrap64 x)"
  by (simp add: in_i64_def wrap64_def)

lemma i64_Inr_iff: "i64 x = Inr y \<longleftrightarrow> in_i64 x \<and> y = x"
  by (auto simp: i64_def)

lemma i64_Inl_iff: "i64 x = Inl e \<longleftrightarrow> \<not> in_i64 x \<and> e = Undefined"
  by (auto simp: i64_def)

section \<open>Decimal numbers\<close>

fun dec_nat :: "nat \<Rightarrow> string" where
  "dec_nat n = (if n < 10 then [char_of (48 + n)] else dec_nat (n div 10) @ [char_of (48 + n mod 10)])"

declare dec_nat.simps [simp del]

definition dec_int :: "int \<Rightarrow> string" where
  "dec_int x = (if x < 0 then CHR ''-'' # dec_nat (nat (- x)) else dec_nat (nat x))"

definition is_digit :: "char \<Rightarrow> bool" where
  "is_digit c \<longleftrightarrow> 48 \<le> (of_char c :: nat) \<and> (of_char c :: nat) \<le> 57"

definition digit_val :: "char \<Rightarrow> nat" where
  "digit_val c = of_char c - 48"

fun nat_of_dec :: "string \<Rightarrow> nat \<Rightarrow> nat" where
  "nat_of_dec [] acc = acc"
| "nat_of_dec (c # cs) acc = nat_of_dec cs (10 * acc + digit_val c)"

lemma nat_of_dec_append: "nat_of_dec (xs @ ys) acc = nat_of_dec ys (nat_of_dec xs acc)"
  by (induction xs arbitrary: acc) auto

lemma digit_char: "d < 10 \<Longrightarrow> is_digit (char_of (48 + d :: nat)) \<and> digit_val (char_of (48 + d)) = d"
  by (simp add: is_digit_def digit_val_def)

lemma dec_nat_digits: "\<forall>c \<in> set (dec_nat n). is_digit c"
proof (induction n rule: dec_nat.induct)
  case (1 n)
  then show ?case using digit_char[of n] digit_char[of "n mod 10"]
    by (subst dec_nat.simps) auto
qed

lemma nat_of_dec_dec_nat: "nat_of_dec (dec_nat n) 0 = n"
proof (induction n rule: dec_nat.induct)
  case (1 n)
  then show ?case using digit_char[of n] digit_char[of "n mod 10"]
    by (subst dec_nat.simps) (auto simp: nat_of_dec_append)
qed

lemma dec_nat_not_Nil: "dec_nat n \<noteq> []"
  by (subst dec_nat.simps) simp

lemma dec_nat_inj: "dec_nat m = dec_nat n \<longleftrightarrow> m = n"
  using nat_of_dec_dec_nat by metis

section \<open>Lists\<close>

text \<open>The slice of \<open>xs\<close> from index \<open>i\<close> (inclusive) to \<open>j\<close> (exclusive).\<close>

definition slice :: "nat \<Rightarrow> nat \<Rightarrow> 'a list \<Rightarrow> 'a list" where
  "slice i j xs = take (j - i) (drop i xs)"

lemma length_slice [simp]: "j \<le> length xs \<Longrightarrow> length (slice i j xs) = j - i"
  by (simp add: slice_def)

lemma slice_empty [simp]: "j \<le> i \<Longrightarrow> slice i j xs = []"
  by (simp add: slice_def)

lemma slice_full [simp]: "slice 0 (length xs) xs = xs"
  by (simp add: slice_def)

lemma slice_append_slice: "i \<le> j \<Longrightarrow> j \<le> k \<Longrightarrow> slice i j xs @ slice j k xs = slice i k xs"
proof -
  assume "i \<le> j" "j \<le> k"
  then have "k - i = (j - i) + (k - j)" and "drop j xs = drop (j - i) (drop i xs)" by simp_all
  then show ?thesis by (simp only: slice_def take_add)
qed

lemma drop_slice: "drop n (slice i j xs) = slice (i + n) j xs"
  by (simp add: slice_def drop_take add.commute)

lemma take_slice: "i + n \<le> j \<Longrightarrow> take n (slice i j xs) = slice i (i + n) xs"
  by (simp add: slice_def min_def)

lemma slice_nth: "k < j - i \<Longrightarrow> j \<le> length xs \<Longrightarrow> slice i j xs ! k = xs ! (i + k)"
  by (simp add: slice_def)

lemma slice_overwrite_end:
  "r \<le> w \<Longrightarrow> w \<le> length m \<Longrightarrow> slice r (w + length d) (take w m @ d @ z) = slice r w m @ d"
  by (simp add: slice_def drop_take)

text \<open>
  Writing \<open>data\<close> over the elements of \<open>mem\<close> from index \<open>p\<close> on, as
  \<^verbatim>\<open>std::copy(data, data + len, mem + p)\<close> does; a range that does not fit is out of bounds.
\<close>

definition copy_at :: "nat \<Rightarrow> 'a list \<Rightarrow> 'a list \<Rightarrow> 'a list res" where
  "copy_at p data mem =
     (if p + length data \<le> length mem
      then Inr (take p mem @ data @ drop (p + length data) mem)
      else Inl Out_Of_Bounds)"

lemma copy_at_fits:
  "p + length data \<le> length mem \<Longrightarrow>
   copy_at p data mem = Inr (take p mem @ data @ drop (p + length data) mem)"
  by (simp add: copy_at_def)

text \<open>Reading \<open>n\<close> elements from index \<open>p\<close> on.\<close>

definition read_at :: "nat \<Rightarrow> nat \<Rightarrow> 'a list \<Rightarrow> 'a list res" where
  "read_at p n mem = (if p + n \<le> length mem then Inr (slice p (p + n) mem) else Inl Out_Of_Bounds)"

lemma read_at_fits: "p + n \<le> length mem \<Longrightarrow> read_at p n mem = Inr (slice p (p + n) mem)"
  by (simp add: read_at_def)

text \<open>\<^verbatim>\<open>std::vector<char>::resize\<close>: truncate, or extend with value-initialised elements.\<close>

definition vector_resize :: "nat \<Rightarrow> 'a \<Rightarrow> 'a list \<Rightarrow> 'a list" where
  "vector_resize n z xs = take n xs @ replicate (n - length xs) z"

lemma length_vector_resize [simp]: "length (vector_resize n z xs) = n"
  by (simp add: vector_resize_def)

lemma slice_vector_resize: "j \<le> length xs \<Longrightarrow> j \<le> n \<Longrightarrow> slice i j (vector_resize n z xs) = slice i j xs"
  by (cases "i \<le> j") (simp_all add: vector_resize_def slice_def drop_take min_def)

text \<open>
  Position of the first occurrence of \<open>pat\<close>, as \<^verbatim>\<open>std::search\<close> and
  \<^verbatim>\<open>std::string::find\<close> compute it.
\<close>

fun find_sub :: "'a list \<Rightarrow> 'a list \<Rightarrow> nat option" where
  "find_sub pat [] = (if pat = [] then Some 0 else None)"
| "find_sub pat (x # xs) =
     (if take (length pat) (x # xs) = pat then Some 0 else map_option Suc (find_sub pat xs))"

definition occurs_at :: "'a list \<Rightarrow> 'a list \<Rightarrow> nat \<Rightarrow> bool" where
  "occurs_at pat xs i \<longleftrightarrow> i \<le> length xs \<and> take (length pat) (drop i xs) = pat"

lemma occurs_at_Suc: "occurs_at pat (x # xs) (Suc i) \<longleftrightarrow> occurs_at pat xs i"
  by (simp add: occurs_at_def)

lemma occurs_at_bound: "occurs_at pat xs i \<Longrightarrow> i + length pat \<le> length xs"
proof -
  assume a: "occurs_at pat xs i"
  then have "length pat = length (take (length pat) (drop i xs))"
    by (simp add: occurs_at_def del: length_take)
  also have "\<dots> \<le> length xs - i" by simp
  finally have "length pat \<le> length xs - i" .
  moreover from a have "i \<le> length xs" by (simp add: occurs_at_def)
  ultimately show ?thesis by linarith
qed

lemma occurs_at_split: "occurs_at pat xs i \<Longrightarrow> take i xs @ pat @ drop (i + length pat) xs = xs"
proof -
  assume "occurs_at pat xs i"
  then have "take (length pat) (drop i xs) = pat" by (simp add: occurs_at_def)
  moreover have "take (length pat) (drop i xs) @ drop (length pat) (drop i xs) = drop i xs"
    by (rule append_take_drop_id)
  ultimately have "pat @ drop (i + length pat) xs = drop i xs" by (simp add: add.commute)
  then show ?thesis by simp
qed

lemma find_sub_SomeD:
  "find_sub pat xs = Some i \<Longrightarrow> occurs_at pat xs i \<and> (\<forall>j<i. \<not> occurs_at pat xs j)"
proof (induction pat xs arbitrary: i rule: find_sub.induct)
  case (1 pat)
  then show ?case by (auto simp: occurs_at_def split: if_splits)
next
  case (2 pat x xs)
  show ?case
  proof (cases "take (length pat) (x # xs) = pat")
    case True
    with 2 show ?thesis by (auto simp: occurs_at_def)
  next
    case False
    with 2(2) obtain k where k: "i = Suc k" "find_sub pat xs = Some k" by auto
    with 2(1)[OF False] have "occurs_at pat xs k" "\<forall>j<k. \<not> occurs_at pat xs j" by auto
    with k False show ?thesis
      by (auto simp: occurs_at_Suc less_Suc_eq_0_disj) (simp add: occurs_at_def)
  qed
qed

lemma find_sub_NoneD: "find_sub pat xs = None \<Longrightarrow> \<not> occurs_at pat xs j"
proof (induction pat xs arbitrary: j rule: find_sub.induct)
  case (1 pat)
  then show ?case by (auto simp: occurs_at_def split: if_splits)
next
  case (2 pat x xs)
  then show ?case
    by (cases j) (auto simp: occurs_at_Suc split: if_splits, simp add: occurs_at_def)
qed

lemma find_sub_eq_None_iff: "find_sub pat xs = None \<longleftrightarrow> (\<forall>j. \<not> occurs_at pat xs j)"
proof (cases "find_sub pat xs")
  case None
  then show ?thesis by (simp add: find_sub_NoneD)
next
  case (Some i)
  with find_sub_SomeD[OF Some] show ?thesis by auto
qed

lemma find_sub_eq_Some_iff:
  "find_sub pat xs = Some i \<longleftrightarrow> occurs_at pat xs i \<and> (\<forall>j<i. \<not> occurs_at pat xs j)"
proof (intro iffI)
  assume a: "occurs_at pat xs i \<and> (\<forall>j<i. \<not> occurs_at pat xs j)"
  then have "find_sub pat xs \<noteq> None" using find_sub_NoneD[of pat xs i] by blast
  then obtain k where k: "find_sub pat xs = Some k" by blast
  from find_sub_SomeD[OF k] a have "\<not> k < i" and "\<not> i < k" by blast+
  with k show "find_sub pat xs = Some i" by simp
qed (rule find_sub_SomeD)

section \<open>Bytes\<close>

text \<open>
  The object representation of an unsigned integer of \<open>k\<close> bytes on a little-endian
  machine, least significant byte first, and its inverse.
\<close>

fun le_bytes :: "nat \<Rightarrow> nat \<Rightarrow> char list" where
  "le_bytes 0 n = []"
| "le_bytes (Suc k) n = char_of (n mod 256) # le_bytes k (n div 256)"

fun le_val :: "char list \<Rightarrow> nat" where
  "le_val [] = 0"
| "le_val (c # cs) = of_char c + 256 * le_val cs"

lemma length_le_bytes [simp]: "length (le_bytes k n) = k"
  by (induction k arbitrary: n) auto

lemma of_char_bound: "(of_char c :: nat) < 256"
  using of_char_mod_256 [of c, where 'a = nat] mod_less_divisor [of 256 "of_char c :: nat"] by simp

lemma le_val_less: "le_val cs < 256 ^ length cs"
proof (induction cs)
  case (Cons c cs)
  have "(of_char c :: nat) < 256" by (rule of_char_bound)
  with Cons have "of_char c + 256 * le_val cs < 256 * Suc (le_val cs)" by simp
  also have "\<dots> \<le> 256 * 256 ^ length cs" using Cons by (intro mult_le_mono2) simp
  finally show ?case by simp
qed simp

lemma le_val_le_bytes: "le_val (le_bytes k n) = n mod 256 ^ k"
proof (induction k arbitrary: n)
  case (Suc k)
  have "le_val (le_bytes (Suc k) n) = n mod 256 + 256 * (n div 256 mod 256 ^ k)"
    by (simp add: Suc take_bit_eq_mod)
  also have "\<dots> = n mod (256 * 256 ^ k)"
    by (simp add: mod_mult2_eq)
  finally show ?case by simp
qed simp

lemma le_bytes_le_val: "le_bytes (length cs) (le_val cs) = cs"
  by (induction cs) simp_all

end
