(* ===== verification/Interfaces.thy ===== *)
theory Interfaces
  imports Prelude
begin

text \<open>
  The contracts that components of the program offer one another, each a locale whose
  parameters are the provider's operations and whose assumptions are the provider's laws:
  a queue of bytes (the network buffer) and a partial step function with an invariant (the
  state machines of the event-driven classes, the queues, the pools and the downloads).
  The consequences clients use are proved here once; every provider interprets its
  contract on its own definitions.
\<close>

section \<open>A queue of bytes\<close>

datatype qop = Put "char list" | Get nat

fun q_run :: "(char list \<Rightarrow> 's \<Rightarrow> 's res) \<Rightarrow> (nat \<Rightarrow> 's \<Rightarrow> (char list \<times> 's) res)
    \<Rightarrow> qop list \<Rightarrow> 's \<Rightarrow> (char list \<times> 's) res" where
  "q_run put get [] s = Inr ([], s)"
| "q_run put get (Put d # ops) s = bindE (put d s) (q_run put get ops)"
| "q_run put get (Get n # ops) s =
     bindE (get n s) (\<lambda>(x, s'). bindE (q_run put get ops s') (\<lambda>(y, s''). Inr (x @ y, s'')))"

text \<open>What the same operations do to a plain list, and the bytes they put.\<close>

fun q_spec :: "qop list \<Rightarrow> char list \<Rightarrow> (char list \<times> char list) option" where
  "q_spec [] c = Some ([], c)"
| "q_spec (Put d # ops) c = q_spec ops (c @ d)"
| "q_spec (Get n # ops) c =
     (if n \<le> length c then map_option (\<lambda>(y, c'). (take n c @ y, c')) (q_spec ops (drop n c))
      else None)"

fun q_input :: "qop list \<Rightarrow> char list" where
  "q_input [] = []"
| "q_input (Put d # ops) = d @ q_input ops"
| "q_input (Get n # ops) = q_input ops"

lemma q_spec_conserves: "q_spec ops c = Some (out, c') \<Longrightarrow> out @ c' = c @ q_input ops"
proof (induction ops c arbitrary: out rule: q_spec.induct)
  case (3 n ops c)
  then obtain y where "q_spec ops (drop n c) = Some (y, c')" "out = take n c @ y" "n \<le> length c"
    by (auto split: if_splits)
  with "3.IH" have "y @ c' = drop n c @ q_input ops" by simp
  with \<open>out = take n c @ y\<close> show ?case
    by (metis append.assoc append_take_drop_id q_input.simps(3))
qed auto

locale byte_queue =
  fixes inv :: "'s \<Rightarrow> bool"
    and cont :: "'s \<Rightarrow> char list"
    and fits :: "nat \<Rightarrow> char list \<Rightarrow> bool"
    and put :: "char list \<Rightarrow> 's \<Rightarrow> 's res"
    and get :: "nat \<Rightarrow> 's \<Rightarrow> (char list \<times> 's) res"
  assumes put_law: "inv s \<Longrightarrow> fits (length d) (cont s)
      \<Longrightarrow> \<exists>s'. put d s = Inr s' \<and> inv s' \<and> cont s' = cont s @ d"
    and get_law: "inv s \<Longrightarrow> n \<le> length (cont s)
      \<Longrightarrow> \<exists>s'. get n s = Inr (take n (cont s), s') \<and> inv s' \<and> cont s' = drop n (cont s)"
    and get_err: "inv s \<Longrightarrow> length (cont s) < n \<Longrightarrow> get n s = Inl Assert_Failed"
    and fits_left: "fits (a + b) c \<Longrightarrow> fits a c"
    and fits_put: "fits (length d + b) c \<Longrightarrow> fits b (c @ d)"
    and fits_get: "fits a c \<Longrightarrow> fits a (drop n c)"
begin

lemma run_refines:
  assumes "inv s" and "fits (length (q_input ops)) (cont s)"
  shows "case q_spec ops (cont s) of
           None \<Rightarrow> q_run put get ops s = Inl Assert_Failed
         | Some (out, c) \<Rightarrow> \<exists>s'. q_run put get ops s = Inr (out, s') \<and> inv s' \<and> cont s' = c"
  using assms
proof (induction ops arbitrary: s)
  case Nil
  then show ?case by simp
next
  case (Cons op ops)
  show ?case
  proof (cases op)
    case (Put d)
    have "fits (length d) (cont s)" using Cons.prems(2) Put by (auto intro: fits_left)
    then obtain s' where s': "put d s = Inr s'" "inv s'" "cont s' = cont s @ d"
      using put_law[OF Cons.prems(1)] by blast
    have "fits (length (q_input ops)) (cont s')"
      using Cons.prems(2) Put s'(3) fits_put by simp
    from Cons.IH[OF s'(2) this] show ?thesis
      using Put s' by (auto split: option.splits)
  next
    case (Get n)
    show ?thesis
    proof (cases "n \<le> length (cont s)")
      case True
      then obtain s' where s': "get n s = Inr (take n (cont s), s')" "inv s'"
          "cont s' = drop n (cont s)"
        using get_law[OF Cons.prems(1)] by blast
      have "fits (length (q_input ops)) (cont s')"
        using Cons.prems(2) Get s'(3) fits_get by simp
      from Cons.IH[OF s'(2) this] show ?thesis
        using Get s' True by (auto split: option.splits)
    next
      case False
      then show ?thesis using Get get_err[OF Cons.prems(1)] by simp
    qed
  qed
qed

lemma run_fifo:
  assumes "inv s" and "fits (length (q_input ops)) (cont s)"
    and "q_run put get ops s = Inr (out, s')"
  shows "out @ cont s' = cont s @ q_input ops"
  using run_refines[OF assms(1,2)] assms(3) q_spec_conserves[of ops "cont s"]
  by (auto split: option.splits)

end

section \<open>Machines driven by events\<close>

text \<open>
  An operation \<open>step\<close> per event, on a state with an invariant. An event whose
  \<open>guard\<close> holds keeps the invariant, and can fail only with an outcome in \<open>allowed\<close>.
\<close>

locale event_machine =
  fixes inv :: "'s \<Rightarrow> bool"
    and guard :: "'e \<Rightarrow> bool"
    and allowed :: "failure set"
    and step :: "'e \<Rightarrow> 's \<Rightarrow> 's res"
  assumes step_inv: "inv s \<Longrightarrow> guard e \<Longrightarrow> step e s = Inr s' \<Longrightarrow> inv s'"
    and step_fail: "inv s \<Longrightarrow> guard e \<Longrightarrow> step e s = Inl f \<Longrightarrow> f \<in> allowed"
begin

lemma run_safe:
  assumes "inv s" and "\<forall>e \<in> set es. guard e"
  shows "case foldE step es s of Inr s' \<Rightarrow> inv s' | Inl f \<Rightarrow> f \<in> allowed"
  using assms
proof (induction es arbitrary: s)
  case (Cons e es)
  then show ?case
    using step_inv[of s e] step_fail[of s e] by (cases "step e s") auto
qed simp

lemma run_total:
  assumes "inv s" and "\<forall>e \<in> set es. guard e" and "allowed = {}"
  shows "\<exists>s'. foldE step es s = Inr s' \<and> inv s'"
  using run_safe[OF assms(1,2)] assms(3) by (cases "foldE step es s") auto

end

end
