(* ===== verification/Net_Buffer.thy ===== *)
theory Net_Buffer
  imports Interfaces
begin

text \<open>
  The byte buffer of the network library, \<^verbatim>\<open>plugins/Muduo/muduo/net/buffer.{h,cpp}\<close>:
  a growable vector with a reader and a writer index. The representation, every public
  operation with its assertions, the invariant between the indexes, and the refinement
  to a plain queue of bytes, stated once as the locale \<open>byte_queue\<close>.

  A \<^verbatim>\<open>const char*\<close> into the buffer is modelled by its offset from \<^verbatim>\<open>begin()\<close>;
  \<^verbatim>\<open>nullptr\<close> is \<open>None\<close>. The arguments of \<^verbatim>\<open>append\<close> do not point into the buffer.
\<close>

section \<open>Representation\<close>

record buffer =
  buf_vec :: "char list"
  readerIndex :: size_t
  writeIndex :: size_t

definition kCheapprepend :: size_t where
  "kCheapprepend = 8"

definition kInitialSize :: size_t where
  "kInitialSize = 1024"

definition KCRLF :: "char list" where
  "KCRLF = [CHR 0x0D, CHR 0x0A]"

definition readableBytes :: "buffer \<Rightarrow> size_t" where
  "readableBytes b = sz_sub (writeIndex b) (readerIndex b)"

definition writeableBytes :: "buffer \<Rightarrow> size_t" where
  "writeableBytes b = sz_sub (length (buf_vec b)) (writeIndex b)"

definition prependableBytes :: "buffer \<Rightarrow> size_t" where
  "prependableBytes b = readerIndex b"

definition peek :: "buffer \<Rightarrow> nat" where
  "peek b = readerIndex b"

definition beginWrite :: "buffer \<Rightarrow> nat" where
  "beginWrite b = writeIndex b"

text \<open>The constructor checks its own postconditions.\<close>

definition Buffer_new :: "buffer res" where
  "Buffer_new =
     (let b = \<lparr>buf_vec = replicate (kCheapprepend + kInitialSize) (CHR 0x00),
               readerIndex = kCheapprepend, writeIndex = kCheapprepend\<rparr>
      in assertE (readableBytes b = 0)
          (assertE (writeableBytes b = kInitialSize)
            (assertE (prependableBytes b = kCheapprepend) (Inr b))))"

definition Buffer_swap :: "buffer \<Rightarrow> buffer \<Rightarrow> buffer \<times> buffer" where
  "Buffer_swap b rhs =
     (b\<lparr>buf_vec := buf_vec rhs, readerIndex := readerIndex rhs, writeIndex := writeIndex rhs\<rparr>,
      rhs\<lparr>buf_vec := buf_vec b, readerIndex := readerIndex b, writeIndex := writeIndex b\<rparr>)"

section \<open>Searching and retrieving\<close>

definition search_CRLF :: "nat \<Rightarrow> buffer \<Rightarrow> nat option" where
  "search_CRLF start b =
     (let crlf = (case find_sub KCRLF (slice start (beginWrite b) (buf_vec b)) of
                    None \<Rightarrow> beginWrite b | Some k \<Rightarrow> start + k)
      in if crlf = beginWrite b then None else Some crlf)"

definition findCRLF :: "buffer \<Rightarrow> nat option" where
  "findCRLF b = search_CRLF (peek b) b"

definition findCRLF_start :: "nat \<Rightarrow> buffer \<Rightarrow> nat option res" where
  "findCRLF_start start b =
     assertE (peek b \<le> start) (assertE (start \<le> beginWrite b) (Inr (search_CRLF start b)))"

definition retrieveAll :: "buffer \<Rightarrow> buffer" where
  "retrieveAll b = b\<lparr>readerIndex := kCheapprepend, writeIndex := kCheapprepend\<rparr>"

definition retrieve :: "size_t \<Rightarrow> buffer \<Rightarrow> buffer res" where
  "retrieve len b =
     assertE (len \<le> readableBytes b)
       (if len < readableBytes b
        then Inr (b\<lparr>readerIndex := sz_add (readerIndex b) len\<rparr>)
        else Inr (retrieveAll b))"

definition retrieveUntil :: "nat \<Rightarrow> buffer \<Rightarrow> buffer res" where
  "retrieveUntil e b =
     assertE (peek b \<le> e) (assertE (e \<le> beginWrite b) (retrieve (e - peek b) b))"

definition retrieveInt32 :: "buffer \<Rightarrow> buffer res" where
  "retrieveInt32 b = retrieve 4 b"

definition retrieveInt16 :: "buffer \<Rightarrow> buffer res" where
  "retrieveInt16 b = retrieve 2 b"

definition retrieveInt8 :: "buffer \<Rightarrow> buffer res" where
  "retrieveInt8 b = retrieve 1 b"

definition retrieveAsString :: "size_t \<Rightarrow> buffer \<Rightarrow> (char list \<times> buffer) res" where
  "retrieveAsString len b =
     assertE (len \<le> readableBytes b)
       (bindE (read_at (peek b) len (buf_vec b)) (\<lambda>result.
        bindE (retrieve len b) (\<lambda>b'. Inr (result, b'))))"

definition retrieveAllAsString :: "buffer \<Rightarrow> (char list \<times> buffer) res" where
  "retrieveAllAsString b = retrieveAsString (readableBytes b) b"

section \<open>Writing\<close>

definition makeSpace :: "size_t \<Rightarrow> buffer \<Rightarrow> buffer res" where
  "makeSpace len b =
     (if sz_add (writeableBytes b) (prependableBytes b) < sz_add len kCheapprepend
      then let n = sz_add (writeIndex b) len
           in if n \<le> max_alloc
              then Inr (b\<lparr>buf_vec := vector_resize n (CHR 0x00) (buf_vec b)\<rparr>)
              else Inl Length_Error
      else assertE (kCheapprepend < readerIndex b)
        (let readable = readableBytes b
         in bindE (read_at (readerIndex b) (writeIndex b - readerIndex b) (buf_vec b)) (\<lambda>d.
            bindE (copy_at kCheapprepend d (buf_vec b)) (\<lambda>m.
            let b' = b\<lparr>buf_vec := m, readerIndex := kCheapprepend,
                       writeIndex := sz_add kCheapprepend readable\<rparr>
            in assertE (readableBytes b' = readable) (Inr b')))))"

definition ensureWriteableBytes :: "size_t \<Rightarrow> buffer \<Rightarrow> buffer res" where
  "ensureWriteableBytes len b =
     bindE (if writeableBytes b < len then makeSpace len b else Inr b) (\<lambda>b'.
       assertE (len \<le> writeableBytes b') (Inr b'))"

definition hasWritten :: "size_t \<Rightarrow> buffer \<Rightarrow> buffer" where
  "hasWritten len b = b\<lparr>writeIndex := sz_add (writeIndex b) len\<rparr>"

definition Buffer_append :: "char list \<Rightarrow> buffer \<Rightarrow> buffer res" where
  "Buffer_append data b =
     bindE (ensureWriteableBytes (length data) b) (\<lambda>b.
     bindE (copy_at (beginWrite b) data (buf_vec b)) (\<lambda>m.
     Inr (hasWritten (length data) (b\<lparr>buf_vec := m\<rparr>))))"

definition prepend :: "char list \<Rightarrow> buffer \<Rightarrow> buffer res" where
  "prepend data b =
     assertE (length data \<le> prependableBytes b)
       (let b' = b\<lparr>readerIndex := sz_sub (readerIndex b) (length data)\<rparr>
        in bindE (copy_at (readerIndex b') data (buf_vec b')) (\<lambda>m. Inr (b'\<lparr>buf_vec := m\<rparr>)))"

definition shrink :: "size_t \<Rightarrow> buffer \<Rightarrow> buffer res" where
  "shrink reserve b =
     bindE Buffer_new (\<lambda>other.
     bindE (ensureWriteableBytes (sz_add (readableBytes b) reserve) other) (\<lambda>other.
     bindE (retrieveAllAsString b) (\<lambda>(s, b).
     bindE (Buffer_append s other) (\<lambda>other.
     Inr (fst (Buffer_swap b other))))))"

section \<open>Integers in network byte order\<close>

text \<open>
  The host is little-endian: \<^verbatim>\<open>htonl\<close> reverses the object representation, and
  \<^verbatim>\<open>ntohl\<close> is the same function. \<^verbatim>\<open>int32_t\<close> and \<^verbatim>\<open>uint32_t\<close> share their bits,
  so one word type stands for both.
\<close>

definition htonl :: "32 word \<Rightarrow> 32 word" where
  "htonl x = word_of_nat (le_val (rev (le_bytes 4 (unat x))))"

definition htons :: "16 word \<Rightarrow> 16 word" where
  "htons x = word_of_nat (le_val (rev (le_bytes 2 (unat x))))"

definition appendInt32 :: "32 word \<Rightarrow> buffer \<Rightarrow> buffer res" where
  "appendInt32 x b = (let be32 = htonl x in Buffer_append (le_bytes 4 (unat be32)) b)"

definition appendInt16 :: "16 word \<Rightarrow> buffer \<Rightarrow> buffer res" where
  "appendInt16 x b = (let be16 = htons x in Buffer_append (le_bytes 2 (unat be16)) b)"

definition appendInt8 :: "8 word \<Rightarrow> buffer \<Rightarrow> buffer res" where
  "appendInt8 x b = Buffer_append (le_bytes 1 (unat x)) b"

definition peekInt32 :: "buffer \<Rightarrow> 32 word res" where
  "peekInt32 b =
     assertE (4 \<le> readableBytes b)
       (bindE (read_at (peek b) 4 (buf_vec b)) (\<lambda>m.
        let be32 = word_of_nat (le_val m) in Inr (htonl be32)))"

definition peekInt16 :: "buffer \<Rightarrow> 16 word res" where
  "peekInt16 b =
     assertE (2 \<le> readableBytes b)
       (bindE (read_at (peek b) 2 (buf_vec b)) (\<lambda>m.
        let be16 = word_of_nat (le_val m) in Inr (htons be16)))"

definition peekInt8 :: "buffer \<Rightarrow> 8 word res" where
  "peekInt8 b =
     assertE (1 \<le> readableBytes b)
       (bindE (read_at (peek b) 1 (buf_vec b)) (\<lambda>m. Inr (word_of_nat (le_val m))))"

definition readInt32 :: "buffer \<Rightarrow> (32 word \<times> buffer) res" where
  "readInt32 b = bindE (peekInt32 b) (\<lambda>x. bindE (retrieveInt32 b) (\<lambda>b'. Inr (x, b')))"

definition readInt16 :: "buffer \<Rightarrow> (16 word \<times> buffer) res" where
  "readInt16 b = bindE (peekInt16 b) (\<lambda>x. bindE (retrieveInt16 b) (\<lambda>b'. Inr (x, b')))"

definition readInt_8 :: "buffer \<Rightarrow> (8 word \<times> buffer) res" where
  "readInt_8 b = bindE (peekInt8 b) (\<lambda>x. bindE (retrieveInt8 b) (\<lambda>b'. Inr (x, b')))"

definition prependInt32 :: "32 word \<Rightarrow> buffer \<Rightarrow> buffer res" where
  "prependInt32 x b = (let be32 = htonl x in prepend (le_bytes 4 (unat be32)) b)"

definition prependInt16 :: "16 word \<Rightarrow> buffer \<Rightarrow> buffer res" where
  "prependInt16 x b = (let be16 = htons x in prepend (le_bytes 2 (unat be16)) b)"

definition prependInt8 :: "8 word \<Rightarrow> buffer \<Rightarrow> buffer res" where
  "prependInt8 x b = prepend (le_bytes 1 (unat x)) b"

section \<open>Reading from a descriptor\<close>

text \<open>
  \<^verbatim>\<open>readv\<close> is the kernel's: a parameter that maps the lengths of the I/O vector to an
  error number or to the bytes received. The bytes fill the first vector before the
  second, as the system call documents; the second one is the 65536-byte stack buffer.
  The result is the returned byte count (\<open>-1\<close> on error), the error number stored
  through \<^verbatim>\<open>saveErrno\<close>, and the buffer.
\<close>

definition kExtraBuff :: size_t where
  "kExtraBuff = 65536"

definition readFd ::
  "(size_t list \<Rightarrow> int + char list) \<Rightarrow> buffer \<Rightarrow> (int \<times> int option \<times> buffer) res" where
  "readFd readv b =
     (let writable = writeableBytes b
      in case readv [writable, kExtraBuff] of
           Inl err \<Rightarrow> Inr (- 1, Some err, b)
         | Inr received \<Rightarrow>
             (let n = length received
              in bindE (copy_at (writeIndex b) (take writable received) (buf_vec b)) (\<lambda>m.
                 if n \<le> writable
                 then Inr (int n, None,
                           b\<lparr>buf_vec := m, writeIndex := sz_add (writeIndex b) n\<rparr>)
                 else bindE (copy_at 0 (drop writable received)
                              (replicate kExtraBuff (CHR 0x00))) (\<lambda>extrabuff.
                      bindE (read_at 0 (sz_sub n writable) extrabuff) (\<lambda>rest.
                      bindE (Buffer_append rest
                              (b\<lparr>buf_vec := m, writeIndex := length m\<rparr>)) (\<lambda>b'.
                      Inr (int n, None, b')))))))"


section \<open>Invariant and contents\<close>

definition buf_inv :: "buffer \<Rightarrow> bool" where
  "buf_inv b \<longleftrightarrow> readerIndex b \<le> writeIndex b \<and> writeIndex b \<le> length (buf_vec b)
     \<and> kCheapprepend \<le> length (buf_vec b) \<and> length (buf_vec b) \<le> max_alloc"

definition contents :: "buffer \<Rightarrow> char list" where
  "contents b = slice (readerIndex b) (writeIndex b) (buf_vec b)"

text \<open>
  How much may be appended for sure: the growth of the vector is bounded by the
  unread bytes and twice the appended ones.
\<close>

definition room :: "nat \<Rightarrow> char list \<Rightarrow> bool" where
  "room n c \<longleftrightarrow> length c + 2 * n + kCheapprepend \<le> max_alloc"

lemma kCheapprepend_le: "kCheapprepend \<le> max_alloc"
  by (simp add: max_alloc_def kCheapprepend_def)

lemma buf_invD:
  assumes "buf_inv b"
  shows "readerIndex b \<le> writeIndex b" "writeIndex b \<le> length (buf_vec b)"
    "kCheapprepend \<le> length (buf_vec b)" "length (buf_vec b) \<le> max_alloc"
    "readerIndex b \<le> max_alloc" "writeIndex b \<le> max_alloc"
  using assms by (auto simp: buf_inv_def)

lemma buf_inv_readableBytes [simp]:
  "buf_inv b \<Longrightarrow> readableBytes b = writeIndex b - readerIndex b"
  by (simp add: buf_invD readableBytes_def sz_sub_small)

lemma buf_inv_writeableBytes [simp]:
  "buf_inv b \<Longrightarrow> writeableBytes b = length (buf_vec b) - writeIndex b"
  by (simp add: buf_invD writeableBytes_def sz_sub_small)

lemma length_contents [simp]: "buf_inv b \<Longrightarrow> length (contents b) = writeIndex b - readerIndex b"
  by (simp add: buf_inv_def contents_def)

lemma readableBytes_contents: "buf_inv b \<Longrightarrow> readableBytes b = length (contents b)"
  by simp

lemma Buffer_new_ok:
  "\<exists>b. Buffer_new = Inr b \<and> buf_inv b \<and> contents b = [] \<and> writeableBytes b = kInitialSize
       \<and> prependableBytes b = kCheapprepend"
  by (simp add: Buffer_new_def buf_inv_def contents_def readableBytes_def writeableBytes_def
      prependableBytes_def kCheapprepend_def kInitialSize_def max_alloc_def sz_sub_def size_mod_def
      Let_def)

lemma buf_inv_retrieveAll [inv_intros]: "buf_inv b \<Longrightarrow> buf_inv (retrieveAll b)"
  by (simp add: buf_inv_def retrieveAll_def)

lemma contents_retrieveAll [model_simps]: "contents (retrieveAll b) = []"
  by (simp add: contents_def retrieveAll_def)

lemma retrieve_ok:
  assumes "buf_inv b" and "n \<le> length (contents b)"
  shows "\<exists>b'. retrieve n b = Inr b' \<and> buf_inv b' \<and> contents b' = drop n (contents b)"
proof (cases "n < readableBytes b")
  case True
  with assms have "sz_add (readerIndex b) n = readerIndex b + n"
    using buf_invD[OF assms(1)] by (intro sz_add_small) auto
  with True assms show ?thesis
    by (auto simp: retrieve_def buf_inv_def contents_def drop_slice)
next
  case False
  with assms show ?thesis
    using buf_inv_retrieveAll[of b] by (simp add: retrieve_def contents_retrieveAll)
qed

lemma retrieve_too_much:
  "buf_inv b \<Longrightarrow> length (contents b) < n \<Longrightarrow> retrieve n b = Inl Assert_Failed"
  by (simp add: retrieve_def)

lemma retrieveAsString_ok:
  assumes "buf_inv b" and "n \<le> length (contents b)"
  shows "\<exists>b'. retrieveAsString n b = Inr (take n (contents b), b') \<and> buf_inv b'
              \<and> contents b' = drop n (contents b)"
proof -
  obtain b' where b': "retrieve n b = Inr b'" "buf_inv b'" "contents b' = drop n (contents b)"
    using retrieve_ok[OF assms] by blast
  have "read_at (peek b) n (buf_vec b) = Inr (take n (contents b))"
    using assms buf_invD[OF assms(1)] by (auto simp: read_at_def peek_def contents_def take_slice)
  with b' assms show ?thesis by (simp add: retrieveAsString_def)
qed

lemma retrieveAllAsString_ok:
  assumes "buf_inv b"
  shows "\<exists>b'. retrieveAllAsString b = Inr (contents b, b') \<and> buf_inv b' \<and> contents b' = []"
  using retrieveAsString_ok[OF assms, of "length (contents b)"] assms
  by (auto simp: retrieveAllAsString_def)

section \<open>Making space\<close>

lemma makeSpace_grow:
  assumes inv: "buf_inv b" and full: "writeableBytes b < n" and le: "writeIndex b + n \<le> max_alloc"
    and small: "sz_add (writeableBytes b) (prependableBytes b) < sz_add n kCheapprepend"
  shows "\<exists>b'. makeSpace n b = Inr b' \<and> buf_inv b' \<and> contents b' = contents b
              \<and> n \<le> writeableBytes b'"
proof -
  have "sz_add (writeIndex b) n = writeIndex b + n"
    using buf_invD[OF inv] le by (simp add: sz_add_small)
  with small le have eq: "makeSpace n b =
      Inr (b\<lparr>buf_vec := vector_resize (writeIndex b + n) (CHR 0x00) (buf_vec b)\<rparr>)"
    by (simp add: makeSpace_def Let_def)
  have grow: "length (buf_vec b) < writeIndex b + n" using full inv buf_invD[OF inv] by simp
  let ?b = "b\<lparr>buf_vec := vector_resize (writeIndex b + n) (CHR 0x00) (buf_vec b)\<rparr>"
  have inv': "buf_inv ?b" using inv le grow by (simp add: buf_inv_def)
  moreover have "contents ?b = contents b"
    using inv by (simp add: contents_def buf_inv_def slice_vector_resize)
  moreover have "n \<le> writeableBytes ?b" using inv' by simp
  ultimately show ?thesis using eq by blast
qed

text \<open>The vector grows past \<^verbatim>\<open>max_size()\<close> only when there was no room.\<close>

lemma makeSpace_no_room:
  assumes inv: "buf_inv b" and n: "n \<le> max_alloc" and large: "max_alloc < writeIndex b + n"
    and small: "sz_add (writeableBytes b) (prependableBytes b) < sz_add n kCheapprepend"
  shows "makeSpace n b = Inl Length_Error \<and> \<not> room n (contents b)"
proof -
  have "sz_add n kCheapprepend = n + kCheapprepend"
    using kCheapprepend_le n by (simp add: sz_add_small)
  moreover have "sz_add (writeableBytes b) (prependableBytes b)
      = length (buf_vec b) - writeIndex b + readerIndex b"
    using inv buf_invD[OF inv] by (simp add: sz_add_small prependableBytes_def)
  ultimately have "readerIndex b < n + kCheapprepend"
    using small by linarith
  then have "\<not> room n (contents b)"
    using large inv buf_invD[OF inv] by (simp add: room_def)
  moreover have "sz_add (writeIndex b) n = writeIndex b + n"
    using buf_invD[OF inv] n by (simp add: sz_add_small)
  ultimately show ?thesis using small large by (simp add: makeSpace_def Let_def)
qed

lemma makeSpace_move:
  assumes inv: "buf_inv b" and full: "writeableBytes b < n" and n: "n \<le> max_alloc"
    and large: "\<not> sz_add (writeableBytes b) (prependableBytes b) < sz_add n kCheapprepend"
  shows "\<exists>b'. makeSpace n b = Inr b' \<and> buf_inv b' \<and> contents b' = contents b
              \<and> n \<le> writeableBytes b'"
proof -
  have "sz_add n kCheapprepend = n + kCheapprepend"
    using kCheapprepend_le n by (simp add: sz_add_small)
  moreover have "sz_add (writeableBytes b) (prependableBytes b)
      = length (buf_vec b) - writeIndex b + readerIndex b"
    using inv buf_invD[OF inv] by (simp add: sz_add_small prependableBytes_def)
  ultimately have fits: "n + kCheapprepend \<le> length (buf_vec b) - writeIndex b + readerIndex b"
    using large by linarith
  then have reader: "kCheapprepend < readerIndex b" using full inv by simp
  let ?k = "writeIndex b - readerIndex b"
  let ?m = "take kCheapprepend (buf_vec b) @ contents b @ drop (kCheapprepend + ?k) (buf_vec b)"
  let ?b = "b\<lparr>buf_vec := ?m, readerIndex := kCheapprepend, writeIndex := kCheapprepend + ?k\<rparr>"
  have rd: "read_at (readerIndex b) ?k (buf_vec b) = Inr (contents b)"
    using inv by (simp add: read_at_def contents_def buf_inv_def)
  have len: "kCheapprepend + length (contents b) \<le> length (buf_vec b)"
    using inv reader by (auto simp: buf_inv_def)
  have cp: "copy_at kCheapprepend (contents b) (buf_vec b) = Inr ?m"
    using len inv by (simp add: copy_at_def)
  have lm: "length ?m = length (buf_vec b)" using len inv by simp
  have inv': "buf_inv ?b"
  proof -
    have "kCheapprepend + ?k \<le> length (buf_vec b)" using len inv by simp
    then show ?thesis using buf_invD[OF inv] lm unfolding buf_inv_def by simp
  qed
  have sz: "sz_add kCheapprepend (readableBytes b) = kCheapprepend + ?k"
    using inv buf_invD[OF inv] kCheapprepend_le by (simp add: sz_add_small)
  have "makeSpace n b = Inr ?b"
    using large reader rd cp sz inv inv' by (simp add: makeSpace_def Let_def)
  moreover have "contents ?b = contents b"
    using len inv by (simp add: contents_def [of ?b] slice_def)
  moreover have "n \<le> writeableBytes ?b" using inv' lm fits inv
    by simp (auto simp: buf_inv_def)
  ultimately show ?thesis using inv' by blast
qed

lemma ensureWriteableBytes_cases:
  assumes "buf_inv b" and "n \<le> max_alloc"
  shows "ensureWriteableBytes n b = Inl Length_Error \<and> \<not> room n (contents b)
     \<or> (\<exists>b'. ensureWriteableBytes n b = Inr b' \<and> buf_inv b' \<and> contents b' = contents b
              \<and> n \<le> writeableBytes b')"
proof (cases "writeableBytes b < n")
  case True
  have "makeSpace n b = Inl Length_Error \<and> \<not> room n (contents b)
     \<or> (\<exists>b'. makeSpace n b = Inr b' \<and> buf_inv b' \<and> contents b' = contents b \<and> n \<le> writeableBytes b')"
  proof (cases "sz_add (writeableBytes b) (prependableBytes b) < sz_add n kCheapprepend")
    case small: True
    show ?thesis
      by (cases "writeIndex b + n \<le> max_alloc")
        (use makeSpace_grow[OF assms(1) True _ small] makeSpace_no_room[OF assms _ small] in simp_all)
  next
    case False
    then show ?thesis using makeSpace_move[OF assms(1) True assms(2)] by simp
  qed
  then show ?thesis
  proof (elim disjE exE conjE)
    fix b' assume "makeSpace n b = Inr b'" "buf_inv b'" "contents b' = contents b" "n \<le> writeableBytes b'"
    then show ?thesis using True by (simp add: ensureWriteableBytes_def)
  qed (use True in \<open>simp add: ensureWriteableBytes_def\<close>)
next
  case False
  with assms show ?thesis by (simp add: ensureWriteableBytes_def)
qed

lemma ensureWriteableBytes_ok:
  assumes "buf_inv b" and "room n (contents b)"
  shows "\<exists>b'. ensureWriteableBytes n b = Inr b' \<and> buf_inv b' \<and> contents b' = contents b
              \<and> n \<le> writeableBytes b'"
proof -
  have "n \<le> max_alloc" using assms(2) by (simp add: room_def)
  then show ?thesis using ensureWriteableBytes_cases[OF assms(1)] assms(2) by blast
qed

lemma Buffer_append_cases:
  assumes "buf_inv b" and "length d \<le> max_alloc"
  shows "Buffer_append d b = Inl Length_Error \<and> \<not> room (length d) (contents b)
     \<or> (\<exists>b'. Buffer_append d b = Inr b' \<and> buf_inv b' \<and> contents b' = contents b @ d)"
proof (cases "ensureWriteableBytes (length d) b")
  case (Inl e)
  then show ?thesis using ensureWriteableBytes_cases[OF assms] by (auto simp: Buffer_append_def)
next
  case (Inr b1)
  then have b1: "buf_inv b1" "contents b1 = contents b" "length d \<le> writeableBytes b1"
    using ensureWriteableBytes_cases[OF assms] by auto
  let ?w = "writeIndex b1"
  let ?m = "take ?w (buf_vec b1) @ d @ drop (?w + length d) (buf_vec b1)"
  have fits: "?w + length d \<le> length (buf_vec b1)" using b1(1,3) by simp (auto simp: buf_inv_def)
  have sz: "sz_add ?w (length d) = ?w + length d"
    using fits buf_invD[OF b1(1)] by (intro sz_add_small) auto
  let ?b = "b1\<lparr>buf_vec := ?m, writeIndex := ?w + length d\<rparr>"
  have "Buffer_append d b = Inr ?b"
    using Inr fits sz by (simp add: Buffer_append_def beginWrite_def copy_at_def hasWritten_def)
  moreover have "buf_inv ?b" using b1(1) fits by (auto simp: buf_inv_def)
  moreover have "contents ?b = contents b1 @ d"
    using buf_invD[OF b1(1)] by (simp add: contents_def slice_overwrite_end)
  ultimately show ?thesis using b1(2) by auto
qed

lemma Buffer_append_ok:
  assumes "buf_inv b" and "room (length d) (contents b)"
  shows "\<exists>b'. Buffer_append d b = Inr b' \<and> buf_inv b' \<and> contents b' = contents b @ d"
proof -
  have "length d \<le> max_alloc" using assms(2) by (simp add: room_def)
  then show ?thesis using Buffer_append_cases[OF assms(1)] assms(2) by blast
qed

lemma prepend_ok:
  assumes "buf_inv b" and "length d \<le> prependableBytes b"
  shows "\<exists>b'. prepend d b = Inr b' \<and> buf_inv b' \<and> contents b' = d @ contents b
              \<and> prependableBytes b' = prependableBytes b - length d"
proof -
  let ?r = "readerIndex b - length d"
  let ?m = "take ?r (buf_vec b) @ d @ drop (readerIndex b) (buf_vec b)"
  have le: "length d \<le> readerIndex b" using assms(2) by (simp add: prependableBytes_def)
  then have sz: "sz_sub (readerIndex b) (length d) = ?r"
    using buf_invD[OF assms(1)] by (simp add: sz_sub_small)
  have fits: "?r + length d = readerIndex b" "readerIndex b \<le> length (buf_vec b)"
    using le assms(1) by (auto simp: buf_inv_def)
  let ?b = "b\<lparr>buf_vec := ?m, readerIndex := ?r\<rparr>"
  have "prepend d b = Inr ?b"
    using assms(2) sz fits by (simp add: prepend_def Let_def copy_at_def)
  moreover have "buf_inv ?b" using assms(1) fits by (auto simp: buf_inv_def)
  moreover have "contents ?b = d @ contents b"
  proof -
    have "writeIndex b - ?r = length d + (writeIndex b - readerIndex b)"
      using fits assms(1) by (auto simp: buf_inv_def)
    then show ?thesis using fits by (simp add: contents_def slice_def)
  qed
  ultimately show ?thesis by (auto simp: prependableBytes_def)
qed

lemma prepend_too_much: "prependableBytes b < length d \<Longrightarrow> prepend d b = Inl Assert_Failed"
  by (simp add: prepend_def)

lemma room_mono: "room n c \<Longrightarrow> m \<le> n \<Longrightarrow> length c' \<le> length c \<Longrightarrow> room m c'"
  by (simp add: room_def)

lemma shrink_ok:
  assumes "buf_inv b" and "room (length (contents b) + reserve) (contents b)"
  shows "\<exists>b'. shrink reserve b = Inr b' \<and> buf_inv b' \<and> contents b' = contents b
              \<and> reserve \<le> writeableBytes b'"
proof -
  let ?n = "length (contents b) + reserve"
  have sz: "sz_add (readableBytes b) reserve = ?n"
    using assms by (simp add: room_def sz_add_small)
  obtain o0 where o0: "Buffer_new = Inr o0" "buf_inv o0" "contents o0 = []"
    using Buffer_new_ok by blast
  have r0: "room ?n (contents o0)" using assms(2) o0(3) by (simp add: room_def)
  obtain o1 where o1: "ensureWriteableBytes ?n o0 = Inr o1" "buf_inv o1"
      "contents o1 = []" "?n \<le> writeableBytes o1"
    using ensureWriteableBytes_ok[OF o0(2) r0] o0(3) by auto
  obtain b0 where b0: "retrieveAllAsString b = Inr (contents b, b0)"
    using retrieveAllAsString_ok[OF assms(1)] by blast
  let ?d = "contents b" and ?w = "writeIndex o1"
  have fits: "?w + ?n \<le> length (buf_vec o1)" using o1(2,4) by simp (auto simp: buf_inv_def)
  have noop: "ensureWriteableBytes (length ?d) o1 = Inr o1"
    using o1(4) by (simp add: ensureWriteableBytes_def)
  have r1: "room (length ?d) (contents o1)" using assms(2) o1(3) by (simp add: room_def)
  have szw: "sz_add ?w (length ?d) = ?w + length ?d"
    using fits buf_invD[OF o1(2)] by (intro sz_add_small) auto
  obtain o2 where o2: "Buffer_append ?d o1 = Inr o2" "buf_inv o2" "contents o2 = ?d"
    using Buffer_append_ok[OF o1(2) r1] o1(3) by auto
  from o2(1) have "length (buf_vec o2) = length (buf_vec o1)" "writeIndex o2 = ?w + length ?d"
    using noop fits szw
    by (auto simp: Buffer_append_def beginWrite_def copy_at_def hasWritten_def)
  then have w: "reserve \<le> writeableBytes o2" using o2(2) fits by simp
  have "shrink reserve b = Inr (fst (Buffer_swap b0 o2))"
    by (simp add: shrink_def o0(1) o1(1) b0 o2(1) sz)
  moreover have "fst (Buffer_swap b0 o2) = o2" by (simp add: Buffer_swap_def)
  ultimately show ?thesis using o2 w by auto
qed

section \<open>The buffer is a queue of bytes\<close>

interpretation bq: byte_queue buf_inv contents room Buffer_append retrieveAsString
proof unfold_locales
  show "\<exists>s'. Buffer_append d s = Inr s' \<and> buf_inv s' \<and> contents s' = contents s @ d"
    if "buf_inv s" "room (length d) (contents s)" for s d
    using that by (rule Buffer_append_ok)
  show "\<exists>s'. retrieveAsString n s = Inr (take n (contents s), s') \<and> buf_inv s'
      \<and> contents s' = drop n (contents s)"
    if "buf_inv s" "n \<le> length (contents s)" for s n
    using that by (rule retrieveAsString_ok)
  show "retrieveAsString n s = Inl Assert_Failed"
    if "buf_inv s" "length (contents s) < n" for s n
    using that by (simp add: retrieveAsString_def)
qed (auto simp: room_def)

section \<open>Searching\<close>

lemma findCRLF_contents:
  assumes "buf_inv b"
  shows "findCRLF b = map_option (\<lambda>k. readerIndex b + k) (find_sub KCRLF (contents b))"
proof (cases "find_sub KCRLF (contents b)")
  case None
  then show ?thesis
    by (simp add: findCRLF_def search_CRLF_def contents_def peek_def beginWrite_def)
next
  case (Some k)
  then have "occurs_at KCRLF (contents b) k" by (simp add: find_sub_SomeD)
  then have "k + 2 \<le> length (contents b)" using occurs_at_bound by (fastforce simp: KCRLF_def)
  then have "readerIndex b + k \<noteq> writeIndex b" using assms by simp
  with Some show ?thesis
    by (simp add: findCRLF_def search_CRLF_def contents_def peek_def beginWrite_def Let_def)
qed

lemma retrieveUntil_ok:
  assumes "buf_inv b" and "readerIndex b \<le> e" and "e \<le> writeIndex b"
  shows "\<exists>b'. retrieveUntil e b = Inr b' \<and> buf_inv b'
              \<and> contents b' = drop (e - readerIndex b) (contents b)"
  using retrieve_ok[OF assms(1), of "e - readerIndex b"] assms
  by (simp add: retrieveUntil_def peek_def beginWrite_def)

section \<open>Integers on the wire\<close>

definition be_bytes :: "nat \<Rightarrow> nat \<Rightarrow> char list" where
  "be_bytes k n = rev (le_bytes k n)"

lemma length_be_bytes [simp]: "length (be_bytes k n) = k"
  by (simp add: be_bytes_def)

lemma le_bytes_htonl: "le_bytes 4 (unat (htonl x)) = be_bytes 4 (unat x)"
proof -
  have "le_val (be_bytes 4 (unat x)) < 2 ^ 32"
    using le_val_less[of "be_bytes 4 (unat x)"] by simp
  then have "unat (htonl x) = le_val (be_bytes 4 (unat x))"
    by (simp add: htonl_def be_bytes_def unat_of_nat take_bit_nat_eq_self)
  then show ?thesis using le_bytes_le_val[of "be_bytes 4 (unat x)"] by simp
qed

lemma le_bytes_htons: "le_bytes 2 (unat (htons x)) = be_bytes 2 (unat x)"
proof -
  have "le_val (be_bytes 2 (unat x)) < 2 ^ 16"
    using le_val_less[of "be_bytes 2 (unat x)"] by simp
  then have "unat (htons x) = le_val (be_bytes 2 (unat x))"
    by (simp add: htons_def be_bytes_def unat_of_nat take_bit_nat_eq_self)
  then show ?thesis using le_bytes_le_val[of "be_bytes 2 (unat x)"] by simp
qed

lemma le_val_le_bytes_word32: "word_of_nat (le_val (le_bytes 4 (unat x))) = (x :: 32 word)"
  using unsigned_less[of x, where 'a = nat] by (simp add: le_val_le_bytes)

lemma le_val_le_bytes_word16: "word_of_nat (le_val (le_bytes 2 (unat x))) = (x :: 16 word)"
  using unsigned_less[of x, where 'a = nat] by (simp add: le_val_le_bytes)

lemma le_val_le_bytes_word8: "word_of_nat (le_val (le_bytes 1 (unat x))) = (x :: 8 word)"
  using unsigned_less[of x, where 'a = nat] by (simp add: le_val_le_bytes)

lemma htonl_be: "htonl (word_of_nat (le_val (be_bytes 4 (unat x)))) = x"
proof -
  have "le_bytes 4 (unat (htonl (htonl x))) = le_bytes 4 (unat x)"
    by (simp add: le_bytes_htonl) (simp add: be_bytes_def le_bytes_htonl)
  then have "htonl (htonl x) = x"
    using le_val_le_bytes_word32[of "htonl (htonl x)"] le_val_le_bytes_word32[of x] by simp
  then show ?thesis by (simp add: htonl_def be_bytes_def)
qed

lemma htons_be: "htons (word_of_nat (le_val (be_bytes 2 (unat x)))) = x"
proof -
  have "le_bytes 2 (unat (htons (htons x))) = le_bytes 2 (unat x)"
    by (simp add: le_bytes_htons) (simp add: be_bytes_def le_bytes_htons)
  then have "htons (htons x) = x"
    using le_val_le_bytes_word16[of "htons (htons x)"] le_val_le_bytes_word16[of x] by simp
  then show ?thesis by (simp add: htons_def be_bytes_def)
qed

lemma read_at_peek:
  "buf_inv b \<Longrightarrow> n \<le> length (contents b)
    \<Longrightarrow> read_at (peek b) n (buf_vec b) = Inr (take n (contents b))"
  using buf_invD[of b] by (auto simp: read_at_def peek_def contents_def take_slice)

lemma readInt32_ok:
  assumes "buf_inv b" and "contents b = be_bytes 4 (unat x) @ r"
  shows "\<exists>b'. readInt32 b = Inr (x, b') \<and> buf_inv b' \<and> contents b' = r"
proof -
  have len: "4 \<le> length (contents b)" using assms(2) by simp
  have "peekInt32 b = Inr x"
    using len read_at_peek[OF assms(1) len] assms
    by (simp add: peekInt32_def readableBytes_contents htonl_be del: buf_inv_readableBytes length_contents)
  then show ?thesis
    using retrieve_ok[OF assms(1) len] assms(2) by (auto simp: readInt32_def retrieveInt32_def)
qed

lemma readInt16_ok:
  assumes "buf_inv b" and "contents b = be_bytes 2 (unat x) @ r"
  shows "\<exists>b'. readInt16 b = Inr (x, b') \<and> buf_inv b' \<and> contents b' = r"
proof -
  have len: "2 \<le> length (contents b)" using assms(2) by simp
  have "peekInt16 b = Inr x"
    using len read_at_peek[OF assms(1) len] assms
    by (simp add: peekInt16_def readableBytes_contents htons_be del: buf_inv_readableBytes length_contents)
  then show ?thesis
    using retrieve_ok[OF assms(1) len] assms(2) by (auto simp: readInt16_def retrieveInt16_def)
qed

lemma readInt8_ok:
  assumes "buf_inv b" and "contents b = be_bytes 1 (unat x) @ r"
  shows "\<exists>b'. readInt_8 b = Inr (x, b') \<and> buf_inv b' \<and> contents b' = r"
proof -
  have len: "1 \<le> length (contents b)" using assms(2) by simp
  have "peekInt8 b = Inr x"
    using len read_at_peek[OF assms(1) len] assms le_val_le_bytes_word8[of x]
    by (simp add: peekInt8_def readableBytes_contents be_bytes_def del: buf_inv_readableBytes length_contents)
  then show ?thesis
    using retrieve_ok[OF assms(1) len] assms(2) by (auto simp: readInt_8_def retrieveInt8_def)
qed

section \<open>Every operation against its specification\<close>

text \<open>
  The public operations that change a buffer, as values: \<open>buf_exec\<close> runs the model of the
  operation, \<open>buf_pre\<close> is the condition its assertions check, \<open>buf_spec\<close> is its effect on
  the unread bytes and \<open>buf_need\<close> the space it may have to allocate.
\<close>

datatype bop =
    Append "char list" | Prepend "char list" | Retrieve nat | Retrieve_All
  | Ensure nat | Shrink nat
  | Append32 "32 word" | Append16 "16 word" | Append8 "8 word"
  | Prepend32 "32 word" | Prepend16 "16 word" | Prepend8 "8 word"

fun buf_exec :: "bop \<Rightarrow> buffer \<Rightarrow> buffer res" where
  "buf_exec (Append d) b = Buffer_append d b"
| "buf_exec (Prepend d) b = prepend d b"
| "buf_exec (Retrieve n) b = retrieve n b"
| "buf_exec Retrieve_All b = Inr (retrieveAll b)"
| "buf_exec (Ensure n) b = ensureWriteableBytes n b"
| "buf_exec (Shrink n) b = shrink n b"
| "buf_exec (Append32 x) b = appendInt32 x b"
| "buf_exec (Append16 x) b = appendInt16 x b"
| "buf_exec (Append8 x) b = appendInt8 x b"
| "buf_exec (Prepend32 x) b = prependInt32 x b"
| "buf_exec (Prepend16 x) b = prependInt16 x b"
| "buf_exec (Prepend8 x) b = prependInt8 x b"

fun buf_pre :: "bop \<Rightarrow> buffer \<Rightarrow> bool" where
  "buf_pre (Retrieve n) b \<longleftrightarrow> n \<le> length (contents b)"
| "buf_pre (Prepend d) b \<longleftrightarrow> length d \<le> readerIndex b"
| "buf_pre (Prepend32 x) b \<longleftrightarrow> 4 \<le> readerIndex b"
| "buf_pre (Prepend16 x) b \<longleftrightarrow> 2 \<le> readerIndex b"
| "buf_pre (Prepend8 x) b \<longleftrightarrow> 1 \<le> readerIndex b"
| "buf_pre _ b \<longleftrightarrow> True"

fun buf_need :: "bop \<Rightarrow> char list \<Rightarrow> nat" where
  "buf_need (Append d) c = length d"
| "buf_need (Ensure n) c = n"
| "buf_need (Shrink n) c = length c + n"
| "buf_need (Append32 x) c = 4"
| "buf_need (Append16 x) c = 2"
| "buf_need (Append8 x) c = 1"
| "buf_need _ c = 0"

fun buf_spec :: "bop \<Rightarrow> char list \<Rightarrow> char list" where
  "buf_spec (Append d) c = c @ d"
| "buf_spec (Prepend d) c = d @ c"
| "buf_spec (Retrieve n) c = drop n c"
| "buf_spec Retrieve_All c = []"
| "buf_spec (Append32 x) c = c @ be_bytes 4 (unat x)"
| "buf_spec (Append16 x) c = c @ be_bytes 2 (unat x)"
| "buf_spec (Append8 x) c = c @ be_bytes 1 (unat x)"
| "buf_spec (Prepend32 x) c = be_bytes 4 (unat x) @ c"
| "buf_spec (Prepend16 x) c = be_bytes 2 (unat x) @ c"
| "buf_spec (Prepend8 x) c = be_bytes 1 (unat x) @ c"
| "buf_spec _ c = c"

lemma wire_ops:
  "appendInt32 x b = Buffer_append (be_bytes 4 (unat x)) b"
  "appendInt16 y b = Buffer_append (be_bytes 2 (unat y)) b"
  "appendInt8 z b = Buffer_append (be_bytes 1 (unat z)) b"
  "prependInt32 x b = prepend (be_bytes 4 (unat x)) b"
  "prependInt16 y b = prepend (be_bytes 2 (unat y)) b"
  "prependInt8 z b = prepend (be_bytes 1 (unat z)) b"
  unfolding appendInt32_def appendInt16_def appendInt8_def prependInt32_def prependInt16_def
    prependInt8_def le_bytes_htonl le_bytes_htons Let_def
  by (simp_all add: be_bytes_def)

lemma append_then_read:
  assumes "buf_inv b" and "room (length w) (contents b)"
  shows "\<exists>b1 b2. Buffer_append w b = Inr b1 \<and> contents b1 = contents b @ w
           \<and> retrieve (length (contents b)) b1 = Inr b2 \<and> buf_inv b2 \<and> contents b2 = w"
proof -
  obtain b1 where b1: "Buffer_append w b = Inr b1" "buf_inv b1" "contents b1 = contents b @ w"
    using Buffer_append_ok[OF assms] by blast
  have "length (contents b) \<le> length (contents b1)" using b1(3) by simp
  from retrieve_ok[OF b1(2) this] b1 show ?thesis by (auto simp del: length_contents)
qed

lemma prepend_then_read:
  assumes "buf_inv b" and "length w \<le> readerIndex b"
  shows "\<exists>b1. prepend w b = Inr b1 \<and> buf_inv b1 \<and> contents b1 = w @ contents b"
  using prepend_ok[OF assms(1)] assms(2) by (auto simp: prependableBytes_def)

lemma buf_exec_ok:
  assumes "buf_inv b" and "room (buf_need op (contents b)) (contents b)" and "buf_pre op b"
  shows "\<exists>b'. buf_exec op b = Inr b' \<and> buf_inv b' \<and> contents b' = buf_spec op (contents b)"
proof (cases op)
  case (Ensure n)
  then show ?thesis using ensureWriteableBytes_ok assms by fastforce
next
  case (Shrink n)
  then show ?thesis using shrink_ok assms by fastforce
next
  case (Retrieve n)
  then show ?thesis using retrieve_ok assms by simp
next
  case Retrieve_All
  then show ?thesis using buf_inv_retrieveAll assms by (simp add: contents_retrieveAll)
qed (use assms Buffer_append_ok[OF assms(1)] prepend_then_read[OF assms(1)] in
      \<open>simp_all add: wire_ops del: One_nat_def\<close>)

lemma buf_exec_err: "buf_inv b \<Longrightarrow> \<not> buf_pre op b \<Longrightarrow> buf_exec op b = Inl Assert_Failed"
  by (cases op) (simp_all add: retrieve_too_much prepend_too_much wire_ops prependableBytes_def
      del: length_contents One_nat_def)

section \<open>Properties\<close>

text \<open>
  C8: Every operation of the buffer that changes it (appending or prepending bytes or integers,
  retrieving, making room, shrinking) succeeds exactly when the condition its assertions
  check holds. It then keeps the index invariant and changes the unread bytes as specified,
  whatever compaction or reallocation it does; otherwise the assertion fails.
\<close>

theorem buffer_operations_refine:
  assumes "buf_inv b" and "room (buf_need op (contents b)) (contents b)"
  shows "if buf_pre op b
         then \<exists>b'. buf_exec op b = Inr b' \<and> buf_inv b' \<and> contents b' = buf_spec op (contents b)
         else buf_exec op b = Inl Assert_Failed"
  using buf_exec_ok[OF assms] buf_exec_err[OF assms(1)] by simp

definition small_buffer :: buffer where
  "small_buffer = \<lparr>buf_vec = replicate 8 (CHR 0x00) @ ''hello'', readerIndex = 8, writeIndex = 13\<rparr>"

lemma small_buffer_inv: "buf_inv small_buffer" "contents small_buffer = ''hello''"
  by (simp_all add: buf_inv_def contents_def slice_def small_buffer_def kCheapprepend_def
      max_alloc_def)

theorem buffer_operations_refine_witness:
  "(\<exists>b'. buf_exec (Append ''xyz'') small_buffer = Inr b' \<and> buf_inv b' \<and> contents b' = ''helloxyz'')
   \<and> buf_exec (Retrieve 6) small_buffer = Inl Assert_Failed"
  using buffer_operations_refine[of small_buffer "Append ''xyz''"]
    buffer_operations_refine[of small_buffer "Retrieve 6"]
  by (simp add: small_buffer_inv room_def kCheapprepend_def max_alloc_def del: buf_exec.simps)

text \<open>
  C21: A buffer is a lossless queue: for every sequence of appends and reads on a new buffer,
  the reads fail exactly when they ask for more than is unread, and otherwise the bytes
  read, followed by the bytes still unread, are the bytes appended, in order.
\<close>

theorem buffer_fifo:
  assumes "2 * length (q_input ops) + kCheapprepend \<le> max_alloc"
  shows "\<exists>b. Buffer_new = Inr b \<and>
    (case q_spec ops [] of
       None \<Rightarrow> q_run Buffer_append retrieveAsString ops b = Inl Assert_Failed
     | Some (out, c) \<Rightarrow> out @ c = q_input ops \<and>
         (\<exists>b'. q_run Buffer_append retrieveAsString ops b = Inr (out, b') \<and> buf_inv b'
               \<and> contents b' = c))"
proof -
  obtain b where b: "Buffer_new = Inr b" "buf_inv b" "contents b = []"
    using Buffer_new_ok by blast
  have "room (length (q_input ops)) (contents b)" using assms b(3) by (simp add: room_def)
  from bq.run_refines[OF b(2) this] show ?thesis
    using b q_spec_conserves[of ops "[]"] by (auto split: option.splits)
qed

theorem buffer_fifo_witness:
  "\<exists>b b'. Buffer_new = Inr b
     \<and> q_run Buffer_append retrieveAsString [Put ''abc'', Get 2, Put ''d'', Get 1] b = Inr (''abc'', b')
     \<and> contents b' = ''d''"
  using buffer_fifo[of "[Put ''abc'', Get 2, Put ''d'', Get 1]"]
  by (auto simp: kCheapprepend_def max_alloc_def simp del: q_run.simps)

text \<open>
  The integer accessors use network byte order and are inverse to one another: appending a
  32-, 16- or 8-bit integer adds its big-endian bytes after the unread ones, and when those
  have been retrieved the matching read returns the same integer and empties the buffer.
\<close>

theorem wire_append_read_roundtrip:
  assumes "buf_inv b" and "room 4 (contents b)"
  shows "(\<exists>b1 b2 b3. appendInt32 x b = Inr b1 \<and> contents b1 = contents b @ be_bytes 4 (unat x)
            \<and> retrieve (length (contents b)) b1 = Inr b2
            \<and> readInt32 b2 = Inr (x, b3) \<and> contents b3 = [])
       \<and> (\<exists>b1 b2 b3. appendInt16 y b = Inr b1 \<and> contents b1 = contents b @ be_bytes 2 (unat y)
            \<and> retrieve (length (contents b)) b1 = Inr b2
            \<and> readInt16 b2 = Inr (y, b3) \<and> contents b3 = [])
       \<and> (\<exists>b1 b2 b3. appendInt8 z b = Inr b1 \<and> contents b1 = contents b @ be_bytes 1 (unat z)
            \<and> retrieve (length (contents b)) b1 = Inr b2
            \<and> readInt_8 b2 = Inr (z, b3) \<and> contents b3 = [])"
proof -
  have r: "room 4 (contents b)" "room 2 (contents b)" "room 1 (contents b)"
    using assms(2) by (simp_all add: room_def)
  note ok = append_then_read[OF assms(1), where w = "be_bytes k n" for k n, unfolded length_be_bytes]
  show ?thesis
    using ok[OF r(1), of "unat x"] readInt32_ok[where r = "[]" and x = x]
      ok[OF r(2), of "unat y"] readInt16_ok[where r = "[]" and x = y]
      ok[OF r(3), of "unat z"] readInt8_ok[where r = "[]" and x = z]
    unfolding wire_ops append_Nil2 by (intro conjI) blast+
qed

theorem wire_append_read_roundtrip_witness:
  "\<exists>b1 b2 b3. appendInt32 258 small_buffer = Inr b1
     \<and> contents b1 = ''hello'' @ [CHR 0x00, CHR 0x00, CHR 0x01, CHR 0x02]
     \<and> retrieve (length ''hello'') b1 = Inr b2 \<and> readInt32 b2 = Inr (258, b3) \<and> contents b3 = []"
proof -
  have r: "room 4 (contents small_buffer)"
    by (simp add: small_buffer_inv room_def kCheapprepend_def max_alloc_def del: length_contents)
  have "be_bytes 4 (unat (258 :: 32 word)) = [CHR 0x00, CHR 0x00, CHR 0x01, CHR 0x02]"
    by code_simp
  then show ?thesis
    using wire_append_read_roundtrip[OF small_buffer_inv(1) r, of 258 0 0]
    by (simp add: small_buffer_inv(2) del: length_contents)
qed

text \<open>
  A length header written in front of a message is read back first: as long as the reserved
  space lasts, prepending a 32-, 16- or 8-bit integer and reading it returns the integer and
  leaves the message as it was.
\<close>

theorem wire_prepend_read_roundtrip:
  assumes "buf_inv b" and "4 \<le> readerIndex b"
  shows "(\<exists>b1 b2. prependInt32 x b = Inr b1 \<and> readInt32 b1 = Inr (x, b2) \<and> contents b2 = contents b)
       \<and> (\<exists>b1 b2. prependInt16 y b = Inr b1 \<and> readInt16 b1 = Inr (y, b2) \<and> contents b2 = contents b)
       \<and> (\<exists>b1 b2. prependInt8 z b = Inr b1 \<and> readInt_8 b1 = Inr (z, b2) \<and> contents b2 = contents b)"
proof -
  have r: "4 \<le> readerIndex b" "2 \<le> readerIndex b" "1 \<le> readerIndex b"
    using assms(2) by simp_all
  note ok = prepend_then_read[OF assms(1), where w = "be_bytes k n" for k n, unfolded length_be_bytes]
  show ?thesis
    using ok[OF r(1), of "unat x"] readInt32_ok[where r = "contents b" and x = x]
      ok[OF r(2), of "unat y"] readInt16_ok[where r = "contents b" and x = y]
      ok[OF r(3), of "unat z"] readInt8_ok[where r = "contents b" and x = z]
    unfolding wire_ops by (intro conjI) blast+
qed

theorem wire_prepend_read_roundtrip_witness:
  "\<exists>b1 b2. prependInt32 7 small_buffer = Inr b1 \<and> readInt32 b1 = Inr (7, b2)
     \<and> contents b2 = ''hello''"
  using wire_prepend_read_roundtrip[OF small_buffer_inv(1), of 7 0 0]
  by (simp add: small_buffer_inv(2)) (simp add: small_buffer_def)

text \<open>
  Line framing: \<^verbatim>\<open>findCRLF\<close> answers with the first CR LF pair among the unread bytes and
  with \<^verbatim>\<open>nullptr\<close> when there is none. If the unread bytes are a line without the pair, the
  pair and a remainder, retrieving up to and including the pair leaves the remainder.
\<close>

theorem findCRLF_first:
  assumes "buf_inv b"
  shows "(findCRLF b = None \<longleftrightarrow> (\<forall>k. \<not> occurs_at KCRLF (contents b) k))
       \<and> (\<forall>p. findCRLF b = Some p \<longrightarrow>
            occurs_at KCRLF (contents b) (p - readerIndex b)
            \<and> (\<forall>k < p - readerIndex b. \<not> occurs_at KCRLF (contents b) k)
            \<and> (\<exists>b'. retrieveUntil (p + 2) b = Inr b' \<and> buf_inv b'
                    \<and> take (p - readerIndex b) (contents b) @ KCRLF @ contents b' = contents b))"
proof (intro conjI allI impI)
  show "findCRLF b = None \<longleftrightarrow> (\<forall>k. \<not> occurs_at KCRLF (contents b) k)"
    by (simp add: findCRLF_contents[OF assms] find_sub_eq_None_iff)
  fix p assume "findCRLF b = Some p"
  then obtain k where k: "p = readerIndex b + k" "find_sub KCRLF (contents b) = Some k"
    by (auto simp: findCRLF_contents[OF assms])
  then have o: "occurs_at KCRLF (contents b) k" "\<forall>j<k. \<not> occurs_at KCRLF (contents b) j"
    using find_sub_eq_Some_iff by blast+
  then show "occurs_at KCRLF (contents b) (p - readerIndex b)"
    and "\<And>j. j < p - readerIndex b \<Longrightarrow> \<not> occurs_at KCRLF (contents b) j" using k by auto
  have len: "k + 2 \<le> length (contents b)" using occurs_at_bound[OF o(1)] by (simp add: KCRLF_def)
  then have "p + 2 \<le> writeIndex b" using k(1) assms by simp
  then obtain b' where b': "retrieveUntil (p + 2) b = Inr b'" "buf_inv b'"
      "contents b' = drop (k + 2) (contents b)"
    using retrieveUntil_ok[OF assms, of "p + 2"] k(1) by auto
  have "take k (contents b) @ KCRLF @ drop (k + 2) (contents b) = contents b"
    using occurs_at_split[OF o(1)] by (simp add: KCRLF_def)
  with b' k(1) show "\<exists>b'. retrieveUntil (p + 2) b = Inr b' \<and> buf_inv b'
      \<and> take (p - readerIndex b) (contents b) @ KCRLF @ contents b' = contents b" by auto
qed

theorem findCRLF_first_witness:
  "let b = \<lparr>buf_vec = replicate 8 (CHR 0x00) @ ''OK'' @ KCRLF @ ''rest'', readerIndex = 8, writeIndex = 16\<rparr>
   in findCRLF b = Some 10 \<and> (\<exists>b'. retrieveUntil 12 b = Inr b' \<and> contents b' = ''rest'')"
proof -
  let ?b = "\<lparr>buf_vec = replicate 8 (CHR 0x00) @ ''OK'' @ KCRLF @ ''rest'', readerIndex = 8, writeIndex = 16\<rparr>"
  have i: "buf_inv ?b" by (simp add: buf_inv_def KCRLF_def kCheapprepend_def max_alloc_def)
  have c: "contents ?b = ''OK'' @ KCRLF @ ''rest''" by (simp add: contents_def slice_def KCRLF_def)
  have f: "findCRLF ?b = Some 10"
    using findCRLF_contents[OF i] unfolding c by (simp add: KCRLF_def)
  with findCRLF_first[OF i] show ?thesis unfolding c by (auto simp: KCRLF_def)
qed

section \<open>Reading from a descriptor\<close>

lemma readFd_small:
  assumes "buf_inv b" and "readv [writeableBytes b, kExtraBuff] = Inr d"
    and "length d \<le> writeableBytes b"
  shows "\<exists>b'. readFd readv b = Inr (int (length d), None, b') \<and> buf_inv b'
              \<and> contents b' = contents b @ d"
proof -
  let ?w = "writeIndex b"
  let ?m = "take ?w (buf_vec b) @ d @ drop (?w + length d) (buf_vec b)"
  have fits: "?w + length d \<le> length (buf_vec b)"
    using assms(1,3) buf_invD[OF assms(1)] by simp
  have sz: "sz_add ?w (length d) = ?w + length d"
    using fits buf_invD[OF assms(1)] by (intro sz_add_small) auto
  let ?b = "b\<lparr>buf_vec := ?m, writeIndex := ?w + length d\<rparr>"
  have "readFd readv b = Inr (int (length d), None, ?b)"
    using assms(2,3) fits sz by (simp add: readFd_def Let_def copy_at_def del: buf_inv_writeableBytes)
  moreover have "buf_inv ?b" using buf_invD[OF assms(1)] fits by (simp add: buf_inv_def)
  moreover have "contents ?b = contents b @ d"
    using buf_invD[OF assms(1)] by (simp add: contents_def slice_overwrite_end)
  ultimately show ?thesis by blast
qed

lemma readFd_spill:
  assumes "buf_inv b" and "readv [writeableBytes b, kExtraBuff] = Inr d"
    and "writeableBytes b < length d" and "length d \<le> writeableBytes b + kExtraBuff"
    and dl: "length d \<le> max_alloc"
  shows "readFd readv b = Inl Length_Error \<and> \<not> room (length d) (contents b)
     \<or> (\<exists>b'. readFd readv b = Inr (int (length d), None, b') \<and> buf_inv b'
              \<and> contents b' = contents b @ d)"
proof -
  let ?w = "writeIndex b" and ?n = "writeableBytes b"
  let ?m = "take ?w (buf_vec b) @ take ?n d"
  let ?b = "b\<lparr>buf_vec := ?m, writeIndex := length ?m\<rparr>"
  note D = buf_invD[OF assms(1)]
  have n: "?w + ?n = length (buf_vec b)" "?n = length (buf_vec b) - ?w" using assms(1) D by simp_all
  have lm: "length ?m = ?w + length (take ?n d)" "length ?m = length (buf_vec b)"
    using n assms(3) D by simp_all
  have cp: "copy_at ?w (take ?n d) (buf_vec b) = Inr ?m"
    using n assms(3) D by (simp add: copy_at_def)
  have inv: "buf_inv ?b" using D lm by (simp add: buf_inv_def)
  have c: "contents ?b = contents b @ take ?n d"
    using D(1,2) lm(1) slice_overwrite_end[of "readerIndex b" ?w "buf_vec b" "take ?n d" "[]"]
    by (simp add: contents_def)
  have sub: "sz_sub (length d) ?n = length d - ?n"
    using assms(3) dl by (intro sz_sub_small) auto
  have ex: "copy_at 0 (drop ?n d) (replicate kExtraBuff (CHR 0x00))
      = Inr (drop ?n d @ replicate (kExtraBuff - (length d - ?n)) (CHR 0x00))"
    using assms(4) by (simp add: copy_at_def)
  have rd: "read_at 0 (length d - ?n) (drop ?n d @ z) = Inr (drop ?n d)" for z
    by (simp add: read_at_def slice_def)
  have rm: "room (length d) (contents b) \<Longrightarrow> room (length (drop ?n d)) (contents ?b)"
    using assms(3) c by (simp add: room_def del: length_contents)
  have rf: "readFd readv b = bindE (Buffer_append (drop ?n d) ?b) (\<lambda>b'. Inr (int (length d), None, b'))"
    using assms(3) by (simp add: readFd_def Let_def assms(2) cp sub ex rd
        del: buf_inv_writeableBytes length_append)
  have "length (drop ?n d) \<le> max_alloc" using dl by simp
  from Buffer_append_cases[OF inv this] show ?thesis
  proof
    assume "Buffer_append (drop ?n d) ?b = Inl Length_Error \<and> \<not> room (length (drop ?n d)) (contents ?b)"
    then show ?thesis using rf rm by auto
  next
    assume "\<exists>b'. Buffer_append (drop ?n d) ?b = Inr b' \<and> buf_inv b' \<and> contents b' = contents ?b @ drop ?n d"
    then obtain b' where b': "Buffer_append (drop ?n d) ?b = Inr b'" "buf_inv b'"
        "contents b' = contents ?b @ drop ?n d" by blast
    have "contents b' = contents b @ d" using b'(3) c by (simp del: buf_inv_writeableBytes)
    then show ?thesis using rf b'(1,2) by simp
  qed
qed

lemma readFd_cases:
  assumes "buf_inv b" and "readv [writeableBytes b, kExtraBuff] = Inr d"
    and "length d \<le> writeableBytes b + kExtraBuff" and "length d \<le> max_alloc"
  shows "readFd readv b = Inl Length_Error \<and> \<not> room (length d) (contents b)
     \<or> (\<exists>b'. readFd readv b = Inr (int (length d), None, b') \<and> buf_inv b'
              \<and> contents b' = contents b @ d)"
  by (cases "length d \<le> writeableBytes b")
    (use readFd_small[of b readv d] readFd_spill[of b readv d] assms in
      \<open>simp_all del: buf_inv_writeableBytes\<close>)

text \<open>
  C25: \<^verbatim>\<open>readFd\<close> loses nothing: whatever number of bytes the kernel delivers, up to the
  writable space plus the 64 KiB stack buffer, they are appended to the unread bytes in the
  order received and their number is returned; on error the buffer is unchanged.
\<close>

theorem readFd_appends:
  assumes "buf_inv b"
    and "\<And>d. readv [writeableBytes b, kExtraBuff] = Inr d
           \<Longrightarrow> length d \<le> writeableBytes b + kExtraBuff \<and> room (length d) (contents b)"
  shows "case readv [writeableBytes b, kExtraBuff] of
           Inl err \<Rightarrow> readFd readv b = Inr (- 1, Some err, b)
         | Inr d \<Rightarrow> \<exists>b'. readFd readv b = Inr (int (length d), None, b') \<and> buf_inv b'
                         \<and> contents b' = contents b @ d"
proof (cases "readv [writeableBytes b, kExtraBuff]")
  case (Inl err)
  then show ?thesis by (simp add: readFd_def Let_def del: buf_inv_writeableBytes)
next
  case (Inr d)
  with assms(2) have "length d \<le> writeableBytes b + kExtraBuff" "room (length d) (contents b)"
    by blast+
  moreover from this have "length d \<le> max_alloc" by (simp add: room_def)
  ultimately show ?thesis
    using readFd_cases[of b readv d] assms(1) Inr by (simp del: buf_inv_writeableBytes)
qed

theorem readFd_appends_witness:
  "\<exists>b'. readFd (\<lambda>_. Inr ''world'') small_buffer = Inr (5, None, b') \<and> buf_inv b'
        \<and> contents b' = ''helloworld''"
  using readFd_appends[OF small_buffer_inv(1), of "\<lambda>_. Inr ''world''"]
  by (simp add: small_buffer_inv room_def kCheapprepend_def max_alloc_def kExtraBuff_def
      del: length_contents)

end
