(* ===== verification/Channel_Poller.thy ===== *)
theory Channel_Poller
  imports Interfaces
begin

text \<open>
  Channels and the epoll-based poller,
  \<^verbatim>\<open>plugins/Muduo/muduo/net/{Channel,EPollPoller}\<close>: the events a channel wants, its
  registration state (the \<^verbatim>\<open>index_\<close>), the poller's map from descriptors to channels, and the
  dispatch of the events that happened.

  \<^item> A \<^verbatim>\<open>Channel*\<close> is the key of the channel in the store \<open>chans\<close>.
  \<^item> \<open>interest\<close> is the kernel's interest list: what the successful \<^verbatim>\<open>epoll_ctl\<close> calls made of it.
    Whether a call succeeds is the environment's answer, a parameter; the documented rules
    for it are the predicate \<open>ctl_documented\<close>.
\<close>

unbundle bit_operations_syntax

section \<open>Channels\<close>

type_synonym fd = int
type_synonym chan_id = nat

definition POLLIN :: "32 word" where "POLLIN = 0x001"
definition POLLPRI :: "32 word" where "POLLPRI = 0x002"
definition POLLOUT :: "32 word" where "POLLOUT = 0x004"
definition POLLERR :: "32 word" where "POLLERR = 0x008"
definition POLLHUP :: "32 word" where "POLLHUP = 0x010"
definition POLLNVAL :: "32 word" where "POLLNVAL = 0x020"
definition POLLRDHUP :: "32 word" where "POLLRDHUP = 0x2000"

definition KNoneEvent :: "32 word" where
  "KNoneEvent = 0"

definition KReadEvent :: "32 word" where
  "KReadEvent = POLLIN OR POLLPRI"

definition KWriteEvent :: "32 word" where
  "KWriteEvent = POLLOUT"

text \<open>
  The callbacks are fields that may be empty; a tie is the observed object, and whether that
  object is alive is known to the environment when an event is handled.
\<close>

record channel =
  ch_fd :: fd
  ch_events :: "32 word"
  ch_revents :: "32 word"
  ch_index :: int
  logHup :: bool
  ch_tie :: "nat option"
  ch_tied :: bool
  eventHandling :: bool
  readCallback :: "nat option"
  writeCallback :: "nat option"
  closeCallback :: "nat option"
  errorCallback :: "nat option"

definition Channel_new :: "fd \<Rightarrow> channel" where
  "Channel_new fd =
     \<lparr>ch_fd = fd, ch_events = 0, ch_revents = 0, ch_index = - 1, logHup = True,
      ch_tie = None, ch_tied = False, eventHandling = False,
      readCallback = None, writeCallback = None, closeCallback = None, errorCallback = None\<rparr>"

definition Channel_delete :: "channel \<Rightarrow> unit res" where
  "Channel_delete c = assertE (\<not> eventHandling c) (Inr ())"

definition tie :: "nat \<Rightarrow> channel \<Rightarrow> channel" where
  "tie obj c = c\<lparr>ch_tie := Some obj, ch_tied := True\<rparr>"

definition set_revents :: "32 word \<Rightarrow> channel \<Rightarrow> channel" where
  "set_revents r c = c\<lparr>ch_revents := r\<rparr>"

definition isNoneEvent :: "channel \<Rightarrow> bool" where
  "isNoneEvent c \<longleftrightarrow> ch_events c = KNoneEvent"

definition isWriting :: "channel \<Rightarrow> bool" where
  "isWriting c \<longleftrightarrow> ch_events c AND KWriteEvent \<noteq> 0"

section \<open>Dispatching an event\<close>

text \<open>
  \<^verbatim>\<open>handleEventWithGuard\<close> decides from the received events which callbacks run, in this order:
  close, error, read, write. \<open>run_cb\<close> is the user code behind a callback, \<open>set_handling\<close> the
  assignment of the channel's \<^verbatim>\<open>eventHandling_\<close> in the state.
\<close>

definition event_callbacks :: "channel \<Rightarrow> nat option list" where
  "event_callbacks c =
     (let r = ch_revents c
      in (if r AND POLLHUP \<noteq> 0 \<and> r AND POLLIN = 0 then [closeCallback c] else [])
       @ (if r AND (POLLERR OR POLLNVAL) \<noteq> 0 then [errorCallback c] else [])
       @ (if r AND (POLLIN OR POLLPRI OR POLLRDHUP) \<noteq> 0 then [readCallback c] else [])
       @ (if r AND POLLOUT \<noteq> 0 then [writeCallback c] else []))"

definition call_if_set :: "(nat \<Rightarrow> 's \<Rightarrow> 's res) \<Rightarrow> nat option \<Rightarrow> 's \<Rightarrow> 's res" where
  "call_if_set run_cb cb s = (case cb of None \<Rightarrow> Inr s | Some f \<Rightarrow> run_cb f s)"

definition handleEventWithGuard ::
  "(bool \<Rightarrow> 's \<Rightarrow> 's) \<Rightarrow> (nat \<Rightarrow> 's \<Rightarrow> 's res) \<Rightarrow> channel \<Rightarrow> 's \<Rightarrow> 's res" where
  "handleEventWithGuard set_handling run_cb c s =
     bindE (foldE (call_if_set run_cb) (event_callbacks c) (set_handling True s)) (\<lambda>s.
     Inr (set_handling False s))"

definition handleEvent ::
  "(nat \<Rightarrow> 's \<Rightarrow> bool) \<Rightarrow> (bool \<Rightarrow> 's \<Rightarrow> 's) \<Rightarrow> (nat \<Rightarrow> 's \<Rightarrow> 's res) \<Rightarrow> channel \<Rightarrow> 's \<Rightarrow> 's res" where
  "handleEvent alive set_handling run_cb c s =
     (if ch_tied c
      then case ch_tie c of
             Some obj \<Rightarrow> if alive obj s then handleEventWithGuard set_handling run_cb c s else Inr s
           | None \<Rightarrow> Inr s
      else handleEventWithGuard set_handling run_cb c s)"

section \<open>The poller\<close>

definition KNew :: int where "KNew = - 1"
definition KAdded :: int where "KAdded = 1"
definition KDeleted :: int where "KDeleted = 2"

definition KInitEventListSize :: nat where
  "KInitEventListSize = 16"

datatype epoll_op = EPOLL_CTL_ADD | EPOLL_CTL_MOD | EPOLL_CTL_DEL

record poller =
  channels :: "fd \<Rightarrow> chan_id option"
  chans :: "chan_id \<Rightarrow> channel option"
  events_size :: size_t
  interest :: "fd \<Rightarrow> (32 word \<times> chan_id) option"
  ctl_calls :: nat

type_synonym ctl_env = "nat \<Rightarrow> epoll_op \<Rightarrow> fd \<Rightarrow> (fd \<Rightarrow> (32 word \<times> chan_id) option) \<Rightarrow> int"

definition EPollPoller_new :: "int \<Rightarrow> poller res" where
  "EPollPoller_new epollfd =
     (if epollfd < 0 then Inl Exit_Failure
      else Inr \<lparr>channels = Map.empty, chans = Map.empty, events_size = KInitEventListSize,
                interest = Map.empty, ctl_calls = 0\<rparr>)"

definition get_chan :: "chan_id \<Rightarrow> poller \<Rightarrow> channel res" where
  "get_chan k p = (case chans p k of None \<Rightarrow> Inl Use_After_Free | Some c \<Rightarrow> Inr c)"

definition put_chan :: "chan_id \<Rightarrow> channel \<Rightarrow> poller \<Rightarrow> poller" where
  "put_chan k c p = p\<lparr>chans := (chans p)(k \<mapsto> c)\<rparr>"

text \<open>What a successful call does to the interest list.\<close>

fun ctl_effect :: "epoll_op \<Rightarrow> fd \<Rightarrow> 32 word \<Rightarrow> chan_id \<Rightarrow> (fd \<Rightarrow> (32 word \<times> chan_id) option)
    \<Rightarrow> (fd \<Rightarrow> (32 word \<times> chan_id) option)" where
  "ctl_effect EPOLL_CTL_DEL fd ev k i = i(fd := None)"
| "ctl_effect _ fd ev k i = i(fd \<mapsto> (ev, k))"

definition poller_update :: "ctl_env \<Rightarrow> epoll_op \<Rightarrow> chan_id \<Rightarrow> poller \<Rightarrow> poller res" where
  "poller_update env operation k p =
     bindE (get_chan k p) (\<lambda>c.
     let fd = ch_fd c;
         r = env (ctl_calls p) operation fd (interest p);
         p = p\<lparr>ctl_calls := Suc (ctl_calls p)\<rparr>
     in if r < 0
        then (if operation = EPOLL_CTL_DEL then Inr p else Inl Exit_Failure)
        else Inr (p\<lparr>interest := ctl_effect operation fd (ch_events c) k (interest p)\<rparr>))"

definition updateChannel :: "ctl_env \<Rightarrow> chan_id \<Rightarrow> poller \<Rightarrow> poller res" where
  "updateChannel env k p =
     bindE (get_chan k p) (\<lambda>c.
     if ch_index c = KNew \<or> ch_index c = KDeleted
     then let fd = ch_fd c
          in bindE (if ch_index c = KNew
                    then assertE (channels p fd = None) (Inr (p\<lparr>channels := (channels p)(fd \<mapsto> k)\<rparr>))
                    else assertE (channels p fd \<noteq> None) (Inr p)) (\<lambda>p.
             poller_update env EPOLL_CTL_ADD k (put_chan k (c\<lparr>ch_index := KAdded\<rparr>) p))
     else if isNoneEvent c
     then bindE (poller_update env EPOLL_CTL_DEL k p) (\<lambda>p.
          Inr (put_chan k (c\<lparr>ch_index := KDeleted\<rparr>) p))
     else poller_update env EPOLL_CTL_MOD k p)"

definition poller_removeChannel :: "ctl_env \<Rightarrow> chan_id \<Rightarrow> poller \<Rightarrow> poller res" where
  "poller_removeChannel env k p =
     bindE (get_chan k p) (\<lambda>c.
     let p = p\<lparr>channels := (channels p)(ch_fd c := None)\<rparr>
     in bindE (if ch_index c = KAdded then poller_update env EPOLL_CTL_DEL k p else Inr p) (\<lambda>p.
        Inr (put_chan k (c\<lparr>ch_index := KNew\<rparr>) p)))"

text \<open>
  \<^verbatim>\<open>epoll_wait\<close> answers with the ready entries or an error; the vector of events doubles when
  it was filled. The result lists the active channels.
\<close>

fun fill_loop :: "(32 word \<times> chan_id) list \<Rightarrow> poller \<Rightarrow> poller res" where
  "fill_loop [] p = Inr p"
| "fill_loop ((r, k) # evs) p =
     bindE (get_chan k p) (\<lambda>c. fill_loop evs (put_chan k (set_revents r c) p))"

definition fillActiveChannel :: "(32 word \<times> chan_id) list \<Rightarrow> poller \<Rightarrow> (chan_id list \<times> poller) res" where
  "fillActiveChannel evs p =
     assertE (length evs \<le> events_size p)
       (bindE (fill_loop evs p) (\<lambda>p. Inr (map snd evs, p)))"

definition poll :: "int + (32 word \<times> chan_id) list \<Rightarrow> poller \<Rightarrow> (chan_id list \<times> poller) res" where
  "poll ready p =
     (case ready of
        Inl err \<Rightarrow> Inr ([], p)
      | Inr evs \<Rightarrow>
          if evs = [] then Inr ([], p)
          else bindE (fillActiveChannel evs p) (\<lambda>(active, p).
               Inr (active, if length evs = events_size p
                            then p\<lparr>events_size := (events_size p * 2) mod size_mod\<rparr> else p)))"

section \<open>Channel operations through the loop\<close>

definition with_chan :: "ctl_env \<Rightarrow> (channel \<Rightarrow> channel) \<Rightarrow> chan_id \<Rightarrow> poller \<Rightarrow> poller res" where
  "with_chan env f k p = bindE (get_chan k p) (\<lambda>c. updateChannel env k (put_chan k (f c) p))"

definition enableReading :: "ctl_env \<Rightarrow> chan_id \<Rightarrow> poller \<Rightarrow> poller res" where
  "enableReading env = with_chan env (\<lambda>c. c\<lparr>ch_events := ch_events c OR KReadEvent\<rparr>)"

definition enableWriting :: "ctl_env \<Rightarrow> chan_id \<Rightarrow> poller \<Rightarrow> poller res" where
  "enableWriting env = with_chan env (\<lambda>c. c\<lparr>ch_events := ch_events c OR KWriteEvent\<rparr>)"

definition disableWriting :: "ctl_env \<Rightarrow> chan_id \<Rightarrow> poller \<Rightarrow> poller res" where
  "disableWriting env = with_chan env (\<lambda>c. c\<lparr>ch_events := ch_events c AND NOT KWriteEvent\<rparr>)"

definition disableAll :: "ctl_env \<Rightarrow> chan_id \<Rightarrow> poller \<Rightarrow> poller res" where
  "disableAll env = with_chan env (\<lambda>c. c\<lparr>ch_events := KNoneEvent\<rparr>)"

definition Channel_remove :: "ctl_env \<Rightarrow> chan_id \<Rightarrow> poller \<Rightarrow> poller res" where
  "Channel_remove env k p =
     bindE (get_chan k p) (\<lambda>c. assertE (isNoneEvent c) (poller_removeChannel env k p))"

section \<open>The machine of channel operations\<close>

text \<open>
  A channel exists for an open descriptor, so no two channels share one, and it is destroyed
  only when it is not registered; a violation of these rules is the outcome \<open>Undefined\<close>.
\<close>

datatype chan_op = Op_New chan_id fd | Op_EnableReading chan_id | Op_EnableWriting chan_id
  | Op_DisableWriting chan_id | Op_DisableAll chan_id | Op_Remove chan_id | Op_Delete chan_id

fun chan_exec :: "ctl_env \<Rightarrow> chan_op \<Rightarrow> poller \<Rightarrow> poller res" where
  "chan_exec env (Op_New k fd) p =
     (if chans p k \<noteq> None \<or> fd \<in> ch_fd ` ran (chans p) then Inl Undefined
      else Inr (put_chan k (Channel_new fd) p))"
| "chan_exec env (Op_EnableReading k) p = enableReading env k p"
| "chan_exec env (Op_EnableWriting k) p = enableWriting env k p"
| "chan_exec env (Op_DisableWriting k) p = disableWriting env k p"
| "chan_exec env (Op_DisableAll k) p = disableAll env k p"
| "chan_exec env (Op_Remove k) p = Channel_remove env k p"
| "chan_exec env (Op_Delete k) p =
     bindE (get_chan k p) (\<lambda>c.
     bindE (Channel_delete c) (\<lambda>_.
     if ch_index c = KNew then Inr (p\<lparr>chans := (chans p)(k := None)\<rparr>) else Inl Undefined))"

definition ctl_documented :: "ctl_env \<Rightarrow> bool" where
  "ctl_documented env \<longleftrightarrow> (\<forall>n fd i.
     (0 \<le> env n EPOLL_CTL_ADD fd i \<longleftrightarrow> i fd = None)
     \<and> (0 \<le> env n EPOLL_CTL_MOD fd i \<longleftrightarrow> i fd \<noteq> None)
     \<and> (0 \<le> env n EPOLL_CTL_DEL fd i \<longleftrightarrow> i fd \<noteq> None))"

section \<open>Invariant\<close>

definition chan_inv :: "channel \<Rightarrow> bool" where
  "chan_inv c \<longleftrightarrow> ch_index c \<in> {KNew, KAdded, KDeleted} \<and> (ch_events c \<noteq> 0 \<longrightarrow> ch_index c = KAdded)"

definition poller_inv :: "poller \<Rightarrow> bool" where
  "poller_inv p \<longleftrightarrow>
     (\<forall>k c. chans p k = Some c \<longrightarrow> chan_inv c)
     \<and> (\<forall>k l c d. chans p k = Some c \<longrightarrow> chans p l = Some d \<longrightarrow> ch_fd c = ch_fd d \<longrightarrow> k = l)
     \<and> (\<forall>fd k. channels p fd = Some k \<longleftrightarrow> (\<exists>c. chans p k = Some c \<and> ch_fd c = fd \<and> ch_index c \<noteq> KNew))
     \<and> (\<forall>fd ev k. interest p fd = Some (ev, k) \<longleftrightarrow>
          (\<exists>c. chans p k = Some c \<and> ch_fd c = fd \<and> ch_index c = KAdded \<and> ch_events c = ev))"

lemma poller_invD:
  assumes "poller_inv p"
  shows "chans p k = Some c \<Longrightarrow> chan_inv c"
    and "chans p k = Some c \<Longrightarrow> chans p l = Some d \<Longrightarrow> ch_fd c = ch_fd d \<Longrightarrow> k = l"
    and "channels p fd = Some k \<longleftrightarrow> (\<exists>c. chans p k = Some c \<and> ch_fd c = fd \<and> ch_index c \<noteq> KNew)"
    and "interest p fd = Some (ev, k) \<longleftrightarrow>
          (\<exists>c. chans p k = Some c \<and> ch_fd c = fd \<and> ch_index c = KAdded \<and> ch_events c = ev)"
  using assms unfolding poller_inv_def by blast+

text \<open>Registration state, poller map and interest list of one channel, as a function of its index.\<close>

lemma poller_inv_channel:
  assumes "poller_inv p" and "chans p k = Some c"
  shows "channels p (ch_fd c) = (if ch_index c = KNew then None else Some k)"
    and "interest p (ch_fd c) = (if ch_index c = KAdded then Some (ch_events c, k) else None)"
proof -
  have u: "d = c \<and> l = k" if "chans p l = Some d" "ch_fd d = ch_fd c" for l d
    using poller_invD(2)[OF assms(1) that(1) assms(2) that(2)] that(1) assms(2) by simp
  show "channels p (ch_fd c) = (if ch_index c = KNew then None else Some k)"
  proof (cases "channels p (ch_fd c)")
    case None
    then have "ch_index c = KNew" using poller_invD(3)[OF assms(1), of "ch_fd c" k] assms(2) by auto
    then show ?thesis using None by simp
  next
    case (Some l)
    then show ?thesis using poller_invD(3)[OF assms(1), of "ch_fd c" l] u by auto
  qed
  show "interest p (ch_fd c) = (if ch_index c = KAdded then Some (ch_events c, k) else None)"
  proof (cases "interest p (ch_fd c)")
    case None
    then have "ch_index c \<noteq> KAdded"
      using poller_invD(4)[OF assms(1), of "ch_fd c" "ch_events c" k] assms(2) by auto
    then show ?thesis using None by simp
  next
    case (Some x)
    obtain ev l where x: "x = (ev, l)" by (cases x)
    then show ?thesis using Some poller_invD(4)[OF assms(1), of "ch_fd c" ev l] u by auto
  qed
qed

lemma poller_inv_put:
  assumes "poller_inv p" and "chans p k = Some c" and "ch_fd c' = ch_fd c" and "chan_inv c'"
    and "chans p' = (chans p)(k \<mapsto> c')"
    and "channels p' = (channels p)(ch_fd c := if ch_index c' = KNew then None else Some k)"
    and "interest p' = (interest p)(ch_fd c := if ch_index c' = KAdded then Some (ch_events c', k) else None)"
  shows "poller_inv p'"
proof -
  have ne: "ch_fd d \<noteq> ch_fd c" if "chans p l = Some d" "l \<noteq> k" for l d
    using poller_invD(2)[OF assms(1) that(1) assms(2)] that(2) by auto
  have 1: "\<forall>l d. chans p' l = Some d \<longrightarrow> chan_inv d"
    using poller_invD(1)[OF assms(1)] assms(4,5) by auto
  have 2: "\<forall>l m d e. chans p' l = Some d \<longrightarrow> chans p' m = Some e \<longrightarrow> ch_fd d = ch_fd e \<longrightarrow> l = m"
    using poller_invD(2)[OF assms(1)] ne assms(3,5) by (auto split: if_splits) metis+
  have 3: "channels p' fd = Some l \<longleftrightarrow> (\<exists>d. chans p' l = Some d \<and> ch_fd d = fd \<and> ch_index d \<noteq> KNew)" for fd l
  proof (cases "fd = ch_fd c")
    case True
    then show ?thesis using ne[of l] assms(3,5,6) by (cases "l = k") auto
  next
    case False
    then show ?thesis
      using poller_invD(3)[OF assms(1), of fd l] assms(2,3,5,6) by (cases "l = k") auto
  qed
  have 4: "interest p' fd = Some (ev, l) \<longleftrightarrow>
      (\<exists>d. chans p' l = Some d \<and> ch_fd d = fd \<and> ch_index d = KAdded \<and> ch_events d = ev)" for fd ev l
  proof (cases "fd = ch_fd c")
    case True
    then show ?thesis using ne[of l] assms(3,5,7) by (cases "l = k") auto
  next
    case False
    then show ?thesis
      using poller_invD(4)[OF assms(1), of fd ev l] assms(2,3,5,7) by (cases "l = k") auto
  qed
  show ?thesis unfolding poller_inv_def using 1 2 3 4 by blast
qed

lemma index_distinct [simp]: "KNew \<noteq> KAdded" "KAdded \<noteq> KNew" "KDeleted \<noteq> KAdded" "KAdded \<noteq> KDeleted"
  "KNew \<noteq> KDeleted" "KDeleted \<noteq> KNew"
  by (simp_all add: KNew_def KAdded_def KDeleted_def)

lemma get_chan_Some [simp]: "chans p k = Some c \<Longrightarrow> get_chan k p = Inr c"
  by (simp add: get_chan_def)

lemma ctl_succeeds:
  assumes "ctl_documented env"
  shows "i fd = None \<Longrightarrow> \<not> env n EPOLL_CTL_ADD fd i < 0"
    and "i fd = Some x \<Longrightarrow> \<not> env n EPOLL_CTL_MOD fd i < 0"
    and "i fd = Some x \<Longrightarrow> \<not> env n EPOLL_CTL_DEL fd i < 0"
  using assms[unfolded ctl_documented_def, THEN spec, THEN spec, THEN spec, of n fd i]
  by (simp_all add: not_less)

lemma with_chan_ok:
  assumes env: "ctl_documented env" and inv: "poller_inv p" and k: "chans p k = Some c"
  shows "\<exists>p'. with_chan env (\<lambda>c. c\<lparr>ch_events := g (ch_events c)\<rparr>) k p = Inr p' \<and> poller_inv p'
           \<and> (\<forall>l. l \<noteq> k \<longrightarrow> chans p' l = chans p l)
           \<and> (\<exists>i. chans p' k = Some (c\<lparr>ch_events := g (ch_events c), ch_index := i\<rparr>)
                \<and> (ch_index c = KAdded \<longrightarrow> g (ch_events c) = 0 \<longrightarrow> i = KDeleted))"
proof -
  let ?e = "g (ch_events c)" and ?fd = "ch_fd c"
  note C = poller_inv_channel[OF inv k]
  have ci: "chan_inv c" using poller_invD(1)[OF inv k] .
  then consider (new) "ch_index c = KNew" | (add) "ch_index c = KAdded" | (del) "ch_index c = KDeleted"
    by (auto simp: chan_inv_def)
  then show ?thesis
  proof cases
    case new
    let ?c = "c\<lparr>ch_events := ?e, ch_index := KAdded\<rparr>"
    let ?p = "p\<lparr>chans := (chans p)(k \<mapsto> ?c), channels := (channels p)(?fd \<mapsto> k),
                interest := (interest p)(?fd \<mapsto> (?e, k)), ctl_calls := Suc (ctl_calls p)\<rparr>"
    have r: "with_chan env (\<lambda>c. c\<lparr>ch_events := g (ch_events c)\<rparr>) k p = Inr ?p"
      using new C k
      by (simp add: with_chan_def updateChannel_def put_chan_def poller_update_def ctl_succeeds[OF env] Let_def)
    have "poller_inv ?p"
      by (rule poller_inv_put[OF inv k, of ?c]) (use ci in \<open>auto simp: chan_inv_def\<close>)
    then show ?thesis using r new by (auto intro!: exI[of _ KAdded])
  next
    case del
    let ?c = "c\<lparr>ch_events := ?e, ch_index := KAdded\<rparr>"
    let ?p = "p\<lparr>chans := (chans p)(k \<mapsto> ?c),
                interest := (interest p)(?fd \<mapsto> (?e, k)), ctl_calls := Suc (ctl_calls p)\<rparr>"
    have r: "with_chan env (\<lambda>c. c\<lparr>ch_events := g (ch_events c)\<rparr>) k p = Inr ?p"
      using del C k
      by (simp add: with_chan_def updateChannel_def put_chan_def poller_update_def ctl_succeeds[OF env] Let_def)
    have "poller_inv ?p"
      by (rule poller_inv_put[OF inv k, of ?c]) (use ci del C in \<open>auto simp: chan_inv_def fun_upd_idem\<close>)
    then show ?thesis using r del by (auto intro!: exI[of _ KAdded])
  next
    case add
    show ?thesis
    proof (cases "?e = 0")
      case True
      let ?c = "c\<lparr>ch_events := ?e, ch_index := KDeleted\<rparr>"
      let ?p = "p\<lparr>chans := (chans p)(k \<mapsto> ?c), interest := (interest p)(?fd := None),
                  ctl_calls := Suc (ctl_calls p)\<rparr>"
      have r: "with_chan env (\<lambda>c. c\<lparr>ch_events := g (ch_events c)\<rparr>) k p = Inr ?p"
        using add C k True
        by (simp add: with_chan_def updateChannel_def put_chan_def poller_update_def ctl_succeeds[OF env]
            isNoneEvent_def KNoneEvent_def Let_def)
      have "poller_inv ?p"
        by (rule poller_inv_put[OF inv k, of ?c]) (use ci add C True in \<open>auto simp: chan_inv_def fun_upd_idem\<close>)
      then show ?thesis using r by (auto intro!: exI[of _ KDeleted])
    next
      case False
      let ?c = "c\<lparr>ch_events := ?e\<rparr>"
      let ?p = "p\<lparr>chans := (chans p)(k \<mapsto> ?c), interest := (interest p)(?fd \<mapsto> (?e, k)),
                  ctl_calls := Suc (ctl_calls p)\<rparr>"
      have r: "with_chan env (\<lambda>c. c\<lparr>ch_events := g (ch_events c)\<rparr>) k p = Inr ?p"
        using add C k False
        by (simp add: with_chan_def updateChannel_def put_chan_def poller_update_def ctl_succeeds[OF env]
            isNoneEvent_def KNoneEvent_def Let_def)
      have "poller_inv ?p"
        by (rule poller_inv_put[OF inv k, of ?c]) (use ci add C False in \<open>auto simp: chan_inv_def fun_upd_idem\<close>)
      then show ?thesis using r add False by (auto intro!: exI[of _ KAdded])
    qed
  qed
qed

lemma Channel_remove_ok:
  assumes env: "ctl_documented env" and inv: "poller_inv p" and k: "chans p k = Some c"
  shows "if ch_events c = 0
         then \<exists>p'. Channel_remove env k p = Inr p' \<and> poller_inv p'
                   \<and> chans p' = (chans p)(k \<mapsto> c\<lparr>ch_index := KNew\<rparr>)
         else Channel_remove env k p = Inl Assert_Failed"
proof (cases "ch_events c = 0")
  case False
  then show ?thesis using k by (simp add: Channel_remove_def isNoneEvent_def KNoneEvent_def)
next
  case True
  let ?fd = "ch_fd c" and ?c = "c\<lparr>ch_index := KNew\<rparr>"
  note C = poller_inv_channel[OF inv k]
  have ci: "chan_inv c" using poller_invD(1)[OF inv k] .
  let ?p = "p\<lparr>chans := (chans p)(k \<mapsto> ?c), channels := (channels p)(?fd := None),
              interest := (interest p)(?fd := None),
              ctl_calls := (if ch_index c = KAdded then Suc (ctl_calls p) else ctl_calls p)\<rparr>"
  have "Channel_remove env k p = Inr ?p"
    using True C k
    by (auto simp: Channel_remove_def isNoneEvent_def KNoneEvent_def poller_removeChannel_def put_chan_def
        poller_update_def ctl_succeeds[OF env] Let_def fun_upd_idem)
  moreover have "poller_inv ?p"
    by (rule poller_inv_put[OF inv k, of ?c]) (use ci True in \<open>auto simp: chan_inv_def\<close>)
  ultimately show ?thesis using True by auto
qed

lemma poller_inv_add:
  assumes inv: "poller_inv p" and "chans p k = None" and "fd \<notin> ch_fd ` ran (chans p)"
  shows "poller_inv (put_chan k (Channel_new fd) p)"
proof -
  have ne: "ch_fd d \<noteq> fd" if "chans p l = Some d" for l d
    using assms(3) that by (auto simp: ran_def)
  have n: "ch_index (Channel_new fd) = KNew" "ch_fd (Channel_new fd) = fd" "chan_inv (Channel_new fd)"
    by (simp_all add: Channel_new_def KNew_def chan_inv_def)
  let ?cs = "(chans p)(k \<mapsto> Channel_new fd)"
  have 1: "\<forall>l d. ?cs l = Some d \<longrightarrow> chan_inv d" using poller_invD(1)[OF inv] n by auto
  have 2: "\<forall>l m d e. ?cs l = Some d \<longrightarrow> ?cs m = Some e \<longrightarrow> ch_fd d = ch_fd e \<longrightarrow> l = m"
  proof (intro allI impI)
    fix l m d e assume a: "?cs l = Some d" "?cs m = Some e" "ch_fd d = ch_fd e"
    show "l = m"
      using a ne[of l d] ne[of m e] n(2) poller_invD(2)[OF inv, of l d m e] by (auto split: if_splits)
  qed
  have 3: "channels p g = Some l \<longleftrightarrow> (\<exists>d. ?cs l = Some d \<and> ch_fd d = g \<and> ch_index d \<noteq> KNew)" for g l
    using poller_invD(3)[OF inv, of g l] n assms(2) by auto
  have 4: "interest p g = Some (ev, l) \<longleftrightarrow>
      (\<exists>d. ?cs l = Some d \<and> ch_fd d = g \<and> ch_index d = KAdded \<and> ch_events d = ev)" for g ev l
    using poller_invD(4)[OF inv, of g ev l] n assms(2) by auto
  have e: "chans (put_chan k (Channel_new fd) p) = ?cs" "channels (put_chan k (Channel_new fd) p) = channels p"
    "interest (put_chan k (Channel_new fd) p) = interest p" by (simp_all add: put_chan_def)
  show ?thesis unfolding poller_inv_def e using 1 2 3 4 by blast
qed

lemma poller_inv_drop:
  assumes inv: "poller_inv p" and k: "chans p k = Some c" and "ch_index c = KNew"
  shows "poller_inv (p\<lparr>chans := (chans p)(k := None)\<rparr>)"
proof -
  have 3: "channels p fd = Some l \<longleftrightarrow> (\<exists>d. ((chans p)(k := None)) l = Some d \<and> ch_fd d = fd \<and> ch_index d \<noteq> KNew)" for fd l
    using poller_invD(3)[OF inv, of fd l] k assms(3) by auto
  have 4: "interest p fd = Some (ev, l) \<longleftrightarrow>
      (\<exists>d. ((chans p)(k := None)) l = Some d \<and> ch_fd d = fd \<and> ch_index d = KAdded \<and> ch_events d = ev)" for fd ev l
    using poller_invD(4)[OF inv, of fd ev l] k assms(3) by auto
  have "\<forall>l m d e. ((chans p)(k := None)) l = Some d \<longrightarrow> ((chans p)(k := None)) m = Some e
      \<longrightarrow> ch_fd d = ch_fd e \<longrightarrow> l = m"
    using poller_invD(2)[OF inv] by auto
  moreover have "\<forall>l d. ((chans p)(k := None)) l = Some d \<longrightarrow> chan_inv d"
    using poller_invD(1)[OF inv] by auto
  moreover have e: "chans (p\<lparr>chans := (chans p)(k := None)\<rparr>) = (chans p)(k := None)"
    "channels (p\<lparr>chans := (chans p)(k := None)\<rparr>) = channels p"
    "interest (p\<lparr>chans := (chans p)(k := None)\<rparr>) = interest p" by simp_all
  ultimately show ?thesis unfolding poller_inv_def e using 3 4 by blast
qed

definition chan_fail :: "failure set" where
  "chan_fail = {Assert_Failed, Use_After_Free, Undefined}"

lemma chan_exec_cases:
  assumes env: "ctl_documented env" and inv: "poller_inv p"
  shows "case chan_exec env op p of Inl f \<Rightarrow> f \<in> chan_fail | Inr p' \<Rightarrow> poller_inv p'"
proof -
  have wc: "case with_chan env (\<lambda>c. c\<lparr>ch_events := g (ch_events c)\<rparr>) k p of
      Inl f \<Rightarrow> f \<in> chan_fail | Inr p' \<Rightarrow> poller_inv p'" for g k
  proof (cases "chans p k")
    case None
    then show ?thesis by (simp add: with_chan_def get_chan_def chan_fail_def)
  next
    case (Some c)
    then show ?thesis using with_chan_ok[OF env inv Some, of g] by auto
  qed
  show ?thesis
  proof (cases op)
    case (Op_New k fd)
    then show ?thesis using poller_inv_add[OF inv] by (auto simp: chan_fail_def)
  next
    case (Op_Remove k)
    then show ?thesis
    proof (cases "chans p k")
      case None
      then show ?thesis using Op_Remove by (simp add: Channel_remove_def get_chan_def chan_fail_def)
    next
      case (Some c)
      then show ?thesis
        using Op_Remove Channel_remove_ok[OF env inv Some] by (auto simp: chan_fail_def split: if_splits)
    qed
  next
    case (Op_Delete k)
    then show ?thesis
    proof (cases "chans p k")
      case None
      then show ?thesis using Op_Delete by (simp add: get_chan_def chan_fail_def)
    next
      case (Some c)
      then show ?thesis
        using Op_Delete poller_inv_drop[OF inv Some] poller_invD(1)[OF inv Some]
        by (cases "eventHandling c") (auto simp: chan_fail_def Channel_delete_def chan_inv_def)
    qed
  qed (use wc[of "\<lambda>e. e OR KReadEvent"] wc[of "\<lambda>e. e OR KWriteEvent"] wc[of "\<lambda>e. e AND NOT KWriteEvent"]
        wc[of "\<lambda>_. KNoneEvent"] in
      \<open>simp_all add: enableReading_def enableWriting_def disableWriting_def disableAll_def\<close>)
qed

interpretation chan_machine: event_machine "\<lambda>p. ctl_documented env \<and> poller_inv p" "\<lambda>_. True" chan_fail "chan_exec env" for env
proof
  fix p op p' f assume i: "ctl_documented env \<and> poller_inv p"
  show "chan_exec env op p = Inr p' \<Longrightarrow> ctl_documented env \<and> poller_inv p'"
    and "chan_exec env op p = Inl f \<Longrightarrow> f \<in> chan_fail"
    using chan_exec_cases[of env p op] i by auto
qed

lemma poller_inv_new: "EPollPoller_new fd = Inr p \<Longrightarrow> poller_inv p"
  by (auto simp: EPollPoller_new_def poller_inv_def split: if_splits)

section \<open>Properties\<close>

text \<open>
  C11: The kernel always watches what the channels ask for. If \<^verbatim>\<open>epoll_ctl\<close> answers as
  documented, then after any sequence of operations on channels the interest list is exactly
  the registered channels with their current events, every channel that wants events is
  among them, and the poller never gives up with \<^verbatim>\<open>exit\<close>.
\<close>

theorem poller_in_sync:
  assumes "ctl_documented env" and "EPollPoller_new epollfd = Inr p0"
  shows "case foldE (chan_exec env) ops p0 of
     Inl f \<Rightarrow> f \<noteq> Exit_Failure
   | Inr p \<Rightarrow>
       (\<forall>fd ev k. interest p fd = Some (ev, k) \<longleftrightarrow>
          (\<exists>c. chans p k = Some c \<and> ch_fd c = fd \<and> ch_index c = KAdded \<and> ch_events c = ev))
       \<and> (\<forall>k c. chans p k = Some c \<longrightarrow> \<not> isNoneEvent c \<longrightarrow> interest p (ch_fd c) = Some (ch_events c, k))
       \<and> (\<forall>fd k. channels p fd = Some k \<longrightarrow> chans p k \<noteq> None)"
proof -
  have run: "case foldE (chan_exec env) ops p0 of
      Inr s' \<Rightarrow> ctl_documented env \<and> poller_inv s' | Inl f \<Rightarrow> f \<in> chan_fail"
    by (rule chan_machine.run_safe) (use assms poller_inv_new in auto)
  show ?thesis
  proof (cases "foldE (chan_exec env) ops p0")
    case (Inl f)
    then show ?thesis using run by (auto simp: chan_fail_def)
  next
    case (Inr p)
    then have i: "poller_inv p" using run by simp
    have "interest p (ch_fd c) = Some (ch_events c, k)" if "chans p k = Some c" "\<not> isNoneEvent c" for k c
      using poller_inv_channel(2)[OF i that(1)] poller_invD(1)[OF i that(1)] that(2)
      by (simp add: chan_inv_def isNoneEvent_def KNoneEvent_def)
    moreover have "chans p k \<noteq> None" if "channels p fd = Some k" for fd k
      using poller_invD(3)[OF i, of fd k] that by auto
    moreover have "\<forall>fd ev k. interest p fd = Some (ev, k) \<longleftrightarrow>
          (\<exists>c. chans p k = Some c \<and> ch_fd c = fd \<and> ch_index c = KAdded \<and> ch_events c = ev)"
      using poller_invD(4)[OF i] by blast
    ultimately show ?thesis using Inr by auto
  qed
qed

text \<open>A system that answers as documented, for the witnesses.\<close>

definition demo_ctl :: ctl_env where
  "demo_ctl n op fd i = (if (op = EPOLL_CTL_ADD) = (i fd = None) then 0 else - 1)"

lemma demo_ctl_documented: "ctl_documented demo_ctl"
  by (simp add: ctl_documented_def demo_ctl_def)

definition empty_poller :: poller where
  "empty_poller = \<lparr>channels = Map.empty, chans = Map.empty, events_size = 16, interest = Map.empty, ctl_calls = 0\<rparr>"

lemma empty_poller_new: "EPollPoller_new 3 = Inr empty_poller"
  by (simp add: EPollPoller_new_def empty_poller_def KInitEventListSize_def)

theorem poller_in_sync_witness:
  "\<exists>p c. foldE (chan_exec demo_ctl) [Op_New 1 5, Op_EnableReading 1, Op_EnableWriting 1] empty_poller = Inr p
     \<and> chans p 1 = Some c \<and> interest p 5 = Some (POLLIN OR POLLPRI OR POLLOUT, 1)"
proof -
  let ?ops = "[Op_New 1 5, Op_EnableReading 1, Op_EnableWriting 1]"
  obtain p where p: "foldE (chan_exec demo_ctl) ?ops empty_poller = Inr p"
    "\<exists>c. chans p 1 = Some c \<and> ch_fd c = 5 \<and> ch_events c = POLLIN OR POLLPRI OR POLLOUT"
    by (simp add: empty_poller_def enableReading_def enableWriting_def with_chan_def updateChannel_def
        put_chan_def poller_update_def demo_ctl_def Channel_new_def KNew_def KAdded_def KDeleted_def
        isNoneEvent_def KNoneEvent_def KReadEvent_def KWriteEvent_def POLLIN_def POLLPRI_def POLLOUT_def Let_def)
  obtain c where c: "chans p 1 = Some c" "ch_fd c = 5" "ch_events c = POLLIN OR POLLPRI OR POLLOUT"
    using p(2) by auto
  have "\<not> isNoneEvent c"
    using c(3) by (simp add: isNoneEvent_def KNoneEvent_def POLLIN_def POLLPRI_def POLLOUT_def)
  then have "interest p 5 = Some (POLLIN OR POLLPRI OR POLLOUT, 1)"
    using poller_in_sync[OF demo_ctl_documented empty_poller_new, of ?ops] p(1) c by fastforce
  then show ?thesis using p(1) c(1) by blast
qed

text \<open>
  Waiting is safe: if \<^verbatim>\<open>epoll_wait\<close> returns at most as many entries as it was given room
  for, each from the interest list, then the poller touches live channels only and reports
  exactly those channels. The room doubles when it was exhausted, so it never shrinks.
\<close>

theorem poll_safe:
  assumes "poller_inv p" and "length evs \<le> events_size p" and "0 < events_size p"
    and "2 * events_size p < size_mod"
    and "\<forall>(r, k) \<in> set evs. \<exists>fd ev. interest p fd = Some (ev, k)"
  shows "\<exists>p'. poll (Inr evs) p = Inr (map snd evs, p') \<and> poller_inv p' \<and> interest p' = interest p
     \<and> events_size p' = (if length evs = events_size p then 2 * events_size p else events_size p)"
proof -
  have fill: "\<exists>p'. fill_loop evs p = Inr p' \<and> poller_inv p' \<and> interest p' = interest p \<and> events_size p' = events_size p"
    if "poller_inv p" "\<forall>(r, k) \<in> set evs. \<exists>fd ev. interest p fd = Some (ev, k)" for evs and p :: poller
    using that
  proof (induction evs arbitrary: p)
    case (Cons e evs)
    obtain r k where e: "e = (r, k)" by (cases e)
    then obtain fd ev where "interest p fd = Some (ev, k)" using Cons.prems(2) by auto
    then obtain c where c: "chans p k = Some c" using poller_invD(4)[OF Cons.prems(1), of fd ev k] by auto
    let ?p = "put_chan k (set_revents r c) p"
    have ci: "chan_inv c" using poller_invD(1)[OF Cons.prems(1) c] .
    have i: "poller_inv ?p"
      by (rule poller_inv_put[OF Cons.prems(1) c, of "set_revents r c"])
        (use ci poller_inv_channel[OF Cons.prems(1) c] in
          \<open>simp_all add: set_revents_def put_chan_def chan_inv_def fun_upd_idem\<close>)
    have s: "interest ?p = interest p" "events_size ?p = events_size p" by (simp_all add: put_chan_def)
    have "\<forall>(r, k) \<in> set evs. \<exists>fd ev. interest ?p fd = Some (ev, k)" using Cons.prems(2) s(1) by auto
    from Cons.IH[OF i this] s show ?case using e c by auto
  qed auto
  obtain p' where p': "fill_loop evs p = Inr p'" "poller_inv p'" "interest p' = interest p" "events_size p' = events_size p"
    using fill[OF assms(1,5)] by blast
  show ?thesis
  proof (cases "length evs = events_size p")
    case True
    let ?q = "p'\<lparr>events_size := 2 * events_size p\<rparr>"
    have "poller_inv ?q" using p'(2) by (simp add: poller_inv_def)
    moreover have "poll (Inr evs) p = Inr (map snd evs, ?q)"
      using True assms p' by (auto simp: poll_def fillActiveChannel_def mult.commute)
    ultimately show ?thesis using True p'(3) by auto
  next
    case False
    show ?thesis
    proof (cases "evs = []")
      case True
      then show ?thesis using assms(1,3) by (simp add: poll_def)
    next
      case ne: False
      then have "poll (Inr evs) p = Inr (map snd evs, p')"
        using False assms p' by (simp add: poll_def fillActiveChannel_def)
      then show ?thesis using False p' by auto
    qed
  qed
qed

theorem poll_safe_witness:
  "\<exists>p p'. foldE (chan_exec demo_ctl) [Op_New 1 5, Op_EnableReading 1] empty_poller = Inr p
     \<and> poll (Inr [(POLLIN, 1)]) p = Inr ([1], p') \<and> events_size p' = 16"
proof -
  let ?ops = "[Op_New 1 5, Op_EnableReading 1]"
  obtain p where p: "foldE (chan_exec demo_ctl) ?ops empty_poller = Inr p"
    "interest p 5 = Some (KReadEvent, 1)" "events_size p = 16"
    by (simp add: empty_poller_def enableReading_def with_chan_def updateChannel_def
        put_chan_def poller_update_def demo_ctl_def Channel_new_def KNew_def KAdded_def Let_def)
  have "poller_inv p"
    using chan_machine.run_safe[of demo_ctl empty_poller ?ops] p(1) demo_ctl_documented
      poller_inv_new[OF empty_poller_new] by simp
  from poll_safe[OF this, of "[(POLLIN, 1)]"] p show ?thesis by (auto simp: size_mod_def)
qed

end
