(* ===== verification/Tcp_Connection.thy ===== *)
theory Tcp_Connection
  imports Net_Buffer Channel_Poller
begin

text \<open>
  One TCP connection, \<^verbatim>\<open>plugins/Muduo/muduo/net/TcpConnection.{h,cpp}\<close>: its state machine,
  the two buffers, the interest in writability, and the callbacks into user code.

  \<^item> \<open>tcp_world\<close> extends the object by what it acts on: the poller of its loop, the functors
    queued to that loop (run in order, each once, as the theory of the event loop shows),
    the bytes the kernel has taken from it, and logs that no operation reads.
  \<^item> The system calls, the logger's effect on \<^verbatim>\<open>errno\<close> and the user's callbacks are the fields
    of an environment \<open>tcp_env\<close>. A callback answers with the calls it makes on the
    connection, a function of what it can see.
  \<^item> Functions that begin with \<^verbatim>\<open>assertInLoopThread\<close> are reached on the loop thread only: by
    dispatch, as functors, or behind the \<^verbatim>\<open>isInLoopThread\<close> test of the public operations.
\<close>

section \<open>State\<close>

datatype StateE = KDisconnected | KConnecting | KConnected | KDisconnecting

datatype tc_functor = F_sendInLoop "char list" | F_shutdownInLoop | F_forceCloseInLoop
  | F_writeComplete bool | F_highWaterMark size_t | F_connectDestroyed

datatype tc_callback = Cb_Connection bool | Cb_Message | Cb_WriteComplete
  | Cb_HighWaterMark size_t | Cb_Close

text \<open>
  A functor made with \<^verbatim>\<open>std::bind(writeCompleteCallback_, ...)\<close> holds a copy of the callback (\<open>True\<close>);
  the one queued by \<^verbatim>\<open>handleWrite\<close> reads the member when it runs (\<open>False\<close>).
  The calls a callback can make: the three overloads of \<^verbatim>\<open>send\<close>, \<^verbatim>\<open>shutdown\<close>, \<^verbatim>\<open>forceClose\<close>,
  taking at most \<open>n\<close> bytes from the input buffer, and, for the owner of the connection,
  queueing \<^verbatim>\<open>connnectDestroyed\<close>.
\<close>

datatype tc_api = Send "char list" | SendString "char list" | SendBuffer buffer
  | Shutdown | ForceClose | Consume nat | QueueDestroyed

record tcp_connection =
  tc_name :: string
  tc_state :: StateE
  tc_chan :: chan_id
  connectionCallback :: bool
  messageCallback :: bool
  writeCompleteCallback :: bool
  highWaterMarkCallback :: bool
  tc_closeCallback :: bool
  highWaterMark :: size_t
  inputBuffer :: buffer
  outputBuffer :: buffer

record tcp_world = tcp_connection +
  w_poller :: poller
  w_pending :: "tc_functor list"
  wire :: "char list"
  sock_shut :: bool
  w_errno :: int
  w_calls :: nat
  cb_log :: "tc_callback list"
  accepted :: "char list list"

record tcp_env =
  te_ctl :: ctl_env
  te_write :: "nat \<Rightarrow> bool \<Rightarrow> nat \<Rightarrow> int + nat"
  te_readv :: "nat \<Rightarrow> size_t list \<Rightarrow> int + char list"
  te_shutdown :: "nat \<Rightarrow> int"
  te_log :: "int \<Rightarrow> int"
  te_user :: "tc_callback \<Rightarrow> tcp_world \<Rightarrow> tc_api list"

definition EAGAIN :: int where "EAGAIN = 11"
definition EPIPE :: int where "EPIPE = 32"
definition ECONNRESET :: int where "ECONNRESET = 104"

abbreviation tc_queueInLoop :: "tc_functor \<Rightarrow> tcp_world \<Rightarrow> tcp_world" where
  "tc_queueInLoop f w \<equiv> w\<lparr>w_pending := w_pending w @ [f]\<rparr>"

definition conn_channel :: "tcp_world \<Rightarrow> channel res" where
  "conn_channel w = get_chan (tc_chan w) (w_poller w)"

definition conn_chan_op :: "(chan_id \<Rightarrow> poller \<Rightarrow> poller res) \<Rightarrow> tcp_world \<Rightarrow> tcp_world res" where
  "conn_chan_op f w = bindE (f (tc_chan w) (w_poller w)) (\<lambda>p. Inr (w\<lparr>w_poller := p\<rparr>))"

definition log_message :: "tcp_env \<Rightarrow> tcp_world \<Rightarrow> tcp_world" where
  "log_message env w = w\<lparr>w_errno := te_log env (w_errno w)\<rparr>"

definition TcpConnection_new :: "string \<Rightarrow> chan_id \<Rightarrow> fd \<Rightarrow> poller \<Rightarrow> tcp_world res" where
  "TcpConnection_new name k sockfd p =
     bindE Buffer_new (\<lambda>ib. bindE Buffer_new (\<lambda>ob.
     Inr \<lparr>tc_name = name, tc_state = KConnecting, tc_chan = k, connectionCallback = False,
          messageCallback = False, writeCompleteCallback = False, highWaterMarkCallback = False,
          tc_closeCallback = False, highWaterMark = 0, inputBuffer = ib, outputBuffer = ob,
          w_poller = put_chan k ((Channel_new sockfd)\<lparr>readCallback := Some 0,
            writeCallback := Some 1, closeCallback := Some 2, errorCallback := Some 3\<rparr>) p,
          w_pending = [], wire = [], sock_shut = False, w_errno = 0, w_calls = 0, cb_log = [],
          accepted = []\<rparr>))"

definition connected :: "tcp_world \<Rightarrow> bool" where
  "connected w \<longleftrightarrow> tc_state w = KConnected"

definition setState :: "StateE \<Rightarrow> tcp_world \<Rightarrow> tcp_world" where
  "setState s w = w\<lparr>tc_state := s\<rparr>"

definition setConnectionCallback :: "bool \<Rightarrow> tcp_world \<Rightarrow> tcp_world" where
  "setConnectionCallback cb w = w\<lparr>connectionCallback := cb\<rparr>"

definition setMessageCallback :: "bool \<Rightarrow> tcp_world \<Rightarrow> tcp_world" where
  "setMessageCallback cb w = w\<lparr>messageCallback := cb\<rparr>"

definition setWriteCompleteCallback :: "bool \<Rightarrow> tcp_world \<Rightarrow> tcp_world" where
  "setWriteCompleteCallback cb w = w\<lparr>writeCompleteCallback := cb\<rparr>"

definition setCloseCallback :: "bool \<Rightarrow> tcp_world \<Rightarrow> tcp_world" where
  "setCloseCallback cb w = w\<lparr>tc_closeCallback := cb\<rparr>"

definition setHighWaterMarkCallback :: "bool \<Rightarrow> size_t \<Rightarrow> tcp_world \<Rightarrow> tcp_world" where
  "setHighWaterMarkCallback cb mark w = w\<lparr>highWaterMarkCallback := cb, highWaterMark := mark\<rparr>"

section \<open>Sending\<close>

text \<open>The result of \<^verbatim>\<open>::write\<close> is the number of bytes taken, or -1 with \<^verbatim>\<open>errno\<close> set.\<close>

definition sys_write :: "tcp_env \<Rightarrow> char list \<Rightarrow> tcp_world \<Rightarrow> int \<times> tcp_world" where
  "sys_write env data w =
     (let w' = w\<lparr>w_calls := Suc (w_calls w)\<rparr>
      in case te_write env (w_calls w) (sock_shut w) (length data) of
           Inl e \<Rightarrow> (- 1, w'\<lparr>w_errno := e\<rparr>)
         | Inr n \<Rightarrow> (int n, w'\<lparr>wire := wire w @ take n data\<rparr>))"

definition socket_shutdownWrite :: "tcp_env \<Rightarrow> tcp_world \<Rightarrow> tcp_world" where
  "socket_shutdownWrite env w =
     (let w' = (if te_shutdown env (w_calls w) < 0 then log_message env w else w\<lparr>sock_shut := True\<rparr>)
      in w'\<lparr>w_calls := Suc (w_calls w)\<rparr>)"

text \<open>
  \<^verbatim>\<open>sendInLoop\<close> first tries to write directly: the result is the local variables \<^verbatim>\<open>nwrote\<close>,
  \<^verbatim>\<open>remaining\<close> and \<^verbatim>\<open>faultError\<close>. What remains is then buffered.
\<close>

definition sendInLoop_write :: "tcp_env \<Rightarrow> char list \<Rightarrow> channel \<Rightarrow> tcp_world
    \<Rightarrow> nat \<times> size_t \<times> bool \<times> tcp_world" where
  "sendInLoop_write env message c w =
     (let len = length message
      in if \<not> isWriting c \<and> readableBytes (outputBuffer w) = 0
         then let (n, w) = sys_write env message w
              in if 0 < n
                 then let remaining = sz_sub len (nat n)
                      in (nat n, remaining, False,
                          if remaining = 0 \<and> writeCompleteCallback w
                          then tc_queueInLoop (F_writeComplete True) w else w)
                 else if w_errno w \<noteq> EAGAIN
                 then let w = log_message env w
                      in (0, len, w_errno w = EPIPE \<or> w_errno w = ECONNRESET, w)
                 else (0, len, False, w)
         else (0, len, False, w))"

definition sendInLoop_buffer :: "tcp_env \<Rightarrow> char list \<Rightarrow> nat \<Rightarrow> size_t \<Rightarrow> tcp_world \<Rightarrow> tcp_world res" where
  "sendInLoop_buffer env message nwrote remaining w =
     (let w = log_message env w;
          oldLen = readableBytes (outputBuffer w);
          w = (if highWaterMark w \<le> sz_add oldLen remaining \<and> oldLen < highWaterMark w
                 \<and> highWaterMarkCallback w
               then tc_queueInLoop (F_highWaterMark (sz_add oldLen remaining)) w else w)
      in bindE (read_at nwrote remaining message) (\<lambda>rest.
         bindE (Buffer_append rest (outputBuffer w)) (\<lambda>ob.
         let w = w\<lparr>outputBuffer := ob, accepted := accepted w @ [message]\<rparr>
         in bindE (conn_channel w) (\<lambda>c.
            if \<not> isWriting c then conn_chan_op (enableWriting (te_ctl env)) w else Inr w))))"

definition sendInLoop :: "tcp_env \<Rightarrow> char list \<Rightarrow> tcp_world \<Rightarrow> tcp_world res" where
  "sendInLoop env message w =
     (if tc_state w = KDisconnected then Inr (log_message env w)
      else bindE (conn_channel w) (\<lambda>c.
        let (nwrote, remaining, faultError, w) = sendInLoop_write env message c w
        in assertE (remaining \<le> length message)
          (if \<not> faultError \<and> 0 < remaining then sendInLoop_buffer env message nwrote remaining w
           else Inr (if faultError then w else w\<lparr>accepted := accepted w @ [message]\<rparr>))))"

definition sendInLoopByString :: "tcp_env \<Rightarrow> char list \<Rightarrow> tcp_world \<Rightarrow> tcp_world res" where
  "sendInLoopByString env message w = sendInLoop env message w"

definition send :: "tcp_env \<Rightarrow> bool \<Rightarrow> char list \<Rightarrow> tcp_world \<Rightarrow> tcp_world res" where
  "send env in_loop message w =
     (if tc_state w = KConnected
      then if in_loop then sendInLoop env message w
           else Inr (tc_queueInLoop (F_sendInLoop message) w)
      else Inr w)"

definition send_string :: "tcp_env \<Rightarrow> bool \<Rightarrow> char list \<Rightarrow> tcp_world \<Rightarrow> tcp_world res" where
  "send_string env in_loop message w =
     (if tc_state w = KConnected
      then if in_loop then sendInLoopByString env message w
           else Inr (tc_queueInLoop (F_sendInLoop message) w)
      else Inr w)"

definition send_buffer :: "tcp_env \<Rightarrow> bool \<Rightarrow> buffer \<Rightarrow> tcp_world \<Rightarrow> (buffer \<times> tcp_world) res" where
  "send_buffer env in_loop message w =
     (if tc_state w = KConnected
      then if in_loop
           then bindE (read_at (peek message) (readableBytes message) (buf_vec message)) (\<lambda>data.
                bindE (sendInLoop env data w) (\<lambda>w. Inr (retrieveAll message, w)))
           else bindE (retrieveAllAsString message) (\<lambda>(data, message).
                Inr (message, tc_queueInLoop (F_sendInLoop data) w))
      else Inr (message, w))"

section \<open>Closing\<close>

definition shutdownInLoop :: "tcp_env \<Rightarrow> tcp_world \<Rightarrow> tcp_world res" where
  "shutdownInLoop env w =
     bindE (conn_channel w) (\<lambda>c. Inr (if \<not> isWriting c then socket_shutdownWrite env w else w))"

definition shutdown :: "tcp_env \<Rightarrow> bool \<Rightarrow> tcp_world \<Rightarrow> tcp_world res" where
  "shutdown env in_loop w =
     (if tc_state w = KConnected
      then let w = setState KDisconnecting w
           in if in_loop then shutdownInLoop env w else Inr (tc_queueInLoop F_shutdownInLoop w)
      else Inr w)"

definition forceClose :: "tcp_world \<Rightarrow> tcp_world" where
  "forceClose w =
     (if tc_state w = KConnected \<or> tc_state w = KDisconnecting
      then tc_queueInLoop F_forceCloseInLoop (setState KDisconnecting w) else w)"

definition tc_call :: "tcp_env \<Rightarrow> bool \<Rightarrow> tc_api \<Rightarrow> tcp_world \<Rightarrow> tcp_world res" where
  "tc_call env in_loop a w =
     (case a of
        Send m \<Rightarrow> send env in_loop m w
      | SendString m \<Rightarrow> send_string env in_loop m w
      | SendBuffer b \<Rightarrow> bindE (send_buffer env in_loop b w) (\<lambda>(_, w). Inr w)
      | Shutdown \<Rightarrow> shutdown env in_loop w
      | ForceClose \<Rightarrow> Inr (forceClose w)
      | Consume n \<Rightarrow> bindE (retrieve (min n (readableBytes (inputBuffer w))) (inputBuffer w)) (\<lambda>ib.
                     Inr (w\<lparr>inputBuffer := ib\<rparr>))
      | QueueDestroyed \<Rightarrow> Inr (tc_queueInLoop F_connectDestroyed w))"

text \<open>Calling an empty \<^verbatim>\<open>std::function\<close> throws.\<close>

definition call_user :: "tcp_env \<Rightarrow> bool \<Rightarrow> tc_callback \<Rightarrow> tcp_world \<Rightarrow> tcp_world res" where
  "call_user env is_set cb w =
     (if is_set
      then let w = w\<lparr>cb_log := cb_log w @ [cb]\<rparr> in foldE (tc_call env True) (te_user env cb w) w
      else Inl Bad_Function_Call)"

definition handleClose :: "tcp_env \<Rightarrow> tcp_world \<Rightarrow> tcp_world res" where
  "handleClose env w =
     assertE (tc_state w = KConnected \<or> tc_state w = KDisconnecting)
       (bindE (conn_chan_op (disableAll (te_ctl env)) (setState KDisconnected w)) (\<lambda>w.
        bindE (call_user env (connectionCallback w) (Cb_Connection (connected w)) w) (\<lambda>w.
        call_user env (tc_closeCallback w) Cb_Close w)))"

definition forceCloseInLoop :: "tcp_env \<Rightarrow> tcp_world \<Rightarrow> tcp_world res" where
  "forceCloseInLoop env w =
     (if tc_state w = KConnected \<or> tc_state w = KDisconnecting then handleClose env w else Inr w)"

definition handleError :: "tcp_env \<Rightarrow> tcp_world \<Rightarrow> tcp_world" where
  "handleError env w = log_message env w"

section \<open>Events of the channel\<close>

definition handleRead :: "tcp_env \<Rightarrow> tcp_world \<Rightarrow> tcp_world res" where
  "handleRead env w =
     bindE (readFd (te_readv env (w_calls w)) (inputBuffer w)) (\<lambda>(n, saveErrno, ib).
     let w = w\<lparr>inputBuffer := ib, w_calls := Suc (w_calls w)\<rparr>
     in if 0 < n then call_user env (messageCallback w) Cb_Message w
        else if n = 0 then handleClose env w
        else Inr (handleError env (log_message env
               (w\<lparr>w_errno := (case saveErrno of None \<Rightarrow> 0 | Some e \<Rightarrow> e)\<rparr>))))"

definition handleWrite :: "tcp_env \<Rightarrow> tcp_world \<Rightarrow> tcp_world res" where
  "handleWrite env w =
     bindE (conn_channel w) (\<lambda>c.
     if isWriting c
     then bindE (read_at (peek (outputBuffer w)) (readableBytes (outputBuffer w))
                  (buf_vec (outputBuffer w))) (\<lambda>data.
          let (n, w) = sys_write env data w
          in if 0 < n
             then bindE (retrieve (nat n) (outputBuffer w)) (\<lambda>ob.
                  let w = w\<lparr>outputBuffer := ob\<rparr>
                  in if readableBytes ob = 0
                     then bindE (conn_chan_op (disableWriting (te_ctl env)) w) (\<lambda>w.
                          let w = (if writeCompleteCallback w then tc_queueInLoop (F_writeComplete False) w else w)
                          in if tc_state w = KDisconnecting then shutdownInLoop env w else Inr w)
                     else Inr (log_message env w))
             else Inr (log_message env w))
     else Inr (log_message env w))"

definition connectEstablished :: "tcp_env \<Rightarrow> tcp_world \<Rightarrow> tcp_world res" where
  "connectEstablished env w =
     assertE (tc_state w = KConnecting)
       (let w = setState KConnected w
        in bindE (conn_channel w) (\<lambda>c.
           bindE (conn_chan_op (enableReading (te_ctl env))
             (w\<lparr>w_poller := put_chan (tc_chan w) (tie 0 c) (w_poller w)\<rparr>)) (\<lambda>w.
           call_user env (connectionCallback w) (Cb_Connection (connected w)) w)))"

definition connnectDestroyed :: "tcp_env \<Rightarrow> tcp_world \<Rightarrow> tcp_world res" where
  "connnectDestroyed env w =
     bindE (if tc_state w = KConnected
            then bindE (conn_chan_op (disableAll (te_ctl env)) (setState KDisconnected w)) (\<lambda>w.
                 call_user env (connectionCallback w) (Cb_Connection (connected w)) w)
            else Inr w) (\<lambda>w.
     conn_chan_op (Channel_remove (te_ctl env)) w)"

text \<open>The callbacks the constructor installs in the channel, and a functor taken from the queue.\<close>

definition conn_callback :: "tcp_env \<Rightarrow> nat \<Rightarrow> tcp_world \<Rightarrow> tcp_world res" where
  "conn_callback env f w =
     (if f = 0 then handleRead env w else if f = 1 then handleWrite env w
      else if f = 2 then handleClose env w else Inr (handleError env w))"

definition run_functor :: "tcp_env \<Rightarrow> tc_functor \<Rightarrow> tcp_world \<Rightarrow> tcp_world res" where
  "run_functor env f w =
     (case f of
        F_sendInLoop m \<Rightarrow> sendInLoopByString env m w
      | F_shutdownInLoop \<Rightarrow> shutdownInLoop env w
      | F_forceCloseInLoop \<Rightarrow> forceCloseInLoop env w
      | F_writeComplete copied \<Rightarrow> call_user env (copied \<or> writeCompleteCallback w) Cb_WriteComplete w
      | F_highWaterMark n \<Rightarrow> call_user env True (Cb_HighWaterMark n) w
      | F_connectDestroyed \<Rightarrow> connnectDestroyed env w)"

section \<open>The machine of a connection\<close>

text \<open>
  What can happen to an established connection: a call from the loop thread or from another
  thread, an event of its descriptor (delivered only while the kernel watches it), or the
  next queued functor.
\<close>

datatype tc_event = Ev_Call bool tc_api | Ev_Ready "32 word" | Ev_Functor

definition set_handling :: "bool \<Rightarrow> tcp_world \<Rightarrow> tcp_world" where
  "set_handling b w =
     (case chans (w_poller w) (tc_chan w) of
        None \<Rightarrow> w
      | Some c \<Rightarrow> w\<lparr>w_poller := put_chan (tc_chan w) (c\<lparr>eventHandling := b\<rparr>) (w_poller w)\<rparr>)"

definition tc_dispatch :: "tcp_env \<Rightarrow> 32 word \<Rightarrow> tcp_world \<Rightarrow> tcp_world res" where
  "tc_dispatch env revents w =
     bindE (conn_channel w) (\<lambda>c.
     if ch_events c = 0 then Inr w
     else let c = set_revents revents c
          in handleEvent (\<lambda>_ _. True) set_handling (conn_callback env) c
               (w\<lparr>w_poller := put_chan (tc_chan w) c (w_poller w)\<rparr>))"

fun tc_step :: "tcp_env \<Rightarrow> tc_event \<Rightarrow> tcp_world \<Rightarrow> tcp_world res" where
  "tc_step env (Ev_Call in_loop a) w = tc_call env in_loop a w"
| "tc_step env (Ev_Ready revents) w = tc_dispatch env revents w"
| "tc_step env Ev_Functor w =
     (case w_pending w of [] \<Rightarrow> Inr w | f # fs \<Rightarrow> run_functor env f (w\<lparr>w_pending := fs\<rparr>))"

section \<open>Invariant\<close>

text \<open>What the environment is documented to do.\<close>

definition api_ok :: "tc_api \<Rightarrow> bool" where
  "api_ok a \<longleftrightarrow>
     (case a of Send m \<Rightarrow> length m \<le> max_alloc | SendString m \<Rightarrow> length m \<le> max_alloc
      | SendBuffer b \<Rightarrow> buf_inv b | QueueDestroyed \<Rightarrow> False | _ \<Rightarrow> True)"

definition env_documented :: "tcp_env \<Rightarrow> bool" where
  "env_documented env \<longleftrightarrow> ctl_documented (te_ctl env)
     \<and> (\<forall>i sh len n. te_write env i sh len = Inr n \<longrightarrow> n \<le> len \<and> \<not> sh)
     \<and> (\<forall>i len. te_write env i True len = Inl EPIPE)
     \<and> (\<forall>i m d. te_readv env i [m, kExtraBuff] = Inr d \<longrightarrow> length d \<le> m + kExtraBuff \<and> length d \<le> max_alloc)
     \<and> (\<forall>e. te_log env e = e)
     \<and> (\<forall>cb w a. a \<in> set (te_user env cb w) \<longrightarrow> api_ok a \<or> cb = Cb_Close \<and> a = QueueDestroyed)"

text \<open>The events the channel must ask for.\<close>

definition wanted :: "tcp_world \<Rightarrow> 32 word" where
  "wanted w =
     (if tc_state w = KConnected \<or> tc_state w = KDisconnecting
      then if contents (outputBuffer w) = [] then KReadEvent else KReadEvent OR KWriteEvent
      else 0)"

definition conn_chan_ok :: "tcp_world \<Rightarrow> bool" where
  "conn_chan_ok w \<longleftrightarrow>
     (\<exists>c. chans (w_poller w) (tc_chan w) = Some c \<and> ch_events c = wanted w
        \<and> (ch_index c = KAdded \<longrightarrow> ch_events c \<noteq> 0) \<and> readCallback c = Some 0 \<and> writeCallback c = Some 1 \<and> closeCallback c = Some 2
        \<and> errorCallback c = Some 3)"

definition functor_ok :: "tcp_world \<Rightarrow> tc_functor \<Rightarrow> bool" where
  "functor_ok w f \<longleftrightarrow>
     (case f of
        F_sendInLoop m \<Rightarrow> length m \<le> max_alloc
      | F_shutdownInLoop \<Rightarrow> tc_state w \<noteq> KConnected
      | F_connectDestroyed \<Rightarrow> tc_state w = KDisconnected
      | F_writeComplete copied \<Rightarrow> copied \<or> writeCompleteCallback w
      | _ \<Rightarrow> True)"

definition tc_inv :: "tcp_world \<Rightarrow> bool" where
  "tc_inv w \<longleftrightarrow> tc_state w \<noteq> KConnecting
     \<and> poller_inv (w_poller w) \<and> conn_chan_ok w
     \<and> buf_inv (inputBuffer w) \<and> buf_inv (outputBuffer w)
     \<and> connectionCallback w \<and> messageCallback w \<and> tc_closeCallback w
     \<and> (\<forall>f \<in> set (w_pending w). functor_ok w f)
     \<and> wire w @ contents (outputBuffer w) = concat (accepted w)
     \<and> (sock_shut w \<longrightarrow> tc_state w \<noteq> KConnected \<and> (tc_state w = KDisconnecting \<longrightarrow> contents (outputBuffer w) = []))"

text \<open>What a call on the connection leaves alone.\<close>

definition tc_frame :: "tcp_world \<Rightarrow> tcp_world \<Rightarrow> bool" where
  "tc_frame w w' \<longleftrightarrow> cb_log w' = cb_log w \<and> tc_chan w' = tc_chan w
     \<and> (tc_state w' = tc_state w \<or> tc_state w \<in> {KConnected, KDisconnecting} \<and> tc_state w' = KDisconnecting)"

lemma tc_frame_refl: "tc_frame w w"
  by (simp add: tc_frame_def)

lemma tc_frame_trans: "tc_frame a b \<Longrightarrow> tc_frame b c \<Longrightarrow> tc_frame a c"
  by (auto simp: tc_frame_def)

lemma tc_state_cases:
  "s \<noteq> KConnecting \<Longrightarrow> (s = KConnected \<or> s = KDisconnecting) \<or> s = KDisconnected"
  by (cases s) auto

lemma event_bits [simp]:
  "(KReadEvent OR KWriteEvent) AND KWriteEvent = KWriteEvent" "KReadEvent AND KWriteEvent = 0"
  "KWriteEvent \<noteq> 0" "KReadEvent \<noteq> 0" "KReadEvent OR KWriteEvent \<noteq> 0"
  "(KReadEvent OR KWriteEvent) AND NOT KWriteEvent = KReadEvent"
  by (simp_all add: KReadEvent_def KWriteEvent_def POLLIN_def POLLPRI_def POLLOUT_def)

lemma conn_chan_okE:
  assumes "conn_chan_ok w"
  obtains c where "chans (w_poller w) (tc_chan w) = Some c" "conn_channel w = Inr c" "ch_events c = wanted w"
  using assms by (auto simp: conn_chan_ok_def conn_channel_def)

lemma isWriting_wanted:
  "ch_events c = wanted w \<Longrightarrow> isWriting c \<longleftrightarrow>
     (tc_state w = KConnected \<or> tc_state w = KDisconnecting) \<and> contents (outputBuffer w) \<noteq> []"
  by (simp add: isWriting_def wanted_def)

text \<open>Changing the events of the connection's channel through the loop.\<close>

lemma conn_chan_op_ok:
  assumes env: "ctl_documented e" and inv: "poller_inv (w_poller w)"
    and k: "chans (w_poller w) (tc_chan w) = Some c"
    and cb: "readCallback c = Some 0" "writeCallback c = Some 1" "closeCallback c = Some 2" "errorCallback c = Some 3"
    and g: "g (ch_events c) = wanted w" and reg: "wanted w \<noteq> 0 \<or> ch_index c = KAdded"
  shows "\<exists>p. conn_chan_op (with_chan e (\<lambda>c. c\<lparr>ch_events := g (ch_events c)\<rparr>)) w = Inr (w\<lparr>w_poller := p\<rparr>)
     \<and> poller_inv p \<and> conn_chan_ok (w\<lparr>w_poller := p\<rparr>)"
proof -
  obtain p i where p: "with_chan e (\<lambda>c. c\<lparr>ch_events := g (ch_events c)\<rparr>) (tc_chan w) (w_poller w) = Inr p"
    "poller_inv p" "chans p (tc_chan w) = Some (c\<lparr>ch_events := g (ch_events c), ch_index := i\<rparr>)"
    "ch_index c = KAdded \<longrightarrow> g (ch_events c) = 0 \<longrightarrow> i = KDeleted"
    using with_chan_ok[OF env inv k, of g] by blast
  have "wanted (w\<lparr>w_poller := p\<rparr>) = wanted w" by (simp add: wanted_def)
  then show ?thesis using p cb g reg by (intro exI[of _ p]) (auto simp: conn_chan_op_def conn_chan_ok_def)
qed

lemma conn_chan_ok_cong:
  "conn_chan_ok w \<Longrightarrow> tc_chan w' = tc_chan w \<Longrightarrow> w_poller w' = w_poller w \<Longrightarrow> wanted w' = wanted w
   \<Longrightarrow> conn_chan_ok w'"
  by (simp add: conn_chan_ok_def)

lemma functor_ok_cong:
  "functor_ok w f \<Longrightarrow> tc_state w' = tc_state w \<or> tc_state w \<noteq> KDisconnected \<and> tc_state w' \<noteq> KConnected
   \<Longrightarrow> writeCompleteCallback w' = writeCompleteCallback w \<Longrightarrow> functor_ok w' f"
  by (auto simp: functor_ok_def split: tc_functor.splits)

lemma tc_inv_upd [simp]:
  "tc_inv (w\<lparr>w_errno := e\<rparr>) = tc_inv w" "tc_inv (w\<lparr>w_calls := n\<rparr>) = tc_inv w"
  "tc_inv (w\<lparr>cb_log := l\<rparr>) = tc_inv w" "tc_inv (log_message env w) = tc_inv w"
  by (simp_all add: tc_inv_def conn_chan_ok_def wanted_def functor_ok_def log_message_def cong: tc_functor.case_cong)

lemma tc_inv_queue [simp]:
  "tc_inv (w\<lparr>w_pending := w_pending w @ [f]\<rparr>) \<longleftrightarrow> tc_inv w \<and> functor_ok w f"
  by (auto simp: tc_inv_def conn_chan_ok_def wanted_def functor_ok_def split: tc_functor.splits)

lemma tc_frame_upd [simp]:
  "tc_frame v (w\<lparr>w_errno := e\<rparr>) = tc_frame v w" "tc_frame v (w\<lparr>w_calls := n\<rparr>) = tc_frame v w"
  "tc_frame v (log_message env w) = tc_frame v w" "tc_frame v (w\<lparr>w_pending := p\<rparr>) = tc_frame v w"
  "tc_frame v (w\<lparr>wire := x\<rparr>) = tc_frame v w" "tc_frame v (w\<lparr>accepted := a\<rparr>) = tc_frame v w"
  "tc_frame v (w\<lparr>outputBuffer := b\<rparr>) = tc_frame v w" "tc_frame v (w\<lparr>w_poller := q\<rparr>) = tc_frame v w"
  by (simp_all add: tc_frame_def log_message_def)

section \<open>Sending keeps the invariant\<close>

lemma env_documentedD:
  assumes "env_documented env"
  shows "ctl_documented (te_ctl env)"
    and "te_write env i sh len = Inr n \<Longrightarrow> n \<le> len \<and> \<not> sh"
    and "te_write env i True len = Inl EPIPE"
    and "te_readv env i [m, kExtraBuff] = Inr d \<Longrightarrow> length d \<le> m + kExtraBuff \<and> length d \<le> max_alloc"
    and "te_log env e = e"
    and "a \<in> set (te_user env cb w) \<Longrightarrow> api_ok a \<or> cb = Cb_Close \<and> a = QueueDestroyed"
  using assms unfolding env_documented_def by blast+

lemma tc_invD:
  assumes "tc_inv w"
  shows "tc_state w \<noteq> KConnecting" "poller_inv (w_poller w)" "conn_chan_ok w"
    "buf_inv (inputBuffer w)" "buf_inv (outputBuffer w)"
    "connectionCallback w" "messageCallback w" "tc_closeCallback w"
    "\<And>f. f \<in> set (w_pending w) \<Longrightarrow> functor_ok w f"
    "wire w @ contents (outputBuffer w) = concat (accepted w)"
    "sock_shut w \<Longrightarrow> tc_state w = KDisconnecting \<Longrightarrow> contents (outputBuffer w) = []" "sock_shut w \<Longrightarrow> tc_state w \<noteq> KConnected"
  using assms unfolding tc_inv_def by blast+

lemma tc_invI:
  assumes "tc_state w \<noteq> KConnecting" "poller_inv (w_poller w)" "conn_chan_ok w"
    "buf_inv (inputBuffer w)" "buf_inv (outputBuffer w)"
    "connectionCallback w" "messageCallback w" "tc_closeCallback w"
    "\<And>f. f \<in> set (w_pending w) \<Longrightarrow> functor_ok w f"
    "wire w @ contents (outputBuffer w) = concat (accepted w)"
    "sock_shut w \<Longrightarrow> tc_state w = KDisconnecting \<Longrightarrow> contents (outputBuffer w) = []" "sock_shut w \<Longrightarrow> tc_state w \<noteq> KConnected"
  shows "tc_inv w"
  using assms unfolding tc_inv_def by blast

text \<open>
  Buffering what was not written: \<open>x\<close> is what was on the wire before the message, of which
  \<open>n\<close> bytes have been written, and only if nothing was waiting.
\<close>

lemma enableWriting_ok:
  assumes env: "ctl_documented e" and inv: "poller_inv (w_poller w)"
    and k: "chans (w_poller w) (tc_chan w) = Some c" and ev: "ch_events c = KReadEvent"
    and cb: "readCallback c = Some 0" "writeCallback c = Some 1" "closeCallback c = Some 2" "errorCallback c = Some 3"
    and w: "wanted w = KReadEvent OR KWriteEvent"
  shows "\<exists>p. conn_chan_op (enableWriting e) w = Inr (w\<lparr>w_poller := p\<rparr>)
     \<and> poller_inv p \<and> conn_chan_ok (w\<lparr>w_poller := p\<rparr>)"
  unfolding enableWriting_def
  using conn_chan_op_ok[OF env inv k cb, of "\<lambda>e. e OR KWriteEvent"] ev w by simp

lemma sendInLoop_buffer_ok:
  assumes env: "env_documented env" and inv: "tc_inv (w\<lparr>wire := x\<rparr>)"
    and wire: "wire w = x @ take n m" and n: "n < length m" and m: "length m \<le> max_alloc"
    and empty: "n = 0 \<or> contents (outputBuffer w) = []"
    and st: "tc_state w = KConnected \<or> tc_state w = KDisconnecting" and sh: "\<not> sock_shut w"
  shows "case sendInLoop_buffer env m n (length m - n) w of
     Inl e \<Rightarrow> e = Length_Error
   | Inr w' \<Rightarrow> tc_inv w' \<and> tc_frame w w' \<and> accepted w' = accepted w @ [m]
       \<and> contents (outputBuffer w') = contents (outputBuffer w) @ drop n m"
proof -
  note I = tc_invD[OF inv, simplified]
  let ?r = "length m - n"
  let ?w1 = "log_message env w"
  define w2 where "w2 = (if highWaterMark ?w1 \<le> sz_add (readableBytes (outputBuffer ?w1)) ?r
      \<and> readableBytes (outputBuffer ?w1) < highWaterMark ?w1 \<and> highWaterMarkCallback ?w1
    then ?w1\<lparr>w_pending := w_pending ?w1 @ [F_highWaterMark (sz_add (readableBytes (outputBuffer ?w1)) ?r)]\<rparr> else ?w1)"
  have w2: "tc_state w2 = tc_state w" "outputBuffer w2 = outputBuffer w" "inputBuffer w2 = inputBuffer w" "wire w2 = wire w"
    "accepted w2 = accepted w" "tc_chan w2 = tc_chan w" "w_poller w2 = w_poller w" "sock_shut w2 = sock_shut w"
    "connectionCallback w2 = connectionCallback w" "messageCallback w2 = messageCallback w"
    "tc_closeCallback w2 = tc_closeCallback w" "writeCompleteCallback w2 = writeCompleteCallback w"
    "\<And>f. f \<in> set (w_pending w2) \<Longrightarrow> f \<in> set (w_pending w) \<or> (\<exists>k. f = F_highWaterMark k)" "tc_frame w w2"
    by (auto simp: w2_def log_message_def tc_frame_def split: if_splits)
  have fok: "functor_ok w2 f" if "f \<in> set (w_pending w2)" for f
    using w2(13)[OF that] I(9)[of f] w2(1,12) by (auto simp: functor_ok_def split: tc_functor.splits)
  have rd: "read_at n ?r m = Inr (drop n m)" using n by (simp add: read_at_def slice_def)
  have len: "length (drop n m) \<le> max_alloc" using m by simp
  from Buffer_append_cases[OF I(5) this] consider
      (full) "Buffer_append (drop n m) (outputBuffer w) = Inl Length_Error"
    | (ok) ob where "Buffer_append (drop n m) (outputBuffer w) = Inr ob" "buf_inv ob"
        "contents ob = contents (outputBuffer w) @ drop n m"
    by blast
  then show ?thesis
  proof cases
    case full
    then show ?thesis
      using rd w2(2) by (simp add: sendInLoop_buffer_def Let_def w2_def[symmetric])
  next
    case ok
    let ?w3 = "w2\<lparr>outputBuffer := ob, accepted := accepted w2 @ [m]\<rparr>"
    have ne: "contents ob \<noteq> []" using ok(3) n by simp
    have wn: "wanted ?w3 = KReadEvent OR KWriteEvent" using st ne w2(1) by (simp add: wanted_def)
    obtain c where c: "chans (w_poller w) (tc_chan w) = Some c" "ch_events c = wanted (w\<lparr>wire := x\<rparr>)"
      "readCallback c = Some 0" "writeCallback c = Some 1" "closeCallback c = Some 2" "errorCallback c = Some 3"
      using I(3) by (auto simp: conn_chan_ok_def)
    have wc: "isWriting c \<longleftrightarrow> contents (outputBuffer w) \<noteq> []"
      using st isWriting_wanted[OF c(2)] by simp
    have red: "sendInLoop_buffer env m n ?r w = (if \<not> isWriting c then conn_chan_op (enableWriting (te_ctl env)) ?w3 else Inr ?w3)"
      using rd ok(1) w2(2,6,7) c(1)
      by (simp add: sendInLoop_buffer_def Let_def w2_def[symmetric] conn_channel_def)
    have str: "wire w @ contents ob = concat (accepted w @ [m])"
      using I(10) wire empty ok(3) by auto
    have "\<exists>p. sendInLoop_buffer env m n ?r w = Inr (?w3\<lparr>w_poller := p\<rparr>) \<and> poller_inv p \<and> conn_chan_ok (?w3\<lparr>w_poller := p\<rparr>)"
    proof (cases "isWriting c")
      case True
      then have "ch_events c = wanted ?w3" using c(2) wc st wn by (simp add: wanted_def)
      then show ?thesis
        using True red c w2(1,6,7) I(2) st by (intro exI[of _ "w_poller w2"]) (simp add: conn_chan_ok_def wanted_def)
    next
      case False
      then have "ch_events c = KReadEvent" using c(2) wc st by (simp add: wanted_def)
      then show ?thesis
        using enableWriting_ok[of "te_ctl env" ?w3 c] False red env_documentedD(1)[OF env] I(2) c wn w2(6,7) by simp
    qed
    then obtain p where p: "sendInLoop_buffer env m n ?r w = Inr (?w3\<lparr>w_poller := p\<rparr>)" "poller_inv p" "conn_chan_ok (?w3\<lparr>w_poller := p\<rparr>)"
      by blast
    let ?w' = "?w3\<lparr>w_poller := p\<rparr>"
    have "tc_inv ?w'"
    proof (rule tc_invI)
      show "functor_ok ?w' f" if "f \<in> set (w_pending ?w')" for f
        by (rule functor_ok_cong[OF fok]) (use that in simp_all)
    qed (use I p(2,3) ok(2) w2 str sh in simp_all)
    then show ?thesis using p(1) w2 ok(3) by simp
  qed
qed

lemma tc_inv_stream:
  assumes "tc_inv w" and "x @ contents (outputBuffer w) = concat a"
  shows "tc_inv (w\<lparr>wire := x, accepted := a\<rparr>)"
proof -
  have "conn_chan_ok (w\<lparr>wire := x, accepted := a\<rparr>)"
    by (rule conn_chan_ok_cong[OF tc_invD(3)[OF assms(1)]]) (simp_all add: wanted_def)
  moreover have "functor_ok (w\<lparr>wire := x, accepted := a\<rparr>) f" if "f \<in> set (w_pending w)" for f
    by (rule functor_ok_cong[OF tc_invD(9)[OF assms(1) that]]) simp_all
  ultimately show ?thesis using tc_invD[OF assms(1)] assms(2) by (intro tc_invI) simp_all
qed

lemma tc_inv_accept_empty: "tc_inv w \<Longrightarrow> tc_inv (w\<lparr>accepted := accepted w @ [[]]\<rparr>)"
  using tc_inv_stream[of w "wire w" "accepted w @ [[]]"] tc_invD(10)[of w] by simp

text \<open>The direct attempt to write, by the answer of the kernel.\<close>

definition send_outcome :: "char list \<Rightarrow> tcp_world \<Rightarrow> tcp_world \<Rightarrow> bool" where
  "send_outcome m w w' \<longleftrightarrow>
     tc_state w \<noteq> KDisconnected \<and> accepted w' = accepted w @ [m]
     \<or> accepted w' = accepted w \<and> wire w' = wire w \<and> contents (outputBuffer w') = contents (outputBuffer w)
       \<and> (tc_state w = KDisconnected \<or> w_errno w' = EPIPE \<or> w_errno w' = ECONNRESET)"

lemma sendInLoop_ok:
  assumes env: "env_documented env" and inv: "tc_inv w" and m: "length m \<le> max_alloc"
  shows "case sendInLoop env m w of
     Inl e \<Rightarrow> e = Length_Error
   | Inr w' \<Rightarrow> tc_inv w' \<and> tc_frame w w' \<and> send_outcome m w w'"
proof (cases "tc_state w = KDisconnected")
  case True
  then show ?thesis using inv
    by (simp add: sendInLoop_def send_outcome_def) (simp add: log_message_def tc_frame_def)
next
  case False
  note I = tc_invD[OF inv]
  have st: "tc_state w = KConnected \<or> tc_state w = KDisconnecting"
    using tc_state_cases[OF I(1)] False by simp
  obtain c where c: "conn_channel w = Inr c" "ch_events c = wanted w"
    using conn_chan_okE[OF I(3)] by metis
  have wr: "isWriting c \<longleftrightarrow> contents (outputBuffer w) \<noteq> []" using isWriting_wanted[OF c(2)] st by simp
  have rb: "readableBytes (outputBuffer w) = 0 \<longleftrightarrow> contents (outputBuffer w) = []"
    using readableBytes_contents[OF I(5)] by (simp del: length_contents)
  let ?len = "length m"
  have rest: "case sendInLoop_buffer env m n (?len - n) v of
        Inl e \<Rightarrow> e = Length_Error
      | Inr w' \<Rightarrow> tc_inv w' \<and> tc_frame w w' \<and> send_outcome m w w'"
    if "v = w\<lparr>wire := wire w @ take n m, w_errno := e, w_calls := k\<rparr>" "n < ?len"
      "n = 0 \<or> contents (outputBuffer w) = []" "\<not> sock_shut w" for v n e k
  proof -
    have "v\<lparr>wire := wire w\<rparr> = w\<lparr>w_errno := e, w_calls := k\<rparr>" using that(1) by simp
    then have 1: "tc_inv (v\<lparr>wire := wire w\<rparr>)" using inv by simp
    have 2: "tc_frame w v" using that(1) by (simp add: tc_frame_def)
    show ?thesis
      using sendInLoop_buffer_ok[OF env 1 _ that(2) m] that st 2 tc_frame_trans[OF 2] False
      by (auto simp: send_outcome_def split: sum.splits)
  qed
  show ?thesis
  proof (cases "contents (outputBuffer w) = []")
    case ne: False
    have sh: "\<not> sock_shut w" using I(11,12) ne st by blast
    have v: "w = w\<lparr>wire := wire w @ take 0 m, w_errno := w_errno w, w_calls := w_calls w\<rparr>" by simp
    show ?thesis
    proof (cases "m = []")
      case True
      then have "sendInLoop env m w = Inr (w\<lparr>accepted := accepted w @ [m]\<rparr>)"
        using c(1) False wr ne by (simp add: sendInLoop_def sendInLoop_write_def)
      moreover have "tc_inv (w\<lparr>accepted := accepted w @ [m]\<rparr>)"
        using True tc_inv_accept_empty[OF inv] by simp
      ultimately show ?thesis using False by (simp add: send_outcome_def tc_frame_refl)
    next
      case m0: False
      then have "sendInLoop env m w = sendInLoop_buffer env m 0 (?len - 0) w"
        using c(1) False wr ne by (simp add: sendInLoop_def sendInLoop_write_def)
      then show ?thesis using rest[OF v _ _ sh] m0 by simp
    qed
  next
    case e: True
    let ?v = "w\<lparr>w_calls := Suc (w_calls w)\<rparr>"
    have red: "sendInLoop_write env m c w = (let (n, w) = sys_write env m w
              in if 0 < n
                 then let remaining = sz_sub ?len (nat n)
                      in (nat n, remaining, False,
                          if remaining = 0 \<and> writeCompleteCallback w
                          then w\<lparr>w_pending := w_pending w @ [F_writeComplete True]\<rparr> else w)
                 else if w_errno w \<noteq> EAGAIN
                 then let w = log_message env w
                      in (0, ?len, w_errno w = EPIPE \<or> w_errno w = ECONNRESET, w)
                 else (0, ?len, False, w))"
      using wr e rb unfolding sendInLoop_write_def Let_def by simp
    show ?thesis
    proof (cases "te_write env (w_calls w) (sock_shut w) ?len")
      case (Inl er)
      let ?v' = "?v\<lparr>w_errno := er\<rparr>"
      have sw: "sys_write env m w = (- 1, ?v')" using Inl by (simp add: sys_write_def)
      have lg: "log_message env ?v' = ?v'" by (simp add: log_message_def env_documentedD(5)[OF env])
      have vw: "?v' = w\<lparr>wire := wire w @ take 0 m, w_errno := er, w_calls := Suc (w_calls w)\<rparr>" by simp
      have sl: "sendInLoop env m w =
          (if (er = EPIPE \<or> er = ECONNRESET) then Inr ?v'
           else if m = [] then Inr (?v'\<lparr>accepted := accepted w @ [m]\<rparr>)
           else sendInLoop_buffer env m 0 (?len - 0) ?v')"
        using c(1) False sw lg by (auto simp: sendInLoop_def red EAGAIN_def EPIPE_def ECONNRESET_def)
      consider (f) "er = EPIPE \<or> er = ECONNRESET" | (n) "\<not> (er = EPIPE \<or> er = ECONNRESET)" "m = []"
        | (b) "\<not> (er = EPIPE \<or> er = ECONNRESET)" "m \<noteq> []" by blast
      then show ?thesis
      proof cases
        case f
        have "tc_inv ?v'" using inv by simp
        moreover have "tc_frame w ?v'" by (simp add: tc_frame_refl)
        ultimately show ?thesis using sl f by (simp add: send_outcome_def)
      next
        case n
        have "tc_inv (?v'\<lparr>accepted := accepted w @ [m]\<rparr>)"
          using n tc_inv_accept_empty[of ?v'] inv by simp
        then show ?thesis using sl n False by (simp add: send_outcome_def tc_frame_refl)
      next
        case b
        have "\<not> sock_shut w" using b(1) Inl env_documentedD(3)[OF env, of "w_calls w" ?len] by auto
        then show ?thesis using rest[OF vw] b sl by simp
      qed
    next
      case (Inr n)
      then have n: "n \<le> ?len" "\<not> sock_shut w" using env_documentedD(2)[OF env] by blast+
      have sw: "sys_write env m w = (int n, ?v\<lparr>wire := wire w @ take n m\<rparr>)" using Inr by (simp add: sys_write_def)
      have lg0: "log_message env ?v = ?v" by (simp add: log_message_def env_documentedD(5)[OF env])
      have sz: "sz_sub ?len n = ?len - n" using n(1) m by (rule sz_sub_small)
      have sw0: "sendInLoop_write env m c w = (0, ?len, w_errno w = EPIPE \<or> w_errno w = ECONNRESET, ?v)" if "\<not> 0 < n"
        using sw that lg0 unfolding red by (auto simp: EAGAIN_def EPIPE_def ECONNRESET_def)
      show ?thesis
      proof (cases "n = ?len")
        case True
        let ?u = "?v\<lparr>wire := wire w @ m, accepted := accepted w @ [m]\<rparr>"
        have iu: "tc_inv ?u"
          using tc_inv_stream[of ?v "wire w @ m" "accepted w @ [m]"] inv e I(10) by simp
        show ?thesis
        proof (cases "0 < n")
          case True
          have "sendInLoop env m w = Inr (if writeCompleteCallback w
              then ?u\<lparr>w_pending := w_pending ?u @ [F_writeComplete True]\<rparr> else ?u)"
            using c(1) False sw sz True \<open>n = ?len\<close> by (simp add: sendInLoop_def red)
          moreover have "functor_ok ?u (F_writeComplete True)" by (simp add: functor_ok_def)
          moreover have "tc_frame w ?u" by (simp add: tc_frame_refl)
          ultimately show ?thesis using iu tc_inv_queue[of ?u "F_writeComplete True"] False
            by (simp add: send_outcome_def del: tc_inv_queue tc_inv_upd)
        next
          case z: False
          then have m0: "m = []" using True by simp
          have "sendInLoop env m w = Inr (if w_errno w = EPIPE \<or> w_errno w = ECONNRESET then ?v else ?v\<lparr>accepted := accepted w @ [m]\<rparr>)"
            using c(1) False sw0[OF z] by (simp add: sendInLoop_def m0)
          then show ?thesis using iu m0 False inv by (simp add: send_outcome_def tc_frame_refl)
        qed
      next
        case less: False
        then have lt: "n < ?len" using n(1) by simp
        show ?thesis
        proof (cases "0 < n")
          case True
          have "sendInLoop env m w = sendInLoop_buffer env m n (?len - n) (?v\<lparr>wire := wire w @ take n m\<rparr>)"
            using c(1) False sw sz True lt by (simp add: sendInLoop_def red)
          moreover have "?v\<lparr>wire := wire w @ take n m\<rparr>
              = w\<lparr>wire := wire w @ take n m, w_errno := w_errno w, w_calls := Suc (w_calls w)\<rparr>" by simp
          ultimately show ?thesis using rest[OF _ lt disjI2[OF e] n(2)] by (simp only:)
        next
          case z: False
          have "sendInLoop env m w = (if w_errno w = EPIPE \<or> w_errno w = ECONNRESET then Inr ?v
              else sendInLoop_buffer env m 0 (?len - 0) ?v)"
            using c(1) False sw0[OF z] lt by (auto simp: sendInLoop_def)
          note sl = this
          have v0: "?v = w\<lparr>wire := wire w @ take 0 m, w_errno := w_errno w, w_calls := Suc (w_calls w)\<rparr>" by simp
          have l0: "0 < ?len" using lt by linarith
          show ?thesis
            using rest[OF v0 l0 disjI1[OF refl] n(2)] inv sl
            by (cases "w_errno w = EPIPE \<or> w_errno w = ECONNRESET") (simp_all add: send_outcome_def tc_frame_refl)
        qed
      qed
    qed
  qed
qed

section \<open>Calls and callbacks keep the invariant\<close>

lemma shutdownInLoop_ok:
  assumes inv: "tc_inv w" and st: "tc_state w \<noteq> KConnected"
  shows "\<exists>w'. shutdownInLoop env w = Inr w' \<and> tc_inv w' \<and> tc_frame w w'"
proof -
  note I = tc_invD[OF inv]
  obtain c where c: "conn_channel w = Inr c" "ch_events c = wanted w" using conn_chan_okE[OF I(3)] by metis
  show ?thesis
  proof (cases "isWriting c")
    case True
    then show ?thesis using c(1) inv by (simp add: shutdownInLoop_def tc_frame_refl)
  next
    case False
    have ne: "tc_state w = KDisconnecting \<Longrightarrow> contents (outputBuffer w) = []"
      using False isWriting_wanted[OF c(2)] by simp
    let ?w = "socket_shutdownWrite env w"
    have "tc_inv (w\<lparr>sock_shut := True\<rparr>)"
    proof (rule tc_invI)
      show "conn_chan_ok (w\<lparr>sock_shut := True\<rparr>)"
        by (rule conn_chan_ok_cong[OF I(3)]) (simp_all add: wanted_def)
      show "functor_ok (w\<lparr>sock_shut := True\<rparr>) f" if "f \<in> set (w_pending (w\<lparr>sock_shut := True\<rparr>))" for f
        by (rule functor_ok_cong[OF I(9)]) (use that in simp_all)
    qed (use I st ne in simp_all)
    then have "tc_inv ?w \<and> tc_frame w ?w"
      using inv by (simp add: socket_shutdownWrite_def Let_def tc_frame_def log_message_def)
    then show ?thesis using c(1) False by (simp add: shutdownInLoop_def)
  qed
qed

lemma tc_inv_setState_disconnecting:
  assumes "tc_inv w" and "tc_state w = KConnected"
  shows "tc_inv (setState KDisconnecting w)" "tc_frame w (setState KDisconnecting w)"
proof -
  note I = tc_invD[OF assms(1)]
  show "tc_inv (setState KDisconnecting w)"
  proof (rule tc_invI)
    show "conn_chan_ok (setState KDisconnecting w)"
      by (rule conn_chan_ok_cong[OF I(3)]) (use assms(2) in \<open>simp_all add: wanted_def setState_def\<close>)
    show "functor_ok (setState KDisconnecting w) f" if "f \<in> set (w_pending (setState KDisconnecting w))" for f
      by (rule functor_ok_cong[OF I(9)]) (use that assms(2) in \<open>simp_all add: setState_def\<close>)
  qed (use I assms(2) in \<open>auto simp: setState_def\<close>)
  show "tc_frame w (setState KDisconnecting w)" using assms(2) by (simp add: tc_frame_def setState_def)
qed

definition tc_call_ok :: "tcp_world \<Rightarrow> tcp_world res \<Rightarrow> bool" where
  "tc_call_ok w r \<longleftrightarrow> (case r of Inl e \<Rightarrow> e \<in> {Length_Error} | Inr w' \<Rightarrow> tc_inv w' \<and> tc_frame w w')"

lemma sendInLoop_call_ok:
  assumes "env_documented env" and "tc_inv w" and "length m \<le> max_alloc"
  shows "tc_call_ok w (sendInLoop env m w)"
  using sendInLoop_ok[OF assms] by (simp add: tc_call_ok_def split: sum.splits)

lemma send_call_ok:
  assumes "env_documented env" and "tc_inv w" and "length m \<le> max_alloc"
  shows "tc_call_ok w (send env in_loop m w)"
  using sendInLoop_call_ok[OF assms] assms
  by (simp add: send_def tc_call_ok_def tc_frame_refl functor_ok_def)

lemma send_string_eq: "send_string = send"
  by (simp add: send_string_def send_def sendInLoopByString_def fun_eq_iff)

text \<open>Sending a buffer sends its contents and empties it.\<close>

lemma send_buffer_eq:
  assumes "buf_inv b"
  shows "bindE (send_buffer env in_loop b w) (\<lambda>(_, w). Inr w) = send env in_loop (contents b) w"
proof -
  have "read_at (peek b) (readableBytes b) (buf_vec b) = Inr (contents b)"
    using assms buf_invD[OF assms] by (simp add: read_at_def peek_def contents_def)
  moreover obtain b' where "retrieveAllAsString b = Inr (contents b, b')"
    using retrieveAllAsString_ok[OF assms] by blast
  ultimately show ?thesis
    by (cases "sendInLoop env (contents b) w") (simp_all add: send_buffer_def send_def)
qed

lemma tc_call_ok_shutdown:
  assumes "tc_inv w"
  shows "tc_call_ok w (shutdown env in_loop w)"
proof (cases "tc_state w = KConnected")
  case True
  note s = tc_inv_setState_disconnecting[OF assms True]
  have ns: "tc_state (setState KDisconnecting w) \<noteq> KConnected" by (simp add: setState_def)
  obtain w' where w': "shutdownInLoop env (setState KDisconnecting w) = Inr w'" "tc_inv w'"
      "tc_frame (setState KDisconnecting w) w'"
    using shutdownInLoop_ok[OF s(1) ns] by blast
  then show ?thesis
    using True s tc_frame_trans[OF s(2) w'(3)] by (cases in_loop) (simp_all add: shutdown_def tc_call_ok_def functor_ok_def Let_def ns)
next
  case False
  then show ?thesis using assms by (simp add: shutdown_def tc_call_ok_def tc_frame_refl)
qed

lemma forceClose_ok:
  assumes "tc_inv w"
  shows "tc_inv (forceClose w) \<and> tc_frame w (forceClose w)"
proof -
  have "tc_state w = KDisconnecting \<Longrightarrow> setState KDisconnecting w = w" by (simp add: setState_def)
  then have "tc_state w = KConnected \<or> tc_state w = KDisconnecting
      \<Longrightarrow> tc_inv (setState KDisconnecting w) \<and> tc_frame w (setState KDisconnecting w)"
    using tc_inv_setState_disconnecting[OF assms] assms tc_frame_refl[of w] by auto
  then show ?thesis using assms by (simp add: forceClose_def functor_ok_def tc_frame_refl)
qed

lemma tc_inv_input:
  assumes "tc_inv w" and "buf_inv b"
  shows "tc_inv (w\<lparr>inputBuffer := b\<rparr>)"
proof (rule tc_invI)
  note I = tc_invD[OF assms(1)]
  show "conn_chan_ok (w\<lparr>inputBuffer := b\<rparr>)"
    by (rule conn_chan_ok_cong[OF I(3)]) (simp_all add: wanted_def)
  show "functor_ok (w\<lparr>inputBuffer := b\<rparr>) f" if "f \<in> set (w_pending (w\<lparr>inputBuffer := b\<rparr>))" for f
    by (rule functor_ok_cong[OF I(9)]) (use that in simp_all)
qed (use tc_invD[OF assms(1)] assms(2) in simp_all)

lemma consume_ok:
  assumes "tc_inv w"
  shows "tc_call_ok w (tc_call env in_loop (Consume n) w)"
proof -
  note I = tc_invD[OF assms]
  let ?n = "min n (readableBytes (inputBuffer w))"
  obtain b where b: "retrieve ?n (inputBuffer w) = Inr b" "buf_inv b"
    using retrieve_ok[OF I(4), of ?n] readableBytes_contents[OF I(4)] by (auto simp del: length_contents)
  have "tc_inv (w\<lparr>inputBuffer := b\<rparr>)" by (rule tc_inv_input[OF assms b(2)])
  then show ?thesis using b(1) by (simp add: tc_call_def tc_call_ok_def tc_frame_def)
qed

lemma tc_call_call_ok:
  assumes env: "env_documented env" and inv: "tc_inv w"
    and a: "api_ok a \<or> tc_state w = KDisconnected \<and> a = QueueDestroyed"
  shows "tc_call_ok w (tc_call env in_loop a w)"
proof (cases a)
  case (SendBuffer b)
  then have b: "buf_inv b" using a by (simp add: api_ok_def)
  then have "length (contents b) \<le> max_alloc" using buf_invD[OF b] by simp
  then show ?thesis
    using send_call_ok[OF env inv] send_buffer_eq[OF b] SendBuffer by (simp add: tc_call_def)
next
  case (Send m)
  then show ?thesis using a send_call_ok[OF env inv] by (simp add: tc_call_def api_ok_def)
next
  case (SendString m)
  then show ?thesis using a send_call_ok[OF env inv] by (simp add: tc_call_def api_ok_def send_string_eq)
next
  case Shutdown
  then show ?thesis using tc_call_ok_shutdown[OF inv] by (simp add: tc_call_def)
next
  case ForceClose
  then show ?thesis using forceClose_ok[OF inv] by (simp add: tc_call_def tc_call_ok_def)
next
  case QueueDestroyed
  then show ?thesis using a inv by (simp add: tc_call_def api_ok_def tc_call_ok_def functor_ok_def tc_frame_refl)
next
  case (Consume n)
  then show ?thesis using consume_ok[OF inv] by simp
qed

section \<open>Events keep the invariant\<close>

text \<open>
  The user hears of the connection once when it is up and once when it is down, and the
  owner is told to drop it once, after that.
\<close>

definition conn_log :: "tcp_world \<Rightarrow> tc_callback list" where
  "conn_log w = filter (\<lambda>cb. cb = Cb_Connection True \<or> cb = Cb_Connection False \<or> cb = Cb_Close) (cb_log w)"

definition log_ok :: "tcp_world \<Rightarrow> bool" where
  "log_ok w \<longleftrightarrow> conn_log w = (if tc_state w = KDisconnected
     then [Cb_Connection True, Cb_Connection False, Cb_Close] else [Cb_Connection True])"

definition tc_step_ok :: "tcp_world res \<Rightarrow> bool" where
  "tc_step_ok r \<longleftrightarrow> (case r of Inl e \<Rightarrow> e = Length_Error | Inr w \<Rightarrow> tc_inv w \<and> log_ok w)"

lemma tc_frame_log_ok: "tc_frame w w' \<Longrightarrow> log_ok w \<Longrightarrow> log_ok w'"
  by (auto simp: tc_frame_def log_ok_def conn_log_def split: if_splits)

lemma tc_call_step_ok: "tc_call_ok w r \<Longrightarrow> log_ok w \<Longrightarrow> tc_step_ok r"
  using tc_frame_log_ok by (auto simp: tc_call_ok_def tc_step_ok_def split: sum.splits)

lemma call_user_ok:
  assumes env: "env_documented env" and inv: "tc_inv w" and cb: "cb = Cb_Close \<longrightarrow> tc_state w = KDisconnected"
  shows "tc_call_ok (w\<lparr>cb_log := cb_log w @ [cb]\<rparr>) (call_user env True cb w)"
proof -
  let ?w = "w\<lparr>cb_log := cb_log w @ [cb]\<rparr>"
  let ?I = "\<lambda>w. tc_inv w \<and> (cb = Cb_Close \<longrightarrow> tc_state w = KDisconnected)"
  have i: "?I ?w" using inv cb by simp
  have step: "case tc_call env True a s of Inl e \<Rightarrow> e \<in> {Length_Error} | Inr s' \<Rightarrow> ?I s' \<and> tc_frame s s'"
    if "a \<in> set (te_user env cb ?w)" "?I s" for a s
  proof -
    have "tc_call_ok s (tc_call env True a s)"
      by (rule tc_call_call_ok[OF env]) (use that env_documentedD(6)[OF env that(1)] in auto)
    then show ?thesis using that(2) by (auto simp: tc_call_ok_def tc_frame_def split: sum.splits)
  qed
  have "case foldE (tc_call env True) (te_user env cb ?w) ?w of
      Inl e \<Rightarrow> e \<in> {Length_Error} | Inr s' \<Rightarrow> ?I s' \<and> tc_frame ?w s'"
    by (rule foldE_rel[where I = ?I and R = tc_frame]) (use i step tc_frame_refl tc_frame_trans in blast)+
  then show ?thesis by (simp add: call_user_def tc_call_ok_def Let_def split: sum.splits)
qed

lemma call_user_step_ok:
  assumes "env_documented env" and "tc_inv w" and "log_ok w" and "cb \<noteq> Cb_Close" and "\<And>b. cb \<noteq> Cb_Connection b"
  shows "tc_step_ok (call_user env True cb w)"
proof -
  have "log_ok (w\<lparr>cb_log := cb_log w @ [cb]\<rparr>)" using assms(3-5) by (simp add: log_ok_def conn_log_def)
  then show ?thesis using call_user_ok[OF assms(1,2)] assms(4) by (auto intro: tc_call_step_ok)
qed

lemma disableAll_ok:
  assumes env: "env_documented env" and inv: "tc_inv w" and st: "tc_state w = KConnected \<or> tc_state w = KDisconnecting"
  shows "\<exists>p. conn_chan_op (disableAll (te_ctl env)) (setState KDisconnected w) = Inr (setState KDisconnected w\<lparr>w_poller := p\<rparr>)
     \<and> tc_inv (setState KDisconnected w\<lparr>w_poller := p\<rparr>)"
proof -
  note I = tc_invD[OF inv]
  let ?w = "setState KDisconnected w"
  obtain c where c: "chans (w_poller ?w) (tc_chan ?w) = Some c"
      "readCallback c = Some 0" "writeCallback c = Some 1" "closeCallback c = Some 2" "errorCallback c = Some 3"
      "ch_events c = wanted w"
    using I(3) by (auto simp: conn_chan_ok_def setState_def)
  have "ch_index c = KAdded"
    using poller_invD(1)[OF I(2), of "tc_chan w" c] c(1,6) st by (auto simp: chan_inv_def wanted_def setState_def split: if_splits)
  moreover have "wanted ?w = KNoneEvent" by (simp add: wanted_def setState_def KNoneEvent_def)
  ultimately obtain p where p: "conn_chan_op (disableAll (te_ctl env)) ?w = Inr (?w\<lparr>w_poller := p\<rparr>)" "poller_inv p"
      "conn_chan_ok (?w\<lparr>w_poller := p\<rparr>)"
    using conn_chan_op_ok[OF env_documentedD(1)[OF env], of ?w c "\<lambda>_. KNoneEvent"] c I(2)
    by (auto simp: disableAll_def setState_def)
  have "tc_inv (?w\<lparr>w_poller := p\<rparr>)"
  proof (rule tc_invI)
    show "functor_ok (?w\<lparr>w_poller := p\<rparr>) f" if "f \<in> set (w_pending (?w\<lparr>w_poller := p\<rparr>))" for f
      using I(9)[of f] that by (auto simp: functor_ok_def setState_def split: tc_functor.splits)
  qed (use I p in \<open>simp_all add: setState_def\<close>)
  then show ?thesis using p(1) by blast
qed

lemma handleClose_ok:
  assumes env: "env_documented env" and inv: "tc_inv w" and lg: "log_ok w"
    and st: "tc_state w = KConnected \<or> tc_state w = KDisconnecting"
  shows "tc_step_ok (handleClose env w)"
proof -
  obtain p where p: "conn_chan_op (disableAll (te_ctl env)) (setState KDisconnected w) = Inr (setState KDisconnected w\<lparr>w_poller := p\<rparr>)"
    and i: "tc_inv (setState KDisconnected w\<lparr>w_poller := p\<rparr>)"
    using disableAll_ok[OF env inv st] by blast
  let ?w = "setState KDisconnected w\<lparr>w_poller := p\<rparr>"
  have cb: "connectionCallback ?w" "\<not> connected ?w" "tc_state ?w = KDisconnected" "cb_log ?w = cb_log w"
    using tc_invD(6)[OF i] by (simp_all add: connected_def setState_def)
  let ?u = "?w\<lparr>cb_log := cb_log ?w @ [Cb_Connection False]\<rparr>"
  have red: "handleClose env w = bindE (call_user env True (Cb_Connection False) ?w) (\<lambda>w. call_user env (tc_closeCallback w) Cb_Close w)"
    using st p cb by (auto simp: handleClose_def)
  have 1: "tc_call_ok ?u (call_user env True (Cb_Connection False) ?w)" by (rule call_user_ok[OF env i]) simp
  show ?thesis
  proof (cases "call_user env True (Cb_Connection False) ?w")
    case (Inl e)
    then show ?thesis using 1 red by (simp add: tc_call_ok_def tc_step_ok_def)
  next
    case (Inr v)
    then have v: "tc_inv v" "tc_frame ?u v" using 1 by (simp_all add: tc_call_ok_def)
    have vs: "tc_state v = KDisconnected" "cb_log v = cb_log w @ [Cb_Connection False]"
      using v(2) cb(3,4) by (auto simp: tc_frame_def)
    let ?x = "v\<lparr>cb_log := cb_log v @ [Cb_Close]\<rparr>"
    have "tc_call_ok ?x (call_user env True Cb_Close v)" by (rule call_user_ok[OF env v(1)]) (simp add: vs(1))
    moreover have "log_ok ?x" using lg st vs by (auto simp: log_ok_def conn_log_def)
    ultimately show ?thesis using Inr red tc_invD(8)[OF v(1)] tc_call_step_ok by simp
  qed
qed

lemma log_ok_upd [simp]:
  "log_ok (w\<lparr>inputBuffer := b\<rparr>) = log_ok w" "log_ok (w\<lparr>w_calls := n\<rparr>) = log_ok w"
  "log_ok (w\<lparr>w_errno := e\<rparr>) = log_ok w" "log_ok (log_message env w) = log_ok w"
  "log_ok (w\<lparr>w_poller := p\<rparr>) = log_ok w"  "log_ok (w\<lparr>w_pending := fs\<rparr>) = log_ok w"
  by (simp_all add: log_ok_def conn_log_def log_message_def)

lemma handleRead_ok:
  assumes env: "env_documented env" and inv: "tc_inv w" and lg: "log_ok w"
    and st: "tc_state w = KConnected \<or> tc_state w = KDisconnecting"
  shows "tc_step_ok (handleRead env w)"
proof -
  note I = tc_invD[OF inv]
  let ?rv = "te_readv env (w_calls w)" and ?m = "writeableBytes (inputBuffer w)"
  show ?thesis
  proof (cases "?rv [?m, kExtraBuff]")
    case (Inl e)
    then have "readFd ?rv (inputBuffer w) = Inr (- 1, Some e, inputBuffer w)"
      by (simp add: readFd_def Let_def)
    then show ?thesis using inv lg by (simp add: handleRead_def handleError_def tc_step_ok_def Let_def)
  next
    case (Inr d)
    from env_documentedD(4)[OF env Inr] have "length d \<le> ?m + kExtraBuff" "length d \<le> max_alloc" by auto
    from readFd_cases[where readv = ?rv, OF I(4) Inr this] consider
        (full) "readFd ?rv (inputBuffer w) = Inl Length_Error"
      | (ok) b where "readFd ?rv (inputBuffer w) = Inr (int (length d), None, b)" "buf_inv b" by blast
    then show ?thesis
    proof cases
      case full
      then show ?thesis by (simp add: handleRead_def tc_step_ok_def)
    next
      case ok
      let ?w = "w\<lparr>inputBuffer := b, w_calls := Suc (w_calls w)\<rparr>"
      have i: "tc_inv ?w" "log_ok ?w" using tc_inv_input[OF inv ok(2)] lg by simp_all
      have "handleRead env w = (if 0 < length d then call_user env True Cb_Message ?w else handleClose env ?w)"
        using ok(1) tc_invD(7)[OF i(1)] by (simp add: handleRead_def Let_def)
      moreover have "tc_step_ok (call_user env True Cb_Message ?w)"
        by (rule call_user_step_ok[OF env i]) simp_all
      moreover have "tc_step_ok (handleClose env ?w)" by (rule handleClose_ok[OF env i]) (use st in simp)
      ultimately show ?thesis by simp
    qed
  qed
qed

lemma upd_order:
  "w\<lparr>w_calls := n, wire := x\<rparr> = w\<lparr>wire := x, w_calls := n\<rparr>"
  "w\<lparr>w_calls := n, outputBuffer := b\<rparr> = w\<lparr>outputBuffer := b, w_calls := n\<rparr>"
  "w\<lparr>wire := x, outputBuffer := b\<rparr> = w\<lparr>outputBuffer := b, wire := x\<rparr>"
  "w\<lparr>w_calls := n, w_poller := p\<rparr> = w\<lparr>w_poller := p, w_calls := n\<rparr>"
  "w\<lparr>wire := x, w_poller := p\<rparr> = w\<lparr>w_poller := p, wire := x\<rparr>"
  by simp_all

lemma tc_inv_output:
  assumes inv: "tc_inv w" and "buf_inv b" and "x @ contents b = concat (accepted w)" and "poller_inv p"
    and "conn_chan_ok (w\<lparr>outputBuffer := b, w_poller := p\<rparr>)"
    and "sock_shut w \<Longrightarrow> tc_state w = KDisconnecting \<Longrightarrow> contents b = []"
  shows "tc_inv (w\<lparr>outputBuffer := b, w_poller := p, wire := x\<rparr>)"
proof (rule tc_invI)
  note I = tc_invD[OF inv]
  let ?w = "w\<lparr>outputBuffer := b, w_poller := p, wire := x\<rparr>"
  show "functor_ok ?w f" if "f \<in> set (w_pending ?w)" for f
    by (rule functor_ok_cong[OF I(9)]) (use that in simp_all)
  show "conn_chan_ok ?w"
    by (rule conn_chan_ok_cong[OF assms(5)]) (simp_all add: wanted_def)
qed (use tc_invD[OF inv] assms in simp_all)

lemma handleWrite_ok:
  assumes env: "env_documented env" and inv: "tc_inv w"
  shows "\<exists>w'. handleWrite env w = Inr w' \<and> tc_inv w' \<and> tc_frame w w'
     \<and> (contents (outputBuffer w) \<noteq> [] \<longrightarrow> tc_state w \<noteq> KDisconnected \<longrightarrow>
          (\<forall>n. te_write env (w_calls w) (sock_shut w) (length (contents (outputBuffer w))) = Inr n \<longrightarrow>
             contents (outputBuffer w') = drop n (contents (outputBuffer w)) \<and> tc_state w' = tc_state w
             \<and> accepted w' = accepted w
             \<and> (0 < n \<longrightarrow> tc_state w = KDisconnecting \<longrightarrow> drop n (contents (outputBuffer w)) = []
                \<longrightarrow> (\<forall>i. 0 \<le> te_shutdown env i) \<longrightarrow> sock_shut w')))"
proof -
  note I = tc_invD[OF inv]
  obtain c where c: "chans (w_poller w) (tc_chan w) = Some c" "conn_channel w = Inr c" "ch_events c = wanted w"
    using conn_chan_okE[OF I(3)] by metis
  let ?o = "contents (outputBuffer w)"
  show ?thesis
  proof (cases "isWriting c")
    case False
    then have "?o = [] \<or> tc_state w = KDisconnected"
      using isWriting_wanted[OF c(3)] tc_state_cases[OF I(1)] by blast
    then show ?thesis using False c(2) inv by (auto simp: handleWrite_def tc_frame_refl)
  next
    case True
    have st: "tc_state w = KConnected \<or> tc_state w = KDisconnecting" and ne: "?o \<noteq> []"
      using True isWriting_wanted[OF c(3)] by simp_all
    have rd: "read_at (peek (outputBuffer w)) (readableBytes (outputBuffer w)) (buf_vec (outputBuffer w)) = Inr ?o"
      using I(5) buf_invD[OF I(5)] by (simp add: read_at_def peek_def contents_def)
    let ?v = "w\<lparr>w_calls := Suc (w_calls w)\<rparr>"
    show ?thesis
    proof (cases "te_write env (w_calls w) (sock_shut w) (length ?o)")
      case (Inl e)
      then have "handleWrite env w = Inr (log_message env (?v\<lparr>w_errno := e\<rparr>))"
        using True c(2) rd by (simp add: handleWrite_def sys_write_def Let_def)
      then show ?thesis using inv Inl by (simp add: tc_frame_refl)
    next
      case (Inr n)
      then have n: "n \<le> length ?o" using env_documentedD(2)[OF env] by blast
      obtain b where b: "retrieve n (outputBuffer w) = Inr b" "buf_inv b" "contents b = drop n ?o"
        using retrieve_ok[OF I(5) n] by blast
      let ?x = "wire w @ take n ?o"
      have str: "?x @ contents b = concat (accepted w)" using I(10) b(3) by simp
      have sh: "sock_shut w \<Longrightarrow> tc_state w = KDisconnecting \<Longrightarrow> contents b = []" using I(11) b(3) by simp
      have rb: "readableBytes b = 0 \<longleftrightarrow> contents b = []"
        using readableBytes_contents[OF b(2)] by (simp del: length_contents)
      let ?u = "\<lambda>p. w\<lparr>outputBuffer := b, w_poller := p, wire := ?x, w_calls := Suc (w_calls w)\<rparr>"
      have iu: "tc_inv (?u p)" if "poller_inv p" "conn_chan_ok (w\<lparr>outputBuffer := b, w_poller := p\<rparr>)" for p
        using tc_inv_output[OF inv b(2) str that sh] by simp
      have sw: "sys_write env ?o w = (int n, ?v\<lparr>wire := ?x\<rparr>)" using Inr by (simp add: sys_write_def Let_def)
      consider (zero) "n = 0" | (more) "0 < n" "contents b \<noteq> []" | (all) "0 < n" "contents b = []" by blast
      then show ?thesis
      proof cases
        case zero
        then have "handleWrite env w = Inr (log_message env ?v)"
          using True c(2) rd sw by (simp add: handleWrite_def)
        then show ?thesis using inv Inr zero ne by (simp add: tc_frame_refl) (simp add: log_message_def)
      next
        case more
        have "conn_chan_ok (w\<lparr>outputBuffer := b, w_poller := w_poller w\<rparr>)"
          by (rule conn_chan_ok_cong[OF I(3)]) (use more ne in \<open>simp_all add: wanted_def\<close>)
        then have "tc_inv (?u (w_poller w))" by (rule iu[OF I(2)])
        moreover have "handleWrite env w = Inr (log_message env (?u (w_poller w)))"
          using True c(2) rd sw b(1) more rb by (simp add: handleWrite_def Let_def upd_order)
        ultimately show ?thesis using Inr b(3) more by (simp add: tc_frame_refl) (simp add: log_message_def)
      next
        case all
        let ?w1 = "?u (w_poller w)"
        obtain d where d: "chans (w_poller w) (tc_chan w) = Some d" "ch_events d = wanted w"
            "readCallback d = Some 0" "writeCallback d = Some 1" "closeCallback d = Some 2" "errorCallback d = Some 3"
          using I(3) by (auto simp: conn_chan_ok_def)
        have "ch_events d AND NOT KWriteEvent = wanted ?w1" using d(2) st ne all by (simp add: wanted_def)
        moreover have "wanted ?w1 \<noteq> 0" using st all by (simp add: wanted_def)
        ultimately obtain p where p: "conn_chan_op (disableWriting (te_ctl env)) ?w1 = Inr (?w1\<lparr>w_poller := p\<rparr>)"
            "poller_inv p" "conn_chan_ok (?w1\<lparr>w_poller := p\<rparr>)"
          using conn_chan_op_ok[OF env_documentedD(1)[OF env], of ?w1 d "\<lambda>e. e AND NOT KWriteEvent"] d I(2)
          by (auto simp: disableWriting_def)
        have "conn_chan_ok (w\<lparr>outputBuffer := b, w_poller := p\<rparr>)"
          by (rule conn_chan_ok_cong[OF p(3)]) (simp_all add: wanted_def)
        then have i2: "tc_inv (?u p)" by (rule iu[OF p(2)])
        define w3 where "w3 = (if writeCompleteCallback w then (?u p)\<lparr>w_pending := w_pending (?u p) @ [F_writeComplete False]\<rparr> else ?u p)"
        have w3: "tc_inv w3" "tc_frame w w3" "tc_state w3 = tc_state w" "outputBuffer w3 = b" "accepted w3 = accepted w"
          using i2 tc_inv_queue[of "?u p" "F_writeComplete False"]
          by (auto simp: w3_def functor_ok_def tc_frame_refl simp del: tc_inv_queue)
        have red: "handleWrite env w = (if tc_state w3 = KDisconnecting then shutdownInLoop env w3 else Inr w3)"
          using True c(2) rd sw b(1) all rb p(1) w3(3) by (simp add: handleWrite_def Let_def w3_def upd_order)
        show ?thesis
        proof (cases "tc_state w3 = KDisconnecting")
          case dis: True
          then obtain w' where w': "shutdownInLoop env w3 = Inr w'" "tc_inv w'" "tc_frame w3 w'"
            using shutdownInLoop_ok[OF w3(1)] by fastforce
          obtain d where d: "conn_channel w3 = Inr d" "ch_events d = wanted w3"
            using conn_chan_okE[OF tc_invD(3)[OF w3(1)]] by metis
          have "\<not> isWriting d" using isWriting_wanted[OF d(2)] w3(4) all(2) by simp
          then have "w' = socket_shutdownWrite env w3" using w'(1) d(1) by (simp add: shutdownInLoop_def)
          then have "outputBuffer w' = b" "accepted w' = accepted w" "tc_state w' = tc_state w"
              "(\<forall>i. 0 \<le> te_shutdown env i) \<longrightarrow> sock_shut w'"
            using w3(3,4,5) by (auto simp: socket_shutdownWrite_def log_message_def Let_def not_less
                dest: spec[of _ "w_calls w3"])
          then show ?thesis
            using red dis w' tc_frame_trans[OF w3(2) w'(3)] b(3) Inr by simp
        next
          case False
          then show ?thesis using red w3 b(3) Inr by simp
        qed
      qed
    qed
  qed
qed


lemma connnectDestroyed_ok:
  assumes env: "env_documented env" and inv: "tc_inv w" and st: "tc_state w = KDisconnected"
  shows "\<exists>p. connnectDestroyed env w = Inr (w\<lparr>w_poller := p\<rparr>) \<and> tc_inv (w\<lparr>w_poller := p\<rparr>)"
proof -
  note I = tc_invD[OF inv]
  obtain c where c: "chans (w_poller w) (tc_chan w) = Some c" "ch_events c = wanted w"
      "readCallback c = Some 0" "writeCallback c = Some 1" "closeCallback c = Some 2" "errorCallback c = Some 3"
    using I(3) by (auto simp: conn_chan_ok_def)
  have "ch_events c = 0" using c(2) st by (simp add: wanted_def)
  then obtain p where p: "Channel_remove (te_ctl env) (tc_chan w) (w_poller w) = Inr p" "poller_inv p"
      "chans p = (chans (w_poller w))(tc_chan w \<mapsto> c\<lparr>ch_index := KNew\<rparr>)"
    using Channel_remove_ok[OF env_documentedD(1)[OF env] I(2) c(1)] by auto
  have "connnectDestroyed env w = Inr (w\<lparr>w_poller := p\<rparr>)"
    using p(1) st by (simp add: connnectDestroyed_def conn_chan_op_def)
  moreover have "conn_chan_ok (w\<lparr>w_poller := p\<rparr>)" using p(3) c by (simp add: conn_chan_ok_def wanted_def)
  moreover from this have "tc_inv (w\<lparr>w_poller := p\<rparr>)"
    using tc_inv_output[OF inv I(5,10) p(2)] I(11) by simp
  ultimately show ?thesis by blast
qed

lemma run_functor_ok:
  assumes env: "env_documented env" and inv: "tc_inv w" and lg: "log_ok w" and f: "functor_ok w f"
  shows "tc_step_ok (run_functor env f w)"
proof (cases f)
  case (F_sendInLoop m)
  then have "length m \<le> max_alloc" using f by (simp add: functor_ok_def)
  then show ?thesis using tc_call_step_ok[OF sendInLoop_call_ok[OF env inv] lg] F_sendInLoop
    by (simp add: run_functor_def sendInLoopByString_def)
next
  case F_shutdownInLoop
  then obtain w' where "shutdownInLoop env w = Inr w'" "tc_inv w'" "tc_frame w w'"
    using shutdownInLoop_ok[OF inv] f by (fastforce simp: functor_ok_def)
  then show ?thesis using F_shutdownInLoop tc_frame_log_ok lg by (simp add: run_functor_def tc_step_ok_def)
next
  case F_forceCloseInLoop
  then show ?thesis using handleClose_ok[OF env inv lg] inv lg
    by (simp add: run_functor_def forceCloseInLoop_def tc_step_ok_def)
next
  case (F_writeComplete copied)
  then have "copied \<or> writeCompleteCallback w" using f by (simp add: functor_ok_def)
  then show ?thesis using F_writeComplete call_user_step_ok[OF env inv lg, of Cb_WriteComplete]
    by (simp add: run_functor_def)
next
  case (F_highWaterMark n)
  then show ?thesis using call_user_step_ok[OF env inv lg, of "Cb_HighWaterMark n"] by (simp add: run_functor_def)
next
  case F_connectDestroyed
  then have "tc_state w = KDisconnected" using f by (simp add: functor_ok_def)
  then show ?thesis using connnectDestroyed_ok[OF env inv] F_connectDestroyed lg
    by (auto simp: run_functor_def tc_step_ok_def)
qed


text \<open>Dispatching touches only the bookkeeping fields of the channel.\<close>

lemma tc_inv_put_chan:
  assumes inv: "tc_inv w" and c: "chans (w_poller w) (tc_chan w) = Some c"
    and same: "ch_fd c' = ch_fd c" "ch_events c' = ch_events c" "ch_index c' = ch_index c"
      "readCallback c' = readCallback c" "writeCallback c' = writeCallback c"
      "closeCallback c' = closeCallback c" "errorCallback c' = errorCallback c"
  shows "tc_inv (w\<lparr>w_poller := put_chan (tc_chan w) c' (w_poller w)\<rparr>)"
proof -
  note I = tc_invD[OF inv]
  let ?p = "put_chan (tc_chan w) c' (w_poller w)"
  have ci: "chan_inv c" using poller_invD(1)[OF I(2) c] .
  have "poller_inv ?p"
    by (rule poller_inv_put[OF I(2) c, of c'])
      (use ci same poller_inv_channel[OF I(2) c] in \<open>simp_all add: put_chan_def chan_inv_def fun_upd_idem\<close>)
  moreover have "conn_chan_ok (w\<lparr>w_poller := ?p\<rparr>)"
    using I(3) c same by (auto simp: conn_chan_ok_def wanted_def put_chan_def)
  ultimately show ?thesis using tc_inv_output[OF inv I(5,10)] I(11) by simp
qed

lemma set_handling_ok:
  assumes "tc_inv w"
  shows "tc_inv (set_handling b w)" "log_ok (set_handling b w) = log_ok w" "tc_state (set_handling b w) = tc_state w"
proof -
  obtain c where c: "chans (w_poller w) (tc_chan w) = Some c" using tc_invD(3)[OF assms] by (auto simp: conn_chan_ok_def)
  show "tc_inv (set_handling b w)"
    using tc_inv_put_chan[OF assms c, of "c\<lparr>eventHandling := b\<rparr>"] c by (simp add: set_handling_def)
  show "log_ok (set_handling b w) = log_ok w" "tc_state (set_handling b w) = tc_state w"
    using c by (simp_all add: set_handling_def)
qed

lemma tc_step_ok_bind:
  "tc_step_ok r \<Longrightarrow> (\<And>w. tc_inv w \<Longrightarrow> log_ok w \<Longrightarrow> tc_step_ok (f w)) \<Longrightarrow> tc_step_ok (bindE r f)"
  by (cases r) (auto simp: tc_step_ok_def)

lemma handleWrite_step_ok:
  assumes "env_documented env" and "tc_inv w" and "log_ok w"
  shows "tc_step_ok (handleWrite env w)"
  using handleWrite_ok[OF assms(1,2)] tc_frame_log_ok[OF _ assms(3)] by (auto simp: tc_step_ok_def)

text \<open>
  A hang-up without \<^verbatim>\<open>POLLIN\<close> is final: the kernel reports neither urgent data nor a half-close
  with it (the channel never asks for \<^verbatim>\<open>POLLRDHUP\<close>). Otherwise the read handler would run after
  the close handler.
\<close>

definition hup_alone :: "32 word \<Rightarrow> bool" where
  "hup_alone r \<longleftrightarrow> (r AND POLLHUP \<noteq> 0 \<and> r AND POLLIN = 0 \<longrightarrow> r AND (POLLIN OR POLLPRI OR POLLRDHUP) = 0)"

lemma tc_callbacks_ok:
  assumes env: "env_documented env" and inv: "tc_inv w" and lg: "log_ok w"
    and st: "tc_state w = KConnected \<or> tc_state w = KDisconnecting"
    and r: "hup_alone (ch_revents c)"
    and cb: "readCallback c = Some 0" "writeCallback c = Some 1" "closeCallback c = Some 2" "errorCallback c = Some 3"
  shows "tc_step_ok (foldE (call_if_set (conn_callback env)) (event_callbacks c) w)"
proof -
  let ?r = "ch_revents c"
  let ?err = "if ?r AND (POLLERR OR POLLNVAL) \<noteq> 0 then [Some 3] else [] :: nat option list"
  let ?wr = "if ?r AND POLLOUT \<noteq> 0 then [Some 1] else [] :: nat option list"
  let ?run = "foldE (call_if_set (conn_callback env))"
  have err: "\<exists>v. ?run ?err w = Inr v \<and> tc_inv v \<and> log_ok v \<and> tc_state v = tc_state w" if "tc_inv w" "log_ok w" for w
    using that by (simp add: call_if_set_def conn_callback_def handleError_def) (simp add: log_message_def)
  have wr: "tc_step_ok (?run ?wr w)" if "tc_inv w" "log_ok w" for w
    using that handleWrite_step_ok[OF env that]
    by (cases "handleWrite env w") (simp_all add: call_if_set_def conn_callback_def tc_step_ok_def)
  show ?thesis
  proof (cases "?r AND POLLHUP \<noteq> 0 \<and> ?r AND POLLIN = 0")
    case True
    then have e: "event_callbacks c = [Some 2] @ ?err @ ?wr" using r cb by (simp add: event_callbacks_def hup_alone_def)
    have "?run [Some 2] w = handleClose env w"
      by (cases "handleClose env w") (simp_all add: call_if_set_def conn_callback_def)
    then have "tc_step_ok (?run [Some 2] w)" using handleClose_ok[OF env inv lg st] by simp
    then show ?thesis unfolding e foldE_append
    proof (rule tc_step_ok_bind)
      fix v assume v: "tc_inv v" "log_ok v"
      obtain u where "?run ?err v = Inr u" "tc_inv u" "log_ok u" using err[OF v] by blast
      then show "tc_step_ok (bindE (?run ?err v) (?run ?wr))" using wr by simp
    qed
  next
    case False
    let ?rd = "if ?r AND (POLLIN OR POLLPRI OR POLLRDHUP) \<noteq> 0 then [Some 0] else [] :: nat option list"
    have e: "event_callbacks c = ?err @ ?rd @ ?wr" using False cb by (auto simp: event_callbacks_def Let_def)
    obtain u where u: "?run ?err w = Inr u" "tc_inv u" "log_ok u" "tc_state u = tc_state w" using err[OF inv lg] by blast
    have "tc_step_ok (handleRead env u)" using handleRead_ok[OF env u(2,3)] st u(4) by simp
    then have "tc_step_ok (?run ?rd u)"
      using u by (cases "handleRead env u") (simp_all add: call_if_set_def conn_callback_def tc_step_ok_def)
    then have "tc_step_ok (bindE (?run ?rd u) (?run ?wr))" using wr by (rule tc_step_ok_bind)
    then show ?thesis unfolding e foldE_append using u(1) by simp
  qed
qed

lemma tc_dispatch_ok:
  assumes env: "env_documented env" and inv: "tc_inv w" and lg: "log_ok w" and r: "hup_alone r"
  shows "tc_step_ok (tc_dispatch env r w)"
proof -
  note I = tc_invD[OF inv]
  obtain c where c: "chans (w_poller w) (tc_chan w) = Some c" "ch_events c = wanted w"
      "readCallback c = Some 0" "writeCallback c = Some 1" "closeCallback c = Some 2" "errorCallback c = Some 3"
    using I(3) by (auto simp: conn_chan_ok_def)
  show ?thesis
  proof (cases "ch_events c = 0")
    case True
    then show ?thesis using c(1) inv lg by (simp add: tc_dispatch_def conn_channel_def tc_step_ok_def)
  next
    case False
    then have st: "tc_state w = KConnected \<or> tc_state w = KDisconnecting"
      using c(2) by (simp add: wanted_def split: if_splits)
    let ?c = "set_revents r c" and ?w = "w\<lparr>w_poller := put_chan (tc_chan w) (set_revents r c) (w_poller w)\<rparr>"
    have i: "tc_inv ?w" by (rule tc_inv_put_chan[OF inv c(1)]) (simp_all add: set_revents_def)
    note h = set_handling_ok[OF i, of True]
    have "tc_step_ok (foldE (call_if_set (conn_callback env)) (event_callbacks ?c) (set_handling True ?w))"
      by (rule tc_callbacks_ok[OF env h(1)])
        (use lg h st r c in \<open>simp_all add: set_revents_def\<close>)
    then have "tc_step_ok (handleEventWithGuard set_handling (conn_callback env) ?c ?w)"
      unfolding handleEventWithGuard_def
      by (rule tc_step_ok_bind) (simp add: tc_step_ok_def set_handling_ok)
    then have "tc_step_ok (handleEvent (\<lambda>_ _. True) set_handling (conn_callback env) ?c ?w)"
      using i lg by (simp add: handleEvent_def tc_step_ok_def split: option.splits)
    then show ?thesis using False c(1) by (simp add: tc_dispatch_def conn_channel_def Let_def)
  qed
qed

definition ev_ok :: "tc_event \<Rightarrow> bool" where
  "ev_ok e \<longleftrightarrow> (case e of Ev_Call in_loop a \<Rightarrow> api_ok a | Ev_Ready r \<Rightarrow> hup_alone r | Ev_Functor \<Rightarrow> True)"

lemma tc_step_step_ok:
  assumes env: "env_documented env" and inv: "tc_inv w" and lg: "log_ok w" and e: "ev_ok e"
  shows "tc_step_ok (tc_step env e w)"
proof (cases e)
  case (Ev_Call in_loop a)
  then have "tc_call_ok w (tc_call env in_loop a w)" using tc_call_call_ok[OF env inv] e by (simp add: ev_ok_def)
  then show ?thesis using tc_call_step_ok lg Ev_Call by simp
next
  case (Ev_Ready r)
  then show ?thesis using tc_dispatch_ok[OF env inv lg] e by (simp add: ev_ok_def)
next
  case Ev_Functor
  show ?thesis
  proof (cases "w_pending w")
    case Nil
    then show ?thesis using inv lg Ev_Functor by (simp add: tc_step_ok_def)
  next
    case (Cons f fs)
    let ?w = "w\<lparr>w_pending := fs\<rparr>"
    have i: "tc_inv ?w"
    proof (rule tc_invI)
      note I = tc_invD[OF inv]
      show "conn_chan_ok ?w" by (rule conn_chan_ok_cong[OF I(3)]) (simp_all add: wanted_def)
      show "functor_ok ?w g" if "g \<in> set (w_pending ?w)" for g
        by (rule functor_ok_cong[OF I(9)]) (use that Cons in simp_all)
    qed (use tc_invD[OF inv] in simp_all)
    have "functor_ok ?w f" by (rule functor_ok_cong[OF tc_invD(9)[OF inv]]) (use Cons in simp_all)
    then show ?thesis using run_functor_ok[OF env i _] lg Ev_Functor Cons by simp
  qed
qed

interpretation tc_machine: event_machine "\<lambda>w. env_documented env \<and> tc_inv w \<and> log_ok w" ev_ok "{Length_Error}" "tc_step env" for env
proof
  fix w e w' f assume a: "env_documented env \<and> tc_inv w \<and> log_ok w" "ev_ok e"
  then have "tc_step_ok (tc_step env e w)" by (simp add: tc_step_step_ok)
  then show "tc_step env e w = Inr w' \<Longrightarrow> env_documented env \<and> tc_inv w' \<and> log_ok w'"
    and "tc_step env e w = Inl f \<Longrightarrow> f \<in> {Length_Error}"
    using a by (simp_all add: tc_step_ok_def)
qed

text \<open>A new connection whose owner has set the callbacks is established.\<close>

definition fresh_connection :: "string \<Rightarrow> chan_id \<Rightarrow> fd \<Rightarrow> poller \<Rightarrow> tcp_world res" where
  "fresh_connection name k sockfd p =
     bindE (TcpConnection_new name k sockfd p) (\<lambda>w.
     Inr (setCloseCallback True (setMessageCallback True (setConnectionCallback True w))))"

lemma connectEstablished_ok:
  assumes env: "env_documented env" and p: "poller_inv p" "chans p k = None" "sockfd \<notin> ch_fd ` ran (chans p)"
    and w: "fresh_connection name k sockfd p = Inr w"
  shows "tc_step_ok (connectEstablished env w)"
proof -
  obtain b where b: "Buffer_new = Inr b" "buf_inv b" "contents b = []" using Buffer_new_ok by blast
  let ?c = "(Channel_new sockfd)\<lparr>readCallback := Some 0, writeCallback := Some 1, closeCallback := Some 2, errorCallback := Some 3\<rparr>"
  have c: "chans (w_poller w) (tc_chan w) = Some ?c" and f: "tc_state w = KConnecting" "w_pending w = []" "wire w = []"
      "accepted w = []" "\<not> sock_shut w" "inputBuffer w = b" "outputBuffer w = b" "cb_log w = []"
      "connectionCallback w" "messageCallback w" "tc_closeCallback w" "w_poller w = put_chan k ?c p" "tc_chan w = k"
    using w unfolding fresh_connection_def TcpConnection_new_def
    by (auto simp: b(1) setCloseCallback_def setMessageCallback_def setConnectionCallback_def put_chan_def)
  have pn: "poller_inv (put_chan k (Channel_new sockfd) p)" by (rule poller_inv_add[OF p])
  have q0: "poller_inv (put_chan k (tie 0 ?c) (w_poller w))"
    by (rule poller_inv_put[OF pn, of k "Channel_new sockfd" "tie 0 ?c"])
      (use p(2) poller_inv_channel[OF pn, of k "Channel_new sockfd"] poller_invD(1)[OF pn, of k "Channel_new sockfd"] f(12) in
       \<open>auto simp: put_chan_def tie_def Channel_new_def chan_inv_def KNew_def fun_upd_idem\<close>)
  let ?w = "setState KConnected w\<lparr>w_poller := put_chan (tc_chan w) (tie 0 ?c) (w_poller w)\<rparr>"
  have wn: "wanted ?w = KReadEvent" using b(3) f(7) by (simp add: wanted_def setState_def)
  have t: "poller_inv (w_poller ?w)" "chans (w_poller ?w) (tc_chan ?w) = Some (tie 0 ?c)"
      "ch_events (tie 0 ?c) OR KReadEvent = wanted ?w" "wanted ?w \<noteq> 0"
    using q0 wn f(13) by (simp_all add: setState_def put_chan_def tie_def Channel_new_def)
  obtain q where q: "conn_chan_op (enableReading (te_ctl env)) ?w = Inr (?w\<lparr>w_poller := q\<rparr>)" "poller_inv q"
      "conn_chan_ok (?w\<lparr>w_poller := q\<rparr>)"
    using conn_chan_op_ok[OF env_documentedD(1)[OF env] t(1,2), of "\<lambda>e. e OR KReadEvent"] t(3,4)
    unfolding enableReading_def by (force simp: tie_def)
  let ?u = "?w\<lparr>w_poller := q\<rparr>"
  have iu: "tc_inv ?u"
    by (rule tc_invI) (use q b f in \<open>simp_all add: setState_def\<close>)
  have red: "connectEstablished env w = call_user env True (Cb_Connection True) ?u"
    using f(1,9) c q(1) by (simp add: connectEstablished_def Let_def conn_channel_def setState_def connected_def)
  have "tc_call_ok (?u\<lparr>cb_log := cb_log ?u @ [Cb_Connection True]\<rparr>) (call_user env True (Cb_Connection True) ?u)"
    by (rule call_user_ok[OF env iu]) simp
  then show ?thesis
    unfolding red by (rule tc_call_step_ok) (use f(8) in \<open>simp add: log_ok_def conn_log_def setState_def\<close>)
qed

lemma connection_run_ok:
  assumes env: "env_documented env" and p: "poller_inv p" "chans p k = None" "sockfd \<notin> ch_fd ` ran (chans p)"
    and w: "fresh_connection name k sockfd p = Inr w0" and es: "\<forall>e \<in> set es. ev_ok e"
  shows "tc_step_ok (bindE (connectEstablished env w0) (foldE (tc_step env) es))"
proof (rule tc_step_ok_bind[OF connectEstablished_ok[OF env p w]])
  fix w assume "tc_inv w" "log_ok w"
  then show "tc_step_ok (foldE (tc_step env) es w)"
    using tc_machine.run_safe[of env w es] env es by (auto simp: tc_step_ok_def split: sum.splits)
qed

end
