(* ===== verification/Tcp_Correctness.thy ===== *)
theory Tcp_Correctness
  imports Tcp_Connection
begin

text \<open>
  What a TCP connection guarantees in every interleaving of its user, other threads and the loop: the order of
  its bytes, its life cycle, and a graceful shutdown.
\<close>

section \<open>Properties\<close>


definition demo_tcp :: tcp_env where
  "demo_tcp = \<lparr>te_ctl = demo_ctl, te_write = (\<lambda>i sh n. if sh then Inl EPIPE else Inr (min n 4)),
     te_readv = (\<lambda>_ _. Inr []), te_shutdown = (\<lambda>_. 0), te_log = (\<lambda>e. e), te_user = (\<lambda>_ _. [])\<rparr>"

lemma demo_tcp_documented: "env_documented demo_tcp"
  by (auto simp: env_documented_def demo_tcp_def demo_ctl_documented)

lemma empty_poller_inv: "poller_inv empty_poller"
  using poller_inv_new[OF empty_poller_new] .

definition empty_buffer :: buffer where
  "empty_buffer = \<lparr>buf_vec = replicate 1032 (CHR 0x00), readerIndex = 8, writeIndex = 8\<rparr>"

lemma Buffer_new_eval: "Buffer_new = Inr empty_buffer"
  by (simp add: Buffer_new_def empty_buffer_def readableBytes_def writeableBytes_def prependableBytes_def
      kCheapprepend_def kInitialSize_def sz_sub_def size_mod_def Let_def)

lemma empty_buffer_ok: "buf_inv empty_buffer" "contents empty_buffer = []"
  using Buffer_new_ok by (simp_all add: Buffer_new_eval)

definition demo_conn :: tcp_world where
  "demo_conn = projr (fresh_connection ''srv:1'' 1 7 empty_poller)"

lemma demo_conn_fresh: "fresh_connection ''srv:1'' 1 7 empty_poller = Inr demo_conn"
  by (simp add: Buffer_new_eval demo_conn_def fresh_connection_def TcpConnection_new_def)

text \<open>The connection after \<^verbatim>\<open>connectEstablished\<close>.\<close>

definition demo_up :: tcp_world where
  "demo_up = projr (connectEstablished demo_tcp demo_conn)"

lemmas demo_chan_simps = put_chan_def get_chan_def with_chan_def updateChannel_def poller_update_def
  conn_chan_op_def conn_channel_def demo_tcp_def demo_ctl_def
  KNew_def KAdded_def KDeleted_def isNoneEvent_def KNoneEvent_def

lemma demo_up:
  "connectEstablished demo_tcp demo_conn = Inr demo_up"
  "tc_state demo_up = KConnected" "outputBuffer demo_up = empty_buffer" "wire demo_up = []" "accepted demo_up = []"
  "conn_channel demo_up = Inr \<lparr>ch_fd = 7, ch_events = KReadEvent, ch_revents = 0, ch_index = KAdded, logHup = True,
     ch_tie = Some 0, ch_tied = True, eventHandling = False, readCallback = Some 0,
     writeCallback = Some 1, closeCallback = Some 2, errorCallback = Some 3\<rparr>"
  "w_calls demo_up = 0" "\<not> sock_shut demo_up" "\<not> writeCompleteCallback demo_up" "\<not> highWaterMarkCallback demo_up"
  "w_pending demo_up = []"
  by (simp_all add: demo_up_def demo_conn_def fresh_connection_def TcpConnection_new_def Buffer_new_eval
     setCloseCallback_def setMessageCallback_def setConnectionCallback_def connectEstablished_def setState_def
     empty_poller_def enableReading_def demo_chan_simps Channel_new_def tie_def call_user_def connected_def Let_def)

lemma demo_up_ok: "tc_inv demo_up" "log_ok demo_up"
  using connectEstablished_ok[OF demo_tcp_documented empty_poller_inv _ _ demo_conn_fresh] demo_up(1)
  by (simp_all add: empty_poller_def tc_step_ok_def)

text \<open>Sending six bytes: the kernel takes four, two are buffered.\<close>

lemma demo_send:
  "\<exists>w. tc_step demo_tcp (Ev_Call True (Send ''hello!'')) demo_up = Inr w \<and> wire w = ''hell''
     \<and> contents (outputBuffer w) = ''o!'' \<and> accepted w = [''hello!''] \<and> tc_state w = KConnected"
proof -
  let ?w = "demo_up\<lparr>wire := ''hell'', w_calls := 1\<rparr>"
  let ?c = "\<lparr>ch_fd = 7, ch_events = KReadEvent, ch_revents = 0, ch_index = KAdded, logHup = True,
     ch_tie = Some 0, ch_tied = True, eventHandling = False, readCallback = Some 0,
     writeCallback = Some 1, closeCallback = Some 2, errorCallback = Some 3\<rparr>"
  let ?v = "\<lambda>b. demo_up\<lparr>outputBuffer := b, wire := ''hell'', w_calls := 1, accepted := [''hello!'']\<rparr>"
  have nw: "\<not> isWriting ?c" by (simp add: isWriting_def)
  have rb: "readableBytes empty_buffer = 0"
    using readableBytes_contents[OF empty_buffer_ok(1)] empty_buffer_ok(2) by (simp del: length_contents buf_inv_readableBytes)
  have "sys_write demo_tcp ''hello!'' demo_up = (4, ?w)"
    by (simp add: sys_write_def demo_tcp_def demo_up upd_order Let_def)
  then have wr: "sendInLoop_write demo_tcp ''hello!'' ?c demo_up = (4, 2, False, ?w)"
    using nw rb by (simp add: sendInLoop_write_def demo_up sz_sub_def size_mod_def Let_def)
  obtain b where b: "Buffer_append ''o!'' empty_buffer = Inr b" "contents b = ''o!''"
    using Buffer_append_ok[OF empty_buffer_ok(1), of "''o!''"] empty_buffer_ok(2)
    by (auto simp: room_def kCheapprepend_def max_alloc_def)
  have "tc_step demo_tcp (Ev_Call True (Send ''hello!'')) demo_up = sendInLoop_buffer demo_tcp ''hello!'' 4 2 ?w"
    using wr by (simp add: tc_call_def send_def sendInLoop_def demo_up)
  moreover have "sendInLoop_buffer demo_tcp ''hello!'' 4 2 ?w = conn_chan_op (enableWriting (te_ctl demo_tcp)) (?v b)"
    using b(1) nw demo_up(6)
    by (simp add: sendInLoop_buffer_def log_message_def demo_tcp_def demo_up(3,5,10) read_at_def slice_def upd_order
        conn_channel_def Let_def)
  moreover have "\<exists>p. conn_chan_op (enableWriting (te_ctl demo_tcp)) (?v b) = Inr ((?v b)\<lparr>w_poller := p\<rparr>)"
    using enableWriting_ok[OF env_documentedD(1)[OF demo_tcp_documented], of "?v b" ?c] demo_up(2,6) b(2)
      tc_invD(2)[OF demo_up_ok(1)]
    by (auto simp: conn_channel_def get_chan_def wanted_def split: option.splits)
  ultimately show ?thesis using b(2) demo_up(2) by auto
qed



text \<open>
  C16: The life of a connection. While it is open, the kernel watches its descriptor for reading,
  and for writing exactly if bytes wait in the output buffer, so nothing is left behind and
  no idle connection spins; once closed, it is not watched. The user is called once when the
  connection is up and once when it is down, and the owner is told to drop it once, last.
\<close>

theorem connection_lifecycle:
  assumes "env_documented env" and "poller_inv p" and "chans p k = None" and "sockfd \<notin> ch_fd ` ran (chans p)"
    and "fresh_connection name k sockfd p = Inr w0" and "\<forall>e \<in> set es. ev_ok e"
    and "bindE (connectEstablished env w0) (foldE (tc_step env) es) = Inr w"
  shows "\<exists>c. chans (w_poller w) (tc_chan w) = Some c \<and>
     (if tc_state w = KDisconnected
      then interest (w_poller w) (ch_fd c) = None
        \<and> conn_log w = [Cb_Connection True, Cb_Connection False, Cb_Close]
      else interest (w_poller w) (ch_fd c) = Some (if contents (outputBuffer w) = [] then KReadEvent
             else KReadEvent OR KWriteEvent, tc_chan w)
        \<and> conn_log w = [Cb_Connection True])"
proof -
  have i: "tc_inv w" "log_ok w" using connection_run_ok[OF assms(1-6)] assms(7) by (simp_all add: tc_step_ok_def)
  note I = tc_invD[OF i(1)]
  obtain c where c: "chans (w_poller w) (tc_chan w) = Some c" "ch_events c = wanted w" "ch_index c = KAdded \<longrightarrow> ch_events c \<noteq> 0"
    using I(3) by (auto simp: conn_chan_ok_def)
  have "chan_inv c" using poller_invD(1)[OF I(2) c(1)] .
  then have "ch_events c \<noteq> 0 \<longrightarrow> ch_index c = KAdded" by (simp add: chan_inv_def)
  then show ?thesis
    using poller_inv_channel(2)[OF I(2) c(1)] c i(2) tc_state_cases[OF I(1)]
    by (intro exI[of _ c]) (auto simp: wanted_def log_ok_def)
qed


theorem connection_lifecycle_witness:
  "\<exists>w c. bindE (connectEstablished demo_tcp demo_conn) (foldE (tc_step demo_tcp) [Ev_Call True (Send ''hello!'')]) = Inr w
     \<and> chans (w_poller w) (tc_chan w) = Some c
     \<and> interest (w_poller w) (ch_fd c) = Some (KReadEvent OR KWriteEvent, tc_chan w)
     \<and> conn_log w = [Cb_Connection True]"
proof -
  obtain w where w: "tc_step demo_tcp (Ev_Call True (Send ''hello!'')) demo_up = Inr w"
      "contents (outputBuffer w) = ''o!''" "tc_state w = KConnected"
    using demo_send by blast
  have e: "\<forall>e \<in> set [Ev_Call True (Send ''hello!'')]. ev_ok e" by (simp add: ev_ok_def api_ok_def max_alloc_def)
  have run: "bindE (connectEstablished demo_tcp demo_conn) (foldE (tc_step demo_tcp) [Ev_Call True (Send ''hello!'')]) = Inr w"
    using w(1) demo_up(1) by simp
  show ?thesis
    using connection_lifecycle[OF demo_tcp_documented empty_poller_inv _ _ demo_conn_fresh e run] run w(2,3)
    by (auto simp: empty_poller_def)
qed

text \<open>
  A message is taken whole or not at all. \<^verbatim>\<open>sendInLoop\<close> either accepts the message, or leaves
  the wire and the output buffer as they were: because the connection is closed, or because
  the write failed with \<^verbatim>\<open>EPIPE\<close> or \<^verbatim>\<open>ECONNRESET\<close>. The peer never sees a message with a hole.
\<close>

theorem sendInLoop_all_or_nothing:
  assumes "env_documented env" and "tc_inv w" and "length m \<le> max_alloc" and "sendInLoop env m w = Inr w'"
  shows "tc_state w \<noteq> KDisconnected \<and> wire w' @ contents (outputBuffer w') = wire w @ contents (outputBuffer w) @ m
     \<or> wire w' = wire w \<and> contents (outputBuffer w') = contents (outputBuffer w)
       \<and> (tc_state w = KDisconnected \<or> w_errno w' = EPIPE \<or> w_errno w' = ECONNRESET)"
proof -
  have "tc_inv w'" "send_outcome m w w'" using sendInLoop_ok[OF assms(1-3)] assms(4) by simp_all
  then show ?thesis using tc_invD(10)[of w'] tc_invD(10)[OF assms(2)] by (auto simp: send_outcome_def)
qed

theorem sendInLoop_all_or_nothing_witness:
  "\<exists>w. sendInLoop demo_tcp ''hello!'' demo_up = Inr w \<and> wire w @ contents (outputBuffer w) = ''hello!''"
proof -
  obtain w where w: "sendInLoop demo_tcp ''hello!'' demo_up = Inr w" "wire w = ''hell''"
    using demo_send demo_up(2) by (auto simp: tc_call_def send_def)
  then show ?thesis
    using sendInLoop_all_or_nothing[OF demo_tcp_documented demo_up_ok(1) _ w(1)] demo_up(3,4) empty_buffer_ok(2)
    by (auto simp: max_alloc_def)
qed

lemma drain_ok:
  assumes env: "env_documented env" and prog: "\<And>i len. 0 < len \<Longrightarrow> \<exists>n>0. te_write env i False len = Inr n"
    and shut: "\<And>i. 0 \<le> te_shutdown env i"
  shows "tc_inv w \<Longrightarrow> tc_state w = KDisconnecting \<Longrightarrow> sock_shut w \<or> contents (outputBuffer w) \<noteq> []
    \<Longrightarrow> length (contents (outputBuffer w)) \<le> k
    \<Longrightarrow> \<exists>w'. foldE (\<lambda>_. handleWrite env) (replicate k ()) w = Inr w' \<and> sock_shut w' \<and> accepted w' = accepted w
          \<and> wire w' = concat (accepted w)"
proof (induction k arbitrary: w)
  case 0
  then have "contents (outputBuffer w) = []" by (simp del: length_contents)
  then show ?case using 0 tc_invD(10)[OF 0(1)] by simp
next
  case (Suc k)
  note I = tc_invD[OF Suc.prems(1)]
  show ?case
  proof (cases "contents (outputBuffer w) = []")
    case True
    obtain c where c: "conn_channel w = Inr c" "ch_events c = wanted w"
      using conn_chan_okE[OF I(3)] by metis
    have "handleWrite env w = Inr (log_message env w)"
      using c(1) isWriting_wanted[OF c(2)] True by (simp add: handleWrite_def)
    moreover have "tc_inv (log_message env w)" "tc_state (log_message env w) = KDisconnecting"
        "sock_shut (log_message env w)" "outputBuffer (log_message env w) = outputBuffer w"
        "accepted (log_message env w) = accepted w"
      using Suc.prems True by (simp_all add: log_message_def)
    ultimately show ?thesis using Suc.IH[of "log_message env w"] True by (simp del: length_contents)
  next
    case False
    then have ns: "\<not> sock_shut w" using I(11) Suc.prems(2) by blast
    obtain n where n: "0 < n" "te_write env (w_calls w) (sock_shut w) (length (contents (outputBuffer w))) = Inr n"
      using prog[of "length (contents (outputBuffer w))" "w_calls w"] False ns by (auto simp del: length_contents)
    obtain v where v: "handleWrite env w = Inr v" "tc_inv v" "contents (outputBuffer v) = drop n (contents (outputBuffer w))"
        "tc_state v = KDisconnecting" "accepted v = accepted w" "drop n (contents (outputBuffer w)) = [] \<longrightarrow> sock_shut v"
      using handleWrite_ok[OF env Suc.prems(1)] False Suc.prems(2) n shut by auto
    have "length (contents (outputBuffer v)) \<le> k" using v(3) n(1) Suc.prems(4) by (simp del: length_contents)
    from Suc.IH[OF v(2,4) _ this] v show ?thesis by auto
  qed
qed

text \<open>
  C17: A graceful shutdown completes. If the kernel takes at least one byte whenever it reports the
  socket writable, then after \<^verbatim>\<open>shutdown()\<close> at most as many such reports as bytes were waiting
  send everything that was accepted, and then the write side is shut down.
\<close>

theorem graceful_shutdown:
  assumes "env_documented env" and "\<And>i len. 0 < len \<Longrightarrow> \<exists>n>0. te_write env i False len = Inr n"
    and "\<And>i. 0 \<le> te_shutdown env i" and "tc_inv w" and "tc_state w = KConnected"
    and "k = length (contents (outputBuffer w))"
  shows "\<exists>w'. bindE (shutdown env True w) (foldE (\<lambda>_. handleWrite env) (replicate k ())) = Inr w'
     \<and> sock_shut w' \<and> accepted w' = accepted w \<and> wire w' = concat (accepted w)"
proof -
  let ?w = "setState KDisconnecting w"
  note i = tc_inv_setState_disconnecting(1)[OF assms(4,5)]
  have f: "tc_state ?w = KDisconnecting" "outputBuffer ?w = outputBuffer w" "accepted ?w = accepted w"
    by (simp_all add: setState_def)
  obtain c where c: "conn_channel ?w = Inr c" "ch_events c = wanted ?w"
    using conn_chan_okE[OF tc_invD(3)[OF i]] by metis
  have wr: "isWriting c \<longleftrightarrow> contents (outputBuffer w) \<noteq> []" using isWriting_wanted[OF c(2)] f by simp
  obtain v where v: "shutdownInLoop env ?w = Inr v" "tc_inv v" "tc_frame ?w v" using shutdownInLoop_ok[OF i] f(1) by auto
  have "outputBuffer v = outputBuffer w" "accepted v = accepted w" "isWriting c \<or> sock_shut v"
    using v(1) c(1) f assms(3)[of "w_calls ?w"] by (auto simp: shutdownInLoop_def socket_shutdownWrite_def log_message_def Let_def not_less
        split: if_splits)
  moreover from this have "length (contents (outputBuffer v)) \<le> k" using assms(6) by simp
  moreover have "tc_state v = KDisconnecting" using v(3) f(1) by (auto simp: tc_frame_def)
  ultimately show ?thesis
    using drain_ok[OF assms(1-3) v(2), of k] v(1) wr assms(5) by (auto simp: shutdown_def Let_def)
qed


theorem graceful_shutdown_witness:
  "\<exists>w w'. sendInLoop demo_tcp ''hello!'' demo_up = Inr w \<and> wire w = ''hell''
     \<and> bindE (shutdown demo_tcp True w) (foldE (\<lambda>_. handleWrite demo_tcp) (replicate 2 ())) = Inr w'
     \<and> sock_shut w' \<and> wire w' = ''hello!''"
proof -
  obtain w where w: "sendInLoop demo_tcp ''hello!'' demo_up = Inr w" "wire w = ''hell''" "contents (outputBuffer w) = ''o!''"
      "accepted w = [''hello!'']" "tc_state w = KConnected"
    using demo_send demo_up(2) by (auto simp: tc_call_def send_def)
  have "tc_inv w"
    using sendInLoop_ok[OF demo_tcp_documented demo_up_ok(1), of "''hello!''"] w(1) by (simp add: max_alloc_def)
  moreover have "\<exists>n>0. te_write demo_tcp i False len = Inr n" if "0 < len" for i len
    using that by (simp add: demo_tcp_def)
  moreover have "0 \<le> te_shutdown demo_tcp i" for i by (simp add: demo_tcp_def)
  moreover have "2 = length (contents (outputBuffer w))" using w(3) by (simp del: length_contents)
  ultimately obtain w' where "bindE (shutdown demo_tcp True w) (foldE (\<lambda>_. handleWrite demo_tcp) (replicate 2 ())) = Inr w'"
      "sock_shut w'" "wire w' = concat (accepted w)"
    using graceful_shutdown[OF demo_tcp_documented, of w 2] w(5) by blast
  then show ?thesis using w by auto
qed

text \<open>
  \<^verbatim>\<open>connnectDestroyed\<close> on a connection that is shutting down (as the destructor of a server calls
  it for every connection it still holds) finds the channel's events enabled, because it
  disables them only in state \<^verbatim>\<open>KConnected\<close>, and the assertion in \<^verbatim>\<open>Channel::remove\<close> fails.
\<close>

theorem destroy_while_disconnecting_fails:
  assumes "tc_inv w" and "tc_state w = KDisconnecting"
  shows "connnectDestroyed env w = Inl Assert_Failed"
proof -
  obtain c where c: "chans (w_poller w) (tc_chan w) = Some c" "ch_events c = wanted w"
    using conn_chan_okE[OF tc_invD(3)[OF assms(1)]] by metis
  then have "\<not> isNoneEvent c" using assms(2) by (simp add: isNoneEvent_def KNoneEvent_def wanted_def)
  then show ?thesis
    using assms(2) c(1) by (simp add: connnectDestroyed_def conn_chan_op_def Channel_remove_def)
qed

theorem destroy_while_disconnecting_fails_witness:
  "\<exists>w. shutdown demo_tcp True demo_up = Inr w \<and> connnectDestroyed demo_tcp w = Inl Assert_Failed"
proof -
  have "tc_call_ok demo_up (shutdown demo_tcp True demo_up)" by (rule tc_call_ok_shutdown[OF demo_up_ok(1)])
  then obtain w where w: "shutdown demo_tcp True demo_up = Inr w" "tc_inv w"
    using tc_inv_setState_disconnecting[OF demo_up_ok(1) demo_up(2)] shutdownInLoop_ok[of "setState KDisconnecting demo_up" demo_tcp]
    by (auto simp: shutdown_def demo_up(2) tc_call_ok_def setState_def Let_def)
  have "tc_state w = KDisconnecting"
    using w(1) by (auto simp: shutdown_def demo_up(2) shutdownInLoop_def bindE_Inr_iff socket_shutdownWrite_def
        log_message_def setState_def Let_def)
  from destroy_while_disconnecting_fails[OF w(2) this] w(1) show ?thesis by blast
qed

text \<open>
  An empty message is written (zero bytes) but never reported complete: \<^verbatim>\<open>sendInLoop\<close> queues the
  write-complete callback only when a positive number of bytes was written.
\<close>

lemma empty_message_never_completes:
  assumes "tc_inv w" and "tc_state w = KConnected" and "contents (outputBuffer w) = []"
    and "te_write env (w_calls w) (sock_shut w) 0 = Inr 0"
  shows "\<exists>w'. sendInLoop env [] w = Inr w' \<and> w_pending w' = w_pending w"
proof -
  note I = tc_invD[OF assms(1)]
  obtain c where c: "conn_channel w = Inr c" "ch_events c = wanted w" using conn_chan_okE[OF I(3)] by metis
  have "\<not> isWriting c" using isWriting_wanted[OF c(2)] assms(3) by simp
  moreover have "readableBytes (outputBuffer w) = 0"
    using readableBytes_contents[OF I(5)] assms(3) by (simp del: length_contents)
  ultimately show ?thesis
    using c(1) assms(2,4) by (simp add: sendInLoop_def sendInLoop_write_def sys_write_def log_message_def Let_def)
qed

end
