(* ===== verification/Timestamp.thy ===== *)
theory Timestamp
  imports Prelude
begin

text \<open>
  Points in time in microseconds, \<^verbatim>\<open>deps/common/base/timestamp.{h,cpp}\<close>: comparison,
  validity, conversion to text and the addition of an interval given as a \<^verbatim>\<open>double\<close>.
  A timestamp is its \<^verbatim>\<open>micro_seconds_since_epoch_\<close>, an \<^verbatim>\<open>int64_t\<close>.
\<close>

type_synonym timestamp = int

definition kMicroSecondsPerSecond :: int where
  "kMicroSecondsPerSecond = 1000000"

definition Timestamp_invalid :: timestamp where
  "Timestamp_invalid = 0"

definition Timestamp_valid :: "timestamp \<Rightarrow> bool" where
  "Timestamp_valid t \<longleftrightarrow> t > 0"

definition Timestamp_less :: "timestamp \<Rightarrow> timestamp \<Rightarrow> bool" where
  "Timestamp_less a b \<longleftrightarrow> a < b"

definition seconds_since_epoch :: "timestamp \<Rightarrow> int" where
  "seconds_since_epoch t = t sdiv kMicroSecondsPerSecond"

text \<open>\<^verbatim>\<open>gettimeofday\<close> fills in the seconds and the microseconds.\<close>

definition Timestamp_now :: "int \<times> int \<Rightarrow> timestamp res" where
  "Timestamp_now tv =
     bindE (i64 (fst tv * kMicroSecondsPerSecond)) (\<lambda>m. i64 (m + snd tv))"

section \<open>Text\<close>

text \<open>
  \<open>fmt_int0 w x\<close> is what \<^verbatim>\<open>printf\<close> writes for \<open>x\<close> with the conversion \<open>%0wd\<close>, and
  \<open>fmt_int w x\<close> with \<open>%wd\<close>.
\<close>

definition fmt_int0 :: "nat \<Rightarrow> int \<Rightarrow> string" where
  "fmt_int0 w x =
     (let d = dec_nat (nat \<bar>x\<bar>); sign = (if x < 0 then ''-'' else '''')
      in sign @ replicate (w - length d - length sign) (CHR ''0'') @ d)"

definition fmt_int :: "nat \<Rightarrow> int \<Rightarrow> string" where
  "fmt_int w x = (let d = dec_int x in replicate (w - length d) (CHR '' '') @ d)"

definition Timestamp_to_string :: "timestamp \<Rightarrow> string" where
  "Timestamp_to_string t =
     (let seconds = t sdiv kMicroSecondsPerSecond;
          microseconds = t smod kMicroSecondsPerSecond
      in take 30 (dec_int seconds @ ''.'' @ fmt_int0 6 microseconds))"

text \<open>
  \<^verbatim>\<open>gmtime_r\<close> of the C library: the proleptic Gregorian calendar date of a day number,
  counted from 1970-01-01, in the usual form with eras of 400 years that start on the
  first of March.
\<close>

definition civil_from_days :: "int \<Rightarrow> int \<times> int \<times> int" where
  "civil_from_days days =
     (let z = days + 719468;
          era = z div 146097;
          doe = z mod 146097;
          yoe = (doe - doe div 1460 + doe div 36524 - doe div 146096) div 365;
          doy = doe - (365 * yoe + yoe div 4 - yoe div 100);
          mp = (5 * doy + 2) div 153;
          d = doy - (153 * mp + 2) div 5 + 1;
          m = (if mp < 10 then mp + 3 else mp - 9);
          y = yoe + era * 400 + (if m \<le> 2 then 1 else 0)
      in (y, m, d))"

definition to_formatted_string :: "timestamp \<Rightarrow> string" where
  "to_formatted_string t =
     (let seconds = t sdiv kMicroSecondsPerSecond;
          microseconds = t smod kMicroSecondsPerSecond;
          (y, m, d) = civil_from_days (seconds div 86400);
          sod = seconds mod 86400
      in take 79 (fmt_int 4 y @ fmt_int0 2 m @ fmt_int0 2 d @ '' ''
          @ fmt_int0 2 (sod div 3600) @ '':'' @ fmt_int0 2 (sod div 60 mod 60) @ '':''
          @ fmt_int0 2 (sod mod 60) @ ''.'' @ fmt_int0 6 microseconds))"

section \<open>Adding an interval\<close>

text \<open>
  A finite \<^verbatim>\<open>double\<close> is \<open>mant * 2 ^ expo\<close> with a mantissa of at most 53 bits.
  Multiplication rounds the exact product to the nearest such number, ties to even;
  exponents stay inside the range of the type for the intervals and times at hand.
  The conversion to \<^verbatim>\<open>int64_t\<close> truncates and is undefined outside the range.
\<close>

datatype double = Double (mant: int) (expo: int)

definition double_ok :: "double \<Rightarrow> bool" where
  "double_ok x \<longleftrightarrow> \<bar>mant x\<bar> < 2 ^ 53"

fun bitlen :: "nat \<Rightarrow> nat" where
  "bitlen n = (if n = 0 then 0 else Suc (bitlen (n div 2)))"

declare bitlen.simps [simp del]

lemma bitlen_numeral [simp]:
  "bitlen 0 = 0" "bitlen 1 = 1" "bitlen (Suc 0) = 1"
  "bitlen (numeral (Num.Bit0 n)) = Suc (bitlen (numeral n))"
  "bitlen (numeral (Num.Bit1 n)) = Suc (bitlen (numeral n))"
  by (subst bitlen.simps, simp)+

definition round_half_even :: "nat \<Rightarrow> nat \<Rightarrow> nat" where
  "round_half_even n k =
     (let q = n div 2 ^ k; r = n mod 2 ^ k
      in if 2 * r < 2 ^ k then q
         else if 2 * r > 2 ^ k then q + 1
         else if even q then q else q + 1)"

definition double_mult_int :: "double \<Rightarrow> int \<Rightarrow> double" where
  "double_mult_int x c =
     (let p = mant x * c; n = nat \<bar>p\<bar>; k = bitlen n - 53
      in Double (sgn p * int (round_half_even n k)) (expo x + int k))"

definition double_to_i64 :: "double \<Rightarrow> int res" where
  "double_to_i64 x =
     i64 (if expo x \<ge> 0 then mant x * 2 ^ nat (expo x)
          else sgn (mant x) * (\<bar>mant x\<bar> div 2 ^ nat (- expo x)))"

definition double_pos :: "double \<Rightarrow> bool" where
  "double_pos x \<longleftrightarrow> mant x > 0"

definition add_time :: "timestamp \<Rightarrow> double \<Rightarrow> timestamp res" where
  "add_time timestamp seconds =
     bindE (double_to_i64 (double_mult_int seconds kMicroSecondsPerSecond)) (\<lambda>delta.
     i64 (timestamp + delta))"

section \<open>Facts\<close>

lemma double_to_i64_nonneg: "double_to_i64 x = Inr d \<Longrightarrow> mant x \<ge> 0 \<Longrightarrow> d \<ge> 0"
  by (auto simp: double_to_i64_def i64_Inr_iff sgn_if pos_imp_zdiv_nonneg_iff)

lemma add_time_failure: "add_time t x = Inl e \<Longrightarrow> e = Undefined"
  by (auto simp: add_time_def bindE_Inl_iff double_to_i64_def i64_Inl_iff)

text \<open>A positive interval never moves a timestamp back.\<close>

lemma add_time_mono:
  assumes "add_time t x = Inr t'" and "double_pos x"
  shows "t \<le> t'"
proof -
  obtain d where d: "double_to_i64 (double_mult_int x kMicroSecondsPerSecond) = Inr d" "t' = t + d"
    using assms(1) by (auto simp: add_time_def bindE_Inr_iff i64_Inr_iff)
  have "mant (double_mult_int x kMicroSecondsPerSecond) \<ge> 0"
    using assms(2) by (simp add: double_mult_int_def Let_def double_pos_def kMicroSecondsPerSecond_def)
  with d show ?thesis using double_to_i64_nonneg by fastforce
qed

text \<open>Whole seconds are added exactly.\<close>

lemma bitlen_le: "n < 2 ^ k \<Longrightarrow> bitlen n \<le> k"
proof (induction k arbitrary: n)
  case 0
  then show ?case by (simp add: bitlen.simps)
next
  case (Suc k)
  then have "n div 2 < 2 ^ k" by (simp add: less_mult_imp_div_less mult.commute)
  with Suc.IH show ?case by (subst bitlen.simps) auto
qed

lemma add_time_seconds:
  assumes "0 \<le> s" and "s < 2 ^ 33" and "in_i64 (t + s * 1000000)"
  shows "add_time t (Double s 0) = Inr (t + s * 1000000)"
proof -
  have "s * 1000000 < 2 ^ 53" using assms(2) by simp
  then have "nat (s * 1000000) < 2 ^ 53" using assms(1) by (simp add: nat_less_iff)
  then have k: "bitlen (nat \<bar>s * 1000000\<bar>) - 53 = 0"
    using bitlen_le assms(1) by simp
  have "double_mult_int (Double s 0) kMicroSecondsPerSecond = Double (s * 1000000) 0"
    using k assms(1) by (auto simp: double_mult_int_def Let_def kMicroSecondsPerSecond_def
        round_half_even_def sgn_if)
  moreover have "in_i64 (s * 1000000)"
    using assms(1,2) by (simp add: in_i64_def)
  ultimately show ?thesis using assms(3) by (simp add: add_time_def double_to_i64_def i64_def)
qed

end
