(* ===== verification/Std_Set.thy ===== *)
theory Std_Set
  imports Prelude "HOL-Library.Product_Lexorder"
begin

text \<open>
  \<^verbatim>\<open>std::set\<close> as the sorted list of its elements: iteration order is list order,
  \<^verbatim>\<open>insert\<close> answers whether the element was new, \<^verbatim>\<open>erase\<close> how many elements it removed,
  \<^verbatim>\<open>lower_bound\<close> splits the list. A pair is ordered lexicographically, as \<^verbatim>\<open>std::pair\<close> is.
\<close>

definition oset_insert :: "'a :: linorder \<Rightarrow> 'a list \<Rightarrow> 'a list \<times> bool" where
  "oset_insert x s = (if x \<in> set s then (s, False) else (insort x s, True))"

definition oset_erase :: "'a :: linorder \<Rightarrow> 'a list \<Rightarrow> 'a list \<times> nat" where
  "oset_erase x s = (if x \<in> set s then (remove1 x s, 1) else (s, 0))"

definition oset_lower_bound :: "'a :: linorder \<Rightarrow> 'a list \<Rightarrow> 'a list \<times> 'a list" where
  "oset_lower_bound x s = (takeWhile (\<lambda>y. y < x) s, dropWhile (\<lambda>y. y < x) s)"

definition oset_ok :: "'a :: linorder list \<Rightarrow> bool" where
  "oset_ok s \<longleftrightarrow> sorted s \<and> distinct s"

lemma oset_ok_Nil [simp]: "oset_ok []"
  by (simp add: oset_ok_def)

lemma oset_ok_insort: "oset_ok s \<Longrightarrow> x \<notin> set s \<Longrightarrow> oset_ok (insort x s)"
  by (simp add: oset_ok_def sorted_insort distinct_insort)

lemma oset_ok_remove1: "oset_ok s \<Longrightarrow> oset_ok (remove1 x s)"
  by (simp add: oset_ok_def sorted_remove1)

lemma set_remove1_oset: "oset_ok s \<Longrightarrow> set (remove1 x s) = set s - {x}"
  by (simp add: oset_ok_def)

lemma oset_ok_tl: "oset_ok (x # s) \<Longrightarrow> oset_ok s \<and> x \<notin> set s \<and> (\<forall>y \<in> set s. x < y)"
  by (auto simp: oset_ok_def order_less_le)

lemma oset_ok_dropWhile: "oset_ok s \<Longrightarrow> oset_ok (dropWhile P s)"
  by (simp add: oset_ok_def sorted_dropWhile)

lemma oset_ok_hd_le: "oset_ok s \<Longrightarrow> y \<in> set s \<Longrightarrow> hd s \<le> y"
  by (cases s) (auto simp: oset_ok_def)

lemma hd_insort: "hd (insort x s) = (if s = [] \<or> x \<le> hd s then x else hd s)"
  by (cases s) auto

lemma sorted_map_fst: "sorted (xs :: ('a :: linorder \<times> 'b :: linorder) list) \<Longrightarrow> sorted (map fst xs)"
proof (induction xs)
  case (Cons x xs)
  then show ?case by (cases x) fastforce
qed simp

lemma oset_lower_bound_filter:
  "sorted s \<Longrightarrow> oset_lower_bound x s = (filter (\<lambda>y. y < x) s, filter (\<lambda>y. \<not> y < x) s)"
proof (induction s)
  case (Cons y s)
  show ?case
  proof (cases "y < x")
    case True
    with Cons show ?thesis by (simp add: oset_lower_bound_def)
  next
    case False
    with Cons.prems have "\<forall>z \<in> set s. \<not> z < x" by auto
    then have "filter (\<lambda>y. y < x) s = []" "filter (\<lambda>y. \<not> y < x) s = s"
      by (simp_all add: filter_empty_conv filter_id_conv)
    with False show ?thesis by (simp add: oset_lower_bound_def)
  qed
qed (simp add: oset_lower_bound_def)

end
