(* ===== verification/Timer_Queue.thy ===== *)
theory Timer_Queue
  imports Interfaces Timestamp Std_Set
begin

text \<open>
  Timers and the timer queue of an event loop,
  \<^verbatim>\<open>plugins/Muduo/muduo/net/{Timer,TimerId,TimerQueue}\<close>.

  \<^item> The \<^verbatim>\<open>Timer\<close> objects live in an explicit heap, so that a dereference of a deleted object
    is a \<open>Use_After_Free\<close> of the model; \<^verbatim>\<open>new\<close> takes the address the allocator answers with
    and throws when that address is not fresh.
  \<^item> \<open>gettimeofday\<close> (the n-th reading of the clock), \<open>timerfd_settime\<close> (its return value) and
    \<open>user_code\<close> (what the n-th run callback does with the queue) are the environment.
  \<^item> A call from another thread reaches the queue through the loop's list of pending functors,
    here \<open>tq_pending\<close>; a call from the loop's own thread acts at once.
  \<^item> \<open>timerfd_armed\<close> is the kernel's side of the timer descriptor: the expiration and
    the relative time it was last armed with and has not yet delivered.
  \<^item> \<open>tq_fired\<close> records the callbacks run and \<open>tq_created\<close> counts the timers created, for the
    statements about them; no operation reads either.
\<close>

section \<open>Timers\<close>

type_synonym addr = nat

record timer =
  callback :: nat
  expiration :: timestamp
  interval :: double
  repeat :: bool
  sequence :: int

definition Timer_new :: "nat \<Rightarrow> timestamp \<Rightarrow> double \<Rightarrow> int \<Rightarrow> timer \<times> int" where
  "Timer_new cb when iv numCreated =
     (let n = wrap64 (numCreated + 1)
      in (\<lparr>callback = cb, expiration = when, interval = iv, repeat = double_pos iv, sequence = n\<rparr>, n))"

definition restart :: "timestamp \<Rightarrow> timer \<Rightarrow> timer res" where
  "restart now t =
     (if repeat t then bindE (add_time now (interval t)) (\<lambda>e. Inr (t\<lparr>expiration := e\<rparr>))
      else Inr (t\<lparr>expiration := Timestamp_invalid\<rparr>))"

datatype timer_id = TimerId (id_timer: addr) (id_sequenct: int)

section \<open>State and environment\<close>

datatype tact = Act_Add addr nat timestamp double | Act_Cancel timer_id

datatype tq_functor = Fun_Add addr | Fun_Cancel timer_id

record tq_env =
  gettimeofday :: "nat \<Rightarrow> int \<times> int"
  timerfd_settime :: "int \<times> int \<Rightarrow> int"
  user_code :: "nat \<Rightarrow> nat \<Rightarrow> tact list"

record timer_queue =
  tq_heap :: "addr \<Rightarrow> timer option"
  numCreated :: int
  timers :: "(timestamp \<times> addr) list"
  activeTimers :: "(addr \<times> int) list"
  callingExpiredTimers :: bool
  cancelingTimers :: "(addr \<times> int) list"
  tq_pending :: "tq_functor list"
  timerfd_armed :: "(timestamp \<times> int \<times> int) option"
  tq_clock :: nat
  tq_runs :: nat
  tq_fired :: "(int \<times> timestamp) list"
  tq_created :: nat

definition TimerQueue_new :: timer_queue where
  "TimerQueue_new =
     \<lparr>tq_heap = Map.empty, numCreated = 0, timers = [], activeTimers = [],
      callingExpiredTimers = False, cancelingTimers = [], tq_pending = [],
      timerfd_armed = None, tq_clock = 0, tq_runs = 0, tq_fired = [], tq_created = 0\<rparr>"

definition UINTPTR_MAX :: nat where
  "UINTPTR_MAX = 2 ^ 64 - 1"

definition deref :: "addr \<Rightarrow> timer_queue \<Rightarrow> timer res" where
  "deref a q = (case tq_heap q a of None \<Rightarrow> Inl Use_After_Free | Some t \<Rightarrow> Inr t)"

definition delete_timer :: "addr \<Rightarrow> timer_queue \<Rightarrow> timer_queue res" where
  "delete_timer a q = bindE (deref a q) (\<lambda>_. Inr (q\<lparr>tq_heap := (tq_heap q)(a := None)\<rparr>))"

section \<open>The timer descriptor\<close>

definition tq_now :: "tq_env \<Rightarrow> timer_queue \<Rightarrow> (timestamp \<times> timer_queue) res" where
  "tq_now env q =
     bindE (Timestamp_now (gettimeofday env (tq_clock q))) (\<lambda>t.
     Inr (t, q\<lparr>tq_clock := Suc (tq_clock q)\<rparr>))"

definition howMuchTimeFromNow :: "timestamp \<Rightarrow> timestamp \<Rightarrow> (int \<times> int) res" where
  "howMuchTimeFromNow when now =
     bindE (i64 (when - now)) (\<lambda>us.
     let us = (if us < 100 then 100 else us)
     in Inr (us sdiv kMicroSecondsPerSecond, (us smod kMicroSecondsPerSecond) * 1000))"

definition readTimerfd :: "bool \<Rightarrow> timer_queue \<Rightarrow> timer_queue" where
  "readTimerfd expired q = (if expired then q\<lparr>timerfd_armed := None\<rparr> else q)"

definition resetTimerfd :: "tq_env \<Rightarrow> timestamp \<Rightarrow> timer_queue \<Rightarrow> timer_queue res" where
  "resetTimerfd env e q =
     bindE (tq_now env q) (\<lambda>(now, q).
     bindE (howMuchTimeFromNow e now) (\<lambda>ts.
     Inr (if timerfd_settime env ts = 0 then q\<lparr>timerfd_armed := Some (e, ts)\<rparr> else q)))"

section \<open>Operations on the loop thread\<close>

definition tq_insert :: "addr \<Rightarrow> timer_queue \<Rightarrow> (bool \<times> timer_queue) res" where
  "tq_insert a q =
     assertE (length (timers q) = length (activeTimers q))
      (bindE (deref a q) (\<lambda>t.
       let when = expiration t;
           earliestChanged = (case timers q of [] \<Rightarrow> True | e # _ \<Rightarrow> when < fst e);
           (ts, new) = oset_insert (when, a) (timers q)
       in assertE new
           (let (acts, new) = oset_insert (a, sequence t) (activeTimers q)
            in assertE new
                (assertE (length ts = length acts)
                  (Inr (earliestChanged, q\<lparr>timers := ts, activeTimers := acts\<rparr>))))))"

definition addTimerInLoop :: "tq_env \<Rightarrow> addr \<Rightarrow> timer_queue \<Rightarrow> timer_queue res" where
  "addTimerInLoop env a q =
     bindE (tq_insert a q) (\<lambda>(earliestChanged, q).
     if earliestChanged then bindE (deref a q) (\<lambda>t. resetTimerfd env (expiration t) q)
     else Inr q)"

definition cancelInLoop :: "timer_id \<Rightarrow> timer_queue \<Rightarrow> timer_queue res" where
  "cancelInLoop tid q =
     assertE (length (timers q) = length (activeTimers q))
      (let timer = (id_timer tid, id_sequenct tid)
       in bindE
           (if timer \<in> set (activeTimers q)
            then bindE (deref (fst timer) q) (\<lambda>t.
                 let (ts, n) = oset_erase (expiration t, fst timer) (timers q)
                 in assertE (n = 1)
                     (bindE (delete_timer (fst timer) (q\<lparr>timers := ts\<rparr>)) (\<lambda>q.
                      Inr (q\<lparr>activeTimers := fst (oset_erase timer (activeTimers q))\<rparr>))))
            else if callingExpiredTimers q
            then Inr (q\<lparr>cancelingTimers := fst (oset_insert timer (cancelingTimers q))\<rparr>)
            else Inr q) (\<lambda>q.
          assertE (length (timers q) = length (activeTimers q)) (Inr q)))"

definition erase_active :: "timestamp \<times> addr \<Rightarrow> timer_queue \<Rightarrow> timer_queue res" where
  "erase_active v q =
     bindE (deref (snd v) q) (\<lambda>t.
     let (acts, n) = oset_erase (snd v, sequence t) (activeTimers q)
     in assertE (n = 1) (Inr (q\<lparr>activeTimers := acts\<rparr>)))"

definition getExpired :: "timestamp \<Rightarrow> timer_queue \<Rightarrow> ((timestamp \<times> addr) list \<times> timer_queue) res" where
  "getExpired now q =
     assertE (length (timers q) = length (activeTimers q))
      (let (expired, rest) = oset_lower_bound (now, UINTPTR_MAX) (timers q)
       in assertE (rest = [] \<or> Timestamp_less now (fst (hd rest)))
           (bindE (foldE erase_active expired (q\<lparr>timers := rest\<rparr>)) (\<lambda>q.
            assertE (length (timers q) = length (activeTimers q)) (Inr (expired, q)))))"

definition reset_one :: "timestamp \<Rightarrow> timestamp \<times> addr \<Rightarrow> timer_queue \<Rightarrow> timer_queue res" where
  "reset_one now v q =
     bindE (deref (snd v) q) (\<lambda>t.
     if repeat t \<and> (snd v, sequence t) \<notin> set (cancelingTimers q)
     then bindE (restart now t) (\<lambda>t'.
          bindE (tq_insert (snd v) (q\<lparr>tq_heap := (tq_heap q)(snd v \<mapsto> t')\<rparr>)) (\<lambda>(_, q). Inr q))
     else delete_timer (snd v) q)"

definition tq_reset :: "tq_env \<Rightarrow> (timestamp \<times> addr) list \<Rightarrow> timestamp \<Rightarrow> timer_queue \<Rightarrow> timer_queue res" where
  "tq_reset env expired now q =
     bindE (foldE (reset_one now) expired q) (\<lambda>q.
     bindE (case timers q of [] \<Rightarrow> Inr Timestamp_invalid
            | v # _ \<Rightarrow> bindE (deref (snd v) q) (\<lambda>t. Inr (expiration t))) (\<lambda>nextExpire.
     if Timestamp_valid nextExpire then resetTimerfd env nextExpire q else Inr q))"

section \<open>Entry points\<close>

text \<open>
  \<^verbatim>\<open>runInLoop\<close> runs the functor when called on the loop thread and queues it otherwise.
\<close>

fun run_functor :: "tq_env \<Rightarrow> tq_functor \<Rightarrow> timer_queue \<Rightarrow> timer_queue res" where
  "run_functor env (Fun_Add a) q = addTimerInLoop env a q"
| "run_functor env (Fun_Cancel tid) q = cancelInLoop tid q"

definition tq_runInLoop :: "tq_env \<Rightarrow> bool \<Rightarrow> tq_functor \<Rightarrow> timer_queue \<Rightarrow> timer_queue res" where
  "tq_runInLoop env in_loop f q =
     (if in_loop then run_functor env f q else Inr (q\<lparr>tq_pending := tq_pending q @ [f]\<rparr>))"

text \<open>
  \<^verbatim>\<open>addTimer\<close> in its two halves: everything up to the hand-over to the loop, and the
  return statement, which reads the sequence number from the object.
\<close>

definition addTimer_submit ::
  "tq_env \<Rightarrow> bool \<Rightarrow> addr \<Rightarrow> nat \<Rightarrow> timestamp \<Rightarrow> double \<Rightarrow> timer_queue \<Rightarrow> timer_queue res" where
  "addTimer_submit env in_loop a cb when iv q =
     (if tq_heap q a \<noteq> None \<or> a = 0 \<or> a \<ge> UINTPTR_MAX then Inl Bad_Alloc
      else let (t, n) = Timer_new cb when iv (numCreated q)
           in tq_runInLoop env in_loop (Fun_Add a)
                (q\<lparr>tq_heap := (tq_heap q)(a \<mapsto> t), numCreated := n,
                   tq_created := Suc (tq_created q)\<rparr>))"

definition addTimer_return :: "addr \<Rightarrow> timer_queue \<Rightarrow> timer_id res" where
  "addTimer_return a q = bindE (deref a q) (\<lambda>t. Inr (TimerId a (sequence t)))"

definition addTimer ::
  "tq_env \<Rightarrow> bool \<Rightarrow> addr \<Rightarrow> nat \<Rightarrow> timestamp \<Rightarrow> double \<Rightarrow> timer_queue \<Rightarrow> (timer_id \<times> timer_queue) res" where
  "addTimer env in_loop a cb when iv q =
     bindE (addTimer_submit env in_loop a cb when iv q) (\<lambda>q.
     bindE (addTimer_return a q) (\<lambda>tid. Inr (tid, q)))"

definition tq_cancel :: "tq_env \<Rightarrow> bool \<Rightarrow> timer_id \<Rightarrow> timer_queue \<Rightarrow> timer_queue res" where
  "tq_cancel env in_loop tid q = tq_runInLoop env in_loop (Fun_Cancel tid) q"

text \<open>
  Running a timer runs user code on the loop thread. The callback object is a member of
  the \<^verbatim>\<open>Timer\<close>, which must therefore still exist when the callback returns.
\<close>

fun run_act :: "tq_env \<Rightarrow> tact \<Rightarrow> timer_queue \<Rightarrow> timer_queue res" where
  "run_act env (Act_Add a cb when iv) q =
     bindE (addTimer env True a cb when iv q) (\<lambda>(_, q). Inr q)"
| "run_act env (Act_Cancel tid) q = tq_cancel env True tid q"

definition Timer_run :: "tq_env \<Rightarrow> timestamp \<times> addr \<Rightarrow> timer_queue \<Rightarrow> timer_queue res" where
  "Timer_run env v q =
     bindE (deref (snd v) q) (\<lambda>t.
     bindE (foldE (run_act env) (user_code env (callback t) (tq_runs q))
             (q\<lparr>tq_runs := Suc (tq_runs q), tq_fired := tq_fired q @ [(sequence t, expiration t)]\<rparr>))
       (\<lambda>q. bindE (deref (snd v) q) (\<lambda>_. Inr q)))"

definition TimerQueue_handleRead :: "tq_env \<Rightarrow> bool \<Rightarrow> timer_queue \<Rightarrow> timer_queue res" where
  "TimerQueue_handleRead env fd_expired q =
     bindE (tq_now env q) (\<lambda>(now, q).
     bindE (getExpired now (readTimerfd fd_expired q)) (\<lambda>(expired, q).
     bindE (foldE (Timer_run env) expired
             (q\<lparr>callingExpiredTimers := True, cancelingTimers := []\<rparr>)) (\<lambda>q.
     tq_reset env expired now (q\<lparr>callingExpiredTimers := False\<rparr>))))"

definition TimerQueue_delete :: "timer_queue \<Rightarrow> timer_queue res" where
  "TimerQueue_delete q = foldE (\<lambda>v. delete_timer (snd v)) (timers q) q"

section \<open>The queue as a machine\<close>

datatype tq_event =
    Ev_Add bool addr nat timestamp double
  | Ev_Cancel bool timer_id
  | Ev_Pending
  | Ev_Timerfd bool

fun tq_step :: "tq_env \<Rightarrow> tq_event \<Rightarrow> timer_queue \<Rightarrow> timer_queue res" where
  "tq_step env (Ev_Add in_loop a cb when iv) q = addTimer_submit env in_loop a cb when iv q"
| "tq_step env (Ev_Cancel in_loop tid) q = tq_cancel env in_loop tid q"
| "tq_step env Ev_Pending q =
     (case tq_pending q of [] \<Rightarrow> Inr q | f # fs \<Rightarrow> run_functor env f (q\<lparr>tq_pending := fs\<rparr>))"
| "tq_step env (Ev_Timerfd fd_expired) q = TimerQueue_handleRead env fd_expired q"

section \<open>Invariant\<close>

fun pend_addrs :: "tq_functor list \<Rightarrow> addr list" where
  "pend_addrs [] = []"
| "pend_addrs (Fun_Add a # fs) = a # pend_addrs fs"
| "pend_addrs (Fun_Cancel tid # fs) = pend_addrs fs"

lemma pend_addrs_append [simp]: "pend_addrs (fs @ gs) = pend_addrs fs @ pend_addrs gs"
  by (induction fs rule: pend_addrs.induct) auto

text \<open>
  \<open>tq_inv X q\<close>: the two sets describe the same timers, every timer in them is alive and
  filed under its expiration, and the live objects are exactly those in the sets, those
  waiting to be added and those in \<open>X\<close>, the expired timers being processed.
\<close>

definition key :: "timer_queue \<Rightarrow> timestamp \<times> addr \<Rightarrow> addr \<times> int" where
  "key q v = (snd v, sequence (the (tq_heap q (snd v))))"

definition tq_inv :: "addr list \<Rightarrow> timer_queue \<Rightarrow> bool" where
  "tq_inv X q \<longleftrightarrow> oset_ok (timers q) \<and> oset_ok (activeTimers q)
     \<and> distinct (map snd (timers q) @ pend_addrs (tq_pending q) @ X)
     \<and> dom (tq_heap q) = set (map snd (timers q) @ pend_addrs (tq_pending q) @ X)
     \<and> (\<forall>v \<in> set (timers q). \<exists>t. tq_heap q (snd v) = Some t \<and> expiration t = fst v)
     \<and> set (activeTimers q) = key q ` set (timers q)
     \<and> (\<forall>a \<in> dom (tq_heap q). 0 < a \<and> a < UINTPTR_MAX)"

lemma tq_invD:
  assumes "tq_inv X q"
  shows "oset_ok (timers q)" "oset_ok (activeTimers q)"
    "distinct (map snd (timers q) @ pend_addrs (tq_pending q) @ X)"
    "dom (tq_heap q) = set (map snd (timers q) @ pend_addrs (tq_pending q) @ X)"
    "\<And>v. v \<in> set (timers q) \<Longrightarrow> \<exists>t. tq_heap q (snd v) = Some t \<and> expiration t = fst v"
    "set (activeTimers q) = key q ` set (timers q)"
    "\<And>a. a \<in> dom (tq_heap q) \<Longrightarrow> 0 < a \<and> a < UINTPTR_MAX"
  using assms unfolding tq_inv_def by blast+

lemma tq_inv_new: "tq_inv [] TimerQueue_new"
  by (simp add: tq_inv_def TimerQueue_new_def)

lemma tq_inv_inj: "tq_inv X q \<Longrightarrow> inj_on (key q) (set (timers q))"
  by (auto simp: tq_inv_def inj_on_def key_def distinct_map)

lemma tq_inv_length:
  assumes "tq_inv X q"
  shows "length (timers q) = length (activeTimers q)"
proof -
  have d: "distinct (map snd (timers q))" "distinct (timers q)" "distinct (activeTimers q)"
    using assms by (auto simp: tq_inv_def oset_ok_def)
  from tq_inv_inj[OF assms] have "card (key q ` set (timers q)) = card (set (timers q))" by (rule card_image)
  then show ?thesis
    using d assms distinct_card[of "timers q"] distinct_card[of "activeTimers q"]
    by (simp add: tq_inv_def)
qed

lemma tq_inv_unique:
  "tq_inv X q \<Longrightarrow> v \<in> set (timers q) \<Longrightarrow> w \<in> set (timers q) \<Longrightarrow> snd v = snd w \<Longrightarrow> v = w"
  by (simp add: tq_inv_def distinct_map inj_on_def)

lemma tq_inv_disjoint:
  assumes "tq_inv X q" and "v \<in> set (timers q)"
  shows "snd v \<notin> set X" and "snd v \<notin> set (pend_addrs (tq_pending q))"
proof -
  have "snd ` set (timers q) \<inter> (set (pend_addrs (tq_pending q)) \<union> set X) = {}"
    using assms(1) by (simp add: tq_inv_def)
  with assms(2) show "snd v \<notin> set X" and "snd v \<notin> set (pend_addrs (tq_pending q))" by blast+
qed

lemma tq_inv_cong:
  assumes "tq_inv X q" and "tq_heap q' = tq_heap q" and "timers q' = timers q"
    and "activeTimers q' = activeTimers q" and "tq_pending q' = tq_pending q"
  shows "tq_inv X q'"
  using assms by (simp add: tq_inv_def key_def)

lemma tq_inv_alive: "tq_inv X q \<Longrightarrow> a \<in> set X \<Longrightarrow> \<exists>t. tq_heap q a = Some t"
  by (auto simp: tq_inv_def)

lemma tq_inv_filed:
  assumes "tq_inv X q" and "tq_heap q a = Some t"
    and "a \<notin> set X" and "a \<notin> set (pend_addrs (tq_pending q))"
  shows "(expiration t, a) \<in> set (timers q)"
proof -
  have "a \<in> snd ` set (timers q)" using tq_invD(4)[OF assms(1)] assms(2-4) by auto
  then obtain v where v: "v \<in> set (timers q)" "snd v = a" by auto
  then show ?thesis using tq_invD(5)[OF assms(1) v(1)] assms(2) by (cases v) auto
qed

lemma deref_Some [simp]: "tq_heap q a = Some t \<Longrightarrow> deref a q = Inr t"
  by (simp add: deref_def)

lemma tq_inv_insert:
  assumes "tq_inv (a # X) q" and "tq_heap q a = Some t"
  shows "tq_inv X (q\<lparr>timers := insort (expiration t, a) (timers q),
                     activeTimers := insort (a, sequence t) (activeTimers q)\<rparr>)"
    and "(expiration t, a) \<notin> set (timers q)" and "(a, sequence t) \<notin> set (activeTimers q)"
proof -
  have a: "a \<notin> snd ` set (timers q)" using assms(1) by (auto simp: tq_inv_def)
  then show 1: "(expiration t, a) \<notin> set (timers q)" by force
  show 2: "(a, sequence t) \<notin> set (activeTimers q)"
    using a assms(1) by (auto simp: tq_inv_def key_def)
  have d: "distinct (map snd (insort (expiration t, a) (timers q)) @ pend_addrs (tq_pending q) @ X)"
    using assms(1) a 1
    by (auto simp: tq_inv_def distinct_map oset_ok_def distinct_insort set_insort_key inj_on_def)
  show "tq_inv X (q\<lparr>timers := insort (expiration t, a) (timers q),
                     activeTimers := insort (a, sequence t) (activeTimers q)\<rparr>)"
    using assms d 1 2 unfolding tq_inv_def
    by (auto simp: oset_ok_insort set_insort_key key_def)
qed

lemma tq_insert_ok:
  assumes "tq_inv (a # X) q" and "tq_heap q a = Some t"
  shows "tq_insert a q = Inr
           (timers q = [] \<or> expiration t < fst (hd (timers q)),
            q\<lparr>timers := insort (expiration t, a) (timers q),
              activeTimers := insort (a, sequence t) (activeTimers q)\<rparr>)"
  using tq_inv_insert[OF assms] tq_inv_length[OF assms(1)] assms(2)
  by (auto simp: tq_insert_def oset_insert_def Let_def split: list.split)

lemma tq_inv_erase:
  assumes "tq_inv X q" and "(e, a) \<in> set (timers q)" and "tq_heap q a = Some t"
  shows "tq_inv (a # X) (q\<lparr>timers := remove1 (e, a) (timers q),
                           activeTimers := remove1 (a, sequence t) (activeTimers q)\<rparr>)"
proof -
  let ?ts = "remove1 (e, a) (timers q)"
  have ok: "oset_ok (timers q)" "oset_ok (activeTimers q)"
    and dis: "distinct (map snd (timers q) @ pend_addrs (tq_pending q) @ X)"
    and dm: "dom (tq_heap q) = set (map snd (timers q) @ pend_addrs (tq_pending q) @ X)"
    using assms(1) by (simp_all add: tq_inv_def)
  have st: "set ?ts = set (timers q) - {(e, a)}" using ok(1) by (simp add: set_remove1_oset)
  have u: "x = e" if "(x, a) \<in> set (timers q)" for x
    using tq_inv_unique[OF assms(1) that assms(2)] by simp
  have im: "snd ` set ?ts = snd ` set (timers q) - {a}"
  proof
    show "snd ` set ?ts \<subseteq> snd ` set (timers q) - {a}" using u st by auto
    show "snd ` set (timers q) - {a} \<subseteq> snd ` set ?ts" 
      unfolding st by auto
  qed
  have ac: "set (remove1 (a, sequence t) (activeTimers q)) = key q ` set ?ts"
  proof -
    have "set (remove1 (a, sequence t) (activeTimers q)) = key q ` set (timers q) - {key q (e, a)}"
      using ok(2) assms(1,3) by (simp add: set_remove1_oset tq_inv_def key_def)
    also have "\<dots> = key q ` (set (timers q) - {(e, a)})"
      using inj_on_image_set_diff[OF tq_inv_inj[OF assms(1)], of "set (timers q)" "{(e, a)}"]
        assms(2) by simp
    finally show ?thesis using st by simp
  qed
  have aX: "a \<notin> set X" "a \<notin> set (pend_addrs (tq_pending q))" using tq_inv_disjoint[OF assms(1,2)] by simp_all
  have ain: "a \<in> snd ` set (timers q)" using imageI[OF assms(2), of snd] by simp
  have "inj_on snd (set ?ts)"
    using dis by (auto simp: st distinct_map intro: inj_on_diff)
  then have dts: "distinct (map snd ?ts)" using ok(1) by (simp add: distinct_map oset_ok_def)
  have "snd ` set ?ts \<inter> (set (pend_addrs (tq_pending q)) \<union> set X) = {}" "distinct (pend_addrs (tq_pending q) @ X)"
    using dis unfolding im by auto
  then have "distinct (map snd ?ts @ pend_addrs (tq_pending q) @ a # X)"
    using dts im aX by simp
  moreover have "dom (tq_heap q) = set (map snd ?ts @ pend_addrs (tq_pending q) @ a # X)"
    unfolding dm set_append set_map im using ain by auto
  moreover have "\<forall>v \<in> set ?ts. \<exists>t. tq_heap q (snd v) = Some t \<and> expiration t = fst v"
    using tq_invD(5)[OF assms(1)] st by blast
  moreover have "\<forall>a \<in> dom (tq_heap q). 0 < a \<and> a < UINTPTR_MAX"
    using tq_invD(7)[OF assms(1)] by blast
  ultimately show ?thesis
    using ac ok by (simp add: tq_inv_def oset_ok_remove1 key_def)
qed

lemma tq_inv_delete:
  assumes "tq_inv (a # X) q"
  shows "tq_inv X (q\<lparr>tq_heap := (tq_heap q)(a := None)\<rparr>)"
proof -
  have a: "a \<notin> snd ` set (timers q)" "a \<notin> set (pend_addrs (tq_pending q))" "a \<notin> set X"
    using assms by (auto simp: tq_inv_def)
  then have n: "\<forall>v \<in> set (timers q). snd v \<noteq> a" by auto
  then have "key (q\<lparr>tq_heap := (tq_heap q)(a := None)\<rparr>) ` set (timers q) = key q ` set (timers q)"
    by (intro image_cong) (auto simp: key_def)
  moreover have "dom ((tq_heap q)(a := None)) = set (map snd (timers q) @ pend_addrs (tq_pending q) @ X)"
    using tq_invD(4)[OF assms] a by auto
  moreover have "\<forall>v \<in> set (timers q). \<exists>t. ((tq_heap q)(a := None)) (snd v) = Some t \<and> expiration t = fst v"
    using tq_invD(5)[OF assms] n by auto
  moreover have "\<forall>b \<in> dom ((tq_heap q)(a := None)). 0 < b \<and> b < UINTPTR_MAX"
    using tq_invD(7)[OF assms] by auto
  ultimately show ?thesis
    using tq_invD(1-3,6)[OF assms] by (simp add: tq_inv_def)
qed

lemma cancelInLoop_ok:
  assumes "tq_inv X q"
  shows "\<exists>q'. cancelInLoop tid q = Inr q' \<and> tq_inv X q' \<and> tq_pending q' = tq_pending q
     \<and> timerfd_armed q' = timerfd_armed q \<and> tq_clock q' = tq_clock q
     \<and> callingExpiredTimers q' = callingExpiredTimers q
     \<and> set (timers q') = {v \<in> set (timers q). key q v \<noteq> (id_timer tid, id_sequenct tid)}
     \<and> (\<forall>a. a \<noteq> id_timer tid \<longrightarrow> tq_heap q' a = tq_heap q a)
     \<and> (\<forall>a \<in> set X. tq_heap q' a = tq_heap q a)"
proof (cases "(id_timer tid, id_sequenct tid) \<in> set (activeTimers q)")
  case False
  then have "\<forall>v \<in> set (timers q). key q v \<noteq> (id_timer tid, id_sequenct tid)"
    using assms unfolding tq_inv_def by (metis imageI)
  with False show ?thesis
    using tq_inv_length[OF assms] assms
    by (auto simp: cancelInLoop_def Let_def intro: tq_inv_cong)
next
  case True
  let ?a = "id_timer tid"
  obtain e where e: "(e, ?a) \<in> set (timers q)" "key q (e, ?a) = (?a, id_sequenct tid)"
    using True assms by (auto simp: tq_inv_def key_def)
  then obtain t where t: "tq_heap q ?a = Some t" "expiration t = e"
    using assms by (fastforce simp: tq_inv_def)
  then have sq: "id_sequenct tid = sequence t" using e(2) by (simp add: key_def)
  let ?q = "q\<lparr>timers := remove1 (e, ?a) (timers q),
              activeTimers := remove1 (?a, sequence t) (activeTimers q)\<rparr>"
  let ?q' = "?q\<lparr>tq_heap := (tq_heap q)(?a := None)\<rparr>"
  have i1: "tq_inv (?a # X) ?q" by (rule tq_inv_erase[OF assms e(1) t(1)])
  have i2: "tq_inv X ?q'" using tq_inv_delete[OF i1] by simp
  have "cancelInLoop tid q = Inr ?q'"
    using True e(1) t sq tq_inv_length[OF assms] tq_inv_length[OF i2]
    by (simp add: cancelInLoop_def Let_def oset_erase_def delete_timer_def deref_def)
  moreover have "set (remove1 (e, ?a) (timers q))
      = {v \<in> set (timers q). key q v \<noteq> (?a, id_sequenct tid)}"
  proof -
    have "oset_ok (timers q)" using assms by (simp add: tq_inv_def)
    moreover have "key q v = (?a, id_sequenct tid) \<longleftrightarrow> v = (e, ?a)" if "v \<in> set (timers q)" for v
      using inj_on_eq_iff[OF tq_inv_inj[OF assms] that e(1)] e(2) by simp
    ultimately show ?thesis by (auto simp: set_remove1_oset)
  qed
  moreover have "?a \<notin> set X" using tq_inv_disjoint(1)[OF assms e(1)] by simp
  ultimately show ?thesis using i2 by (intro exI[of _ ?q']) auto
qed

section \<open>How the population of timers evolves\<close>

text \<open>
  \<open>seq_inv\<close>: as long as fewer than \<open>2 ^ 63\<close> timers were created, live timers carry
  different sequence numbers, all of them below the counter. \<open>evolves q q'\<close>: every timer
  alive in \<open>q'\<close> was alive in \<open>q\<close> under the same number or was created in between, and the
  callbacks run in between belong to such timers.
\<close>

definition live_seq :: "timer_queue \<Rightarrow> int set" where
  "live_seq q = sequence ` ran (tq_heap q)"

definition seq_inv :: "timer_queue \<Rightarrow> bool" where
  "seq_inv q \<longleftrightarrow> numCreated q = wrap64 (int (tq_created q))
     \<and> (int (tq_created q) < 2 ^ 63 \<longrightarrow>
          (\<forall>s \<in> live_seq q. 1 \<le> s \<and> s \<le> int (tq_created q))
          \<and> (\<forall>a b t u. tq_heap q a = Some t \<longrightarrow> tq_heap q b = Some u
               \<longrightarrow> sequence t = sequence u \<longrightarrow> a = b))"

definition new_seq :: "timer_queue \<Rightarrow> timer_queue \<Rightarrow> int set" where
  "new_seq q q' = {wrap64 (int n) | n. tq_created q < n \<and> n \<le> tq_created q'}"

definition evolves :: "timer_queue \<Rightarrow> timer_queue \<Rightarrow> bool" where
  "evolves q q' \<longleftrightarrow> tq_created q \<le> tq_created q' \<and> live_seq q' \<subseteq> live_seq q \<union> new_seq q q'
     \<and> (\<exists>fs. tq_fired q' = tq_fired q @ fs \<and> fst ` set fs \<subseteq> live_seq q \<union> new_seq q q')
     \<and> (seq_inv q \<longrightarrow> seq_inv q')"

lemma new_seq_split:
  "tq_created q \<le> tq_created r \<Longrightarrow> tq_created r \<le> tq_created s
     \<Longrightarrow> new_seq q s = new_seq q r \<union> new_seq r s"
  by (auto simp: new_seq_def) (metis not_le)+

lemma evolves_refl: "evolves q q"
  by (simp add: evolves_def)

lemma evolves_trans:
  assumes "evolves q r" and "evolves r s"
  shows "evolves q s"
proof -
  have n: "new_seq q s = new_seq q r \<union> new_seq r s"
    using assms by (intro new_seq_split) (auto simp: evolves_def)
  obtain fs gs where fg: "tq_fired r = tq_fired q @ fs" "fst ` set fs \<subseteq> live_seq q \<union> new_seq q r"
    "tq_fired s = tq_fired r @ gs" "fst ` set gs \<subseteq> live_seq r \<union> new_seq r s"
    using assms by (auto simp: evolves_def)
  have l: "live_seq r \<subseteq> live_seq q \<union> new_seq q r" "live_seq s \<subseteq> live_seq r \<union> new_seq r s"
    using assms by (auto simp: evolves_def)
  have "fst ` set (fs @ gs) \<subseteq> live_seq q \<union> new_seq q s" using fg(2,4) l(1) n by auto
  moreover have "live_seq s \<subseteq> live_seq q \<union> new_seq q s" using l n by auto
  ultimately show ?thesis using assms fg(1,3) unfolding evolves_def by auto
qed

lemma evolves_same:
  assumes "tq_heap q' = tq_heap q" and "numCreated q' = numCreated q"
    and "tq_created q' = tq_created q" and "tq_fired q' = tq_fired q"
  shows "evolves q q'"
  using assms by (simp add: evolves_def live_seq_def seq_inv_def)

lemma evolves_shrink:
  assumes "tq_heap q' = (tq_heap q)(a := x)"
    and "x = None \<or> (\<exists>t u. x = Some t \<and> tq_heap q a = Some u \<and> sequence t = sequence u)"
    and "numCreated q' = numCreated q"
    and "tq_created q' = tq_created q" and "tq_fired q' = tq_fired q"
  shows "evolves q q'"
proof -
  have old: "\<exists>u. tq_heap q b = Some u \<and> sequence u = sequence t" if "tq_heap q' b = Some t" for b t
    using that assms(1,2) by (auto split: if_splits)
  then have "live_seq q' \<subseteq> live_seq q"
    by (auto simp: live_seq_def ran_def image_iff) metis
  moreover have "seq_inv q \<longrightarrow> seq_inv q'"
  proof
    assume s: "seq_inv q"
    have "a = b" if "int (tq_created q) < 2 ^ 63" "tq_heap q' a = Some t" "tq_heap q' b = Some u"
      "sequence t = sequence u" for a b t u
      using s old[OF that(2)] old[OF that(3)] that(1,4) unfolding seq_inv_def by metis
    with s \<open>live_seq q' \<subseteq> live_seq q\<close> assms(3,4) show "seq_inv q'"
      unfolding seq_inv_def by auto
  qed
  ultimately show ?thesis using assms(4,5) by (auto simp: evolves_def)
qed

lemma wrap64_small: "int n < 2 ^ 63 \<Longrightarrow> wrap64 (int n) = int n"
  by (simp add: wrap64_exact in_i64_def)

lemma wrap64_Suc: "wrap64 (wrap64 x + 1) = wrap64 (x + 1)"
  by (simp add: wrap64_def mod_simps algebra_simps)

lemma evolves_create:
  assumes "tq_heap q a = None" and "Timer_new cb when iv (numCreated q) = (t, n)"
    and "seq_inv q"
  shows "evolves q (q\<lparr>tq_heap := (tq_heap q)(a \<mapsto> t), numCreated := n, tq_created := Suc (tq_created q)\<rparr>)"
    (is "evolves q ?q")
proof -
  have sq: "sequence t = wrap64 (int (Suc (tq_created q)))" "n = sequence t"
    using assms(2,3) wrap64_Suc[of "int (tq_created q)"]
    by (auto simp: Timer_new_def Let_def seq_inv_def add.commute)
  have l: "live_seq ?q = insert (sequence t) (live_seq q)"
    using assms(1) by (simp add: live_seq_def ran_map_upd)
  have n: "sequence t \<in> new_seq q ?q" using sq
    by (auto simp: new_seq_def intro!: exI[of _ "Suc (tq_created q)"])
  have "seq_inv ?q"
  proof (cases "int (Suc (tq_created q)) < 2 ^ 63")
    case True
    then have "sequence t = int (Suc (tq_created q))" using sq wrap64_small by metis
    moreover have "sequence u \<noteq> 1 + int (tq_created q)" if "tq_heap q b = Some u" for b u
      using assms(3) True that by (force simp: seq_inv_def live_seq_def ran_def)
    ultimately show ?thesis using assms(3) True l sq by (auto simp: seq_inv_def) blast
  next
    case False
    then show ?thesis using sq by (simp add: seq_inv_def)
  qed
  then show ?thesis using l n by (auto simp: evolves_def)
qed

section \<open>Adding a timer\<close>

text \<open>
  \<open>armed_ok\<close>: if any timer is waiting, the descriptor is armed for the earliest one or
  before. \<open>pos_inv\<close>: expirations are valid timestamps and repeated intervals positive.
\<close>

definition armed_ok :: "timer_queue \<Rightarrow> bool" where
  "armed_ok q \<longleftrightarrow> (timers q \<noteq> [] \<longrightarrow>
     (\<exists>e ts. timerfd_armed q = Some (e, ts) \<and> e \<le> fst (hd (timers q))))"

definition pos_inv :: "timer_queue \<Rightarrow> bool" where
  "pos_inv q \<longleftrightarrow> (\<forall>a t. tq_heap q a = Some t \<longrightarrow>
     Timestamp_valid (expiration t) \<and> (repeat t \<longrightarrow> double_pos (interval t)))"

definition same_core :: "timer_queue \<Rightarrow> timer_queue \<Rightarrow> bool" where
  "same_core q q' \<longleftrightarrow> tq_heap q' = tq_heap q \<and> numCreated q' = numCreated q
     \<and> tq_created q' = tq_created q \<and> tq_fired q' = tq_fired q \<and> tq_pending q' = tq_pending q
     \<and> callingExpiredTimers q' = callingExpiredTimers q \<and> cancelingTimers q' = cancelingTimers q"

lemma same_core_evolves: "same_core q q' \<Longrightarrow> evolves q q'"
  by (simp add: same_core_def evolves_same)

lemma resetTimerfd_cases:
  "case resetTimerfd env e q of
     Inl f \<Rightarrow> f = Undefined
   | Inr q' \<Rightarrow> same_core q q' \<and> timers q' = timers q \<and> activeTimers q' = activeTimers q
       \<and> ((\<forall>ts. timerfd_settime env ts = 0) \<longrightarrow> (\<exists>ts. timerfd_armed q' = Some (e, ts)))"
  by (auto simp: resetTimerfd_def tq_now_def Timestamp_now_def howMuchTimeFromNow_def i64_def
      same_core_def Let_def split: sum.split)

lemma tq_inv_alloc:
  assumes "tq_inv X q" and "tq_heap q a = None" and "0 < a" and "a < UINTPTR_MAX"
  shows "tq_inv (a # X) (q\<lparr>tq_heap := (tq_heap q)(a \<mapsto> t), numCreated := n, tq_created := m\<rparr>)"
proof -
  have a: "a \<notin> set (map snd (timers q) @ pend_addrs (tq_pending q) @ X)"
    using tq_invD(4)[OF assms(1)] assms(2) by auto
  then have ne: "\<forall>v \<in> set (timers q). snd v \<noteq> a" by auto
  then have "key (q\<lparr>tq_heap := (tq_heap q)(a \<mapsto> t), numCreated := n, tq_created := m\<rparr>) ` set (timers q)
      = key q ` set (timers q)"
    by (intro image_cong) (auto simp: key_def)
  moreover have "\<forall>v \<in> set (timers q). \<exists>u. ((tq_heap q)(a \<mapsto> t)) (snd v) = Some u \<and> expiration u = fst v"
    using ne tq_invD(5)[OF assms(1)] by simp
  moreover have "distinct (map snd (timers q) @ pend_addrs (tq_pending q) @ a # X)"
    using a tq_invD(3)[OF assms(1)] by auto
  moreover have "\<forall>b \<in> dom ((tq_heap q)(a \<mapsto> t)). 0 < b \<and> b < UINTPTR_MAX"
    using tq_invD(7)[OF assms(1)] assms(3,4) by auto
  ultimately show ?thesis
    using tq_invD(1,2,4,6)[OF assms(1)] by (auto simp: tq_inv_def)
qed

lemma tq_inv_push: "tq_inv (a # X) q \<Longrightarrow> tq_inv X (q\<lparr>tq_pending := tq_pending q @ [Fun_Add a]\<rparr>)"
  by (auto simp: tq_inv_def key_def)

lemma tq_inv_pop:
  "tq_inv X q \<Longrightarrow> tq_pending q = Fun_Add a # fs \<Longrightarrow> tq_inv (a # X) (q\<lparr>tq_pending := fs\<rparr>)"
  by (auto simp: tq_inv_def key_def)

lemma tq_inv_skip:
  "tq_inv X q \<Longrightarrow> pend_addrs fs = pend_addrs (tq_pending q) \<Longrightarrow> tq_inv X (q\<lparr>tq_pending := fs\<rparr>)"
  by (simp add: tq_inv_def key_def)

lemma addTimerInLoop_cases:
  assumes "tq_inv (a # X) q"
  shows "case addTimerInLoop env a q of
     Inl f \<Rightarrow> f = Undefined
   | Inr q' \<Rightarrow> tq_inv X q' \<and> same_core q q'
       \<and> set (timers q') = insert (expiration (the (tq_heap q a)), a) (set (timers q))
       \<and> ((\<forall>ts. timerfd_settime env ts = 0) \<longrightarrow> armed_ok q \<longrightarrow> armed_ok q')"
proof -
  obtain t where t: "tq_heap q a = Some t" using tq_inv_alive[OF assms, of a] by auto
  let ?q = "q\<lparr>timers := insort (expiration t, a) (timers q),
              activeTimers := insort (a, sequence t) (activeTimers q)\<rparr>"
  have ins: "tq_insert a q = Inr (timers q = [] \<or> expiration t < fst (hd (timers q)), ?q)"
    by (rule tq_insert_ok[OF assms t])
  have inv: "tq_inv X ?q" by (rule tq_inv_insert(1)[OF assms t])
  have core: "same_core q ?q" by (simp add: same_core_def)
  show ?thesis
  proof (cases "timers q = [] \<or> expiration t < fst (hd (timers q))")
    case False
    then have "addTimerInLoop env a q = Inr ?q" by (simp add: addTimerInLoop_def ins)
    moreover have "fst (hd (insort (expiration t, a) (timers q))) = fst (hd (timers q))"
      using False by (cases "hd (timers q)") (auto simp: hd_insort)
    then have "armed_ok q \<longrightarrow> armed_ok ?q" using False by (auto simp: armed_ok_def)
    ultimately show ?thesis using inv core t by (simp add: set_insort_key)
  next
    case True
    then have eq: "addTimerInLoop env a q = resetTimerfd env (expiration t) ?q"
      by (simp add: addTimerInLoop_def ins t)
    have hd: "fst (hd (insort (expiration t, a) (timers q))) = expiration t"
      using True by (cases "hd (timers q)") (auto simp: hd_insort)
    show ?thesis
    proof (cases "resetTimerfd env (expiration t) ?q")
      case (Inl f)
      then show ?thesis using eq resetTimerfd_cases[where env = env and e = "expiration t" and q = ?q] by simp
    next
      case (Inr q')
      then have r: "same_core ?q q'" "timers q' = timers ?q" "activeTimers q' = activeTimers ?q"
        "(\<forall>ts. timerfd_settime env ts = 0) \<longrightarrow> (\<exists>ts. timerfd_armed q' = Some (expiration t, ts))"
        using resetTimerfd_cases[where env = env and e = "expiration t" and q = ?q] by simp_all
      have "tq_inv X q'" using inv r by (intro tq_inv_cong[OF inv]) (auto simp: same_core_def)
      moreover have "same_core q q'" using r(1) by (simp add: same_core_def)
      ultimately show ?thesis
        using eq Inr r(2,4) hd t by (auto simp: armed_ok_def set_insort_key)
    qed
  qed
qed

section \<open>What callbacks may do\<close>

definition keeps :: "addr list \<Rightarrow> timer_queue \<Rightarrow> timer_queue \<Rightarrow> bool" where
  "keeps X q q' \<longleftrightarrow> evolves q q' \<and> (\<forall>a \<in> set X. tq_heap q' a = tq_heap q a)
     \<and> tq_fired q' = tq_fired q \<and> tq_pending q' = tq_pending q
     \<and> callingExpiredTimers q' = callingExpiredTimers q"

definition tq_ok :: "addr list \<Rightarrow> timer_queue \<Rightarrow> bool" where
  "tq_ok X q \<longleftrightarrow> tq_inv X q \<and> seq_inv q"

fun act_pos :: "tact \<Rightarrow> bool" where
  "act_pos (Act_Add a cb w iv) \<longleftrightarrow> Timestamp_valid w"
| "act_pos (Act_Cancel tid) \<longleftrightarrow> True"

lemma keeps_refl: "keeps X q q"
  by (simp add: keeps_def evolves_refl)

lemma keeps_trans: "keeps X q r \<Longrightarrow> keeps X r s \<Longrightarrow> keeps X q s"
  using evolves_trans unfolding keeps_def by metis

lemma tq_ok_evolves: "tq_inv X q' \<Longrightarrow> seq_inv q \<Longrightarrow> evolves q q' \<Longrightarrow> tq_ok X q'"
  by (simp add: tq_ok_def evolves_def)

lemma addTimer_submit_cases:
  assumes "tq_ok X q"
  shows "case addTimer_submit env in_loop a cb w iv q of
     Inl f \<Rightarrow> f \<in> {Bad_Alloc, Undefined}
   | Inr q' \<Rightarrow> tq_ok X q' \<and> evolves q q' \<and> (\<forall>b. b \<noteq> a \<longrightarrow> tq_heap q' b = tq_heap q b)
       \<and> a \<notin> set X \<and> tq_heap q a = None \<and> tq_heap q' a \<noteq> None
       \<and> tq_fired q' = tq_fired q \<and> callingExpiredTimers q' = callingExpiredTimers q
       \<and> (in_loop \<longrightarrow> tq_pending q' = tq_pending q)
       \<and> (Timestamp_valid w \<longrightarrow> pos_inv q \<longrightarrow> pos_inv q')
       \<and> ((\<forall>ts. timerfd_settime env ts = 0) \<longrightarrow> armed_ok q \<longrightarrow> armed_ok q')"
proof (cases "tq_heap q a \<noteq> None \<or> a = 0 \<or> a \<ge> UINTPTR_MAX")
  case True
  then show ?thesis by (auto simp: addTimer_submit_def)
next
  case False
  obtain t n where t: "Timer_new cb w iv (numCreated q) = (t, n)" by fastforce
  let ?q = "q\<lparr>tq_heap := (tq_heap q)(a \<mapsto> t), numCreated := n, tq_created := Suc (tq_created q)\<rparr>"
  have eq: "addTimer_submit env in_loop a cb w iv q = tq_runInLoop env in_loop (Fun_Add a) ?q"
    using False t by (simp add: addTimer_submit_def)
  have inv: "tq_inv (a # X) ?q" using False assms by (intro tq_inv_alloc) (auto simp: tq_ok_def)
  then have aX: "a \<notin> set X" by (simp add: tq_inv_def)
  have sq: "seq_inv q" using assms by (simp add: tq_ok_def)
  have free: "tq_heap q a = None" using False by simp
  have ev: "evolves q ?q" using evolves_create[OF _ t] False assms by (auto simp: tq_ok_def)
  have pos: "Timestamp_valid w \<longrightarrow> pos_inv q \<longrightarrow> pos_inv ?q"
    using t by (auto simp: pos_inv_def Timer_new_def Let_def)
  have arm: "armed_ok q \<Longrightarrow> armed_ok ?q" by (simp add: armed_ok_def)
  show ?thesis
  proof (cases in_loop)
    case False
    let ?r = "?q\<lparr>tq_pending := tq_pending ?q @ [Fun_Add a]\<rparr>"
    have "evolves ?q ?r" by (rule evolves_same) simp_all
    with ev have e: "evolves q ?r" by (rule evolves_trans)
    moreover have "tq_ok X ?r" by (rule tq_ok_evolves[OF tq_inv_push[OF inv] sq e])
    moreover have "pos_inv ?r = pos_inv ?q" "armed_ok ?r = armed_ok ?q"
      by (simp_all add: pos_inv_def armed_ok_def)
    ultimately show ?thesis
      using False eq aX pos arm free by (simp add: tq_runInLoop_def)
  next
    case True
    show ?thesis
    proof (cases "addTimerInLoop env a ?q")
      case (Inl f)
      then show ?thesis using addTimerInLoop_cases[OF inv, where env = env] eq True
        by (simp add: tq_runInLoop_def)
    next
      case (Inr q')
      then have r: "tq_inv X q'" "same_core ?q q'"
        "(\<forall>ts. timerfd_settime env ts = 0) \<longrightarrow> armed_ok ?q \<longrightarrow> armed_ok q'"
        using addTimerInLoop_cases[OF inv, where env = env] by simp_all
      have e: "evolves q q'" using evolves_trans[OF ev same_core_evolves[OF r(2)]] .
      have "tq_ok X q'" by (rule tq_ok_evolves[OF r(1) sq e])
      moreover have "pos_inv q' = pos_inv ?q" using r(2) by (simp add: pos_inv_def same_core_def)
      moreover have "tq_heap q' = (tq_heap q)(a \<mapsto> t)" "tq_fired q' = tq_fired q"
        "tq_pending q' = tq_pending q" "callingExpiredTimers q' = callingExpiredTimers q"
        using r(2) by (simp_all add: same_core_def)
      ultimately show ?thesis
        using Inr True eq aX pos arm r(3) e free by (simp add: tq_runInLoop_def)
    qed
  qed
qed

lemma cancelInLoop_evolves:
  assumes "tq_inv X q" and "cancelInLoop tid q = Inr q'"
  shows "evolves q q' \<and> tq_fired q' = tq_fired q \<and> (pos_inv q \<longrightarrow> pos_inv q')"
proof -
  from assms(2) have "tq_fired q' = tq_fired q \<and> numCreated q' = numCreated q \<and> tq_created q' = tq_created q
      \<and> (tq_heap q' = tq_heap q \<or> tq_heap q' = (tq_heap q)(id_timer tid := None))"
    by (auto simp: cancelInLoop_def Let_def assertE_Inr_iff bindE_Inr_iff delete_timer_def
        oset_erase_def split: if_splits)
  then show ?thesis
    using evolves_same[of q' q] evolves_shrink[of q' q "id_timer tid" None]
    by (auto simp: pos_inv_def split: if_splits)
qed

lemma cancelInLoop_armed:
  assumes "tq_inv X q" and "cancelInLoop tid q = Inr q'" and "armed_ok q"
  shows "armed_ok q'"
proof (cases "timers q' = []")
  case False
  then have m: "hd (timers q') \<in> set (timers q)" and a: "timerfd_armed q' = timerfd_armed q"
    using cancelInLoop_ok[OF assms(1), of tid] assms(2) by auto
  then have "hd (timers q) \<le> hd (timers q')"
    by (intro oset_ok_hd_le) (auto intro: tq_invD(1)[OF assms(1)])
  then have "fst (hd (timers q)) \<le> fst (hd (timers q'))"
    by (cases "hd (timers q)"; cases "hd (timers q')") auto
  moreover have "timers q \<noteq> []" using m by auto
  ultimately show ?thesis using assms(3) a unfolding armed_ok_def by fastforce
qed (simp add: armed_ok_def)

lemma run_act_cases:
  assumes "tq_ok X q"
  shows "case run_act env act q of
     Inl f \<Rightarrow> f \<in> {Bad_Alloc, Undefined}
   | Inr q' \<Rightarrow> tq_ok X q' \<and> keeps X q q' \<and> (act_pos act \<longrightarrow> pos_inv q \<longrightarrow> pos_inv q')"
proof (cases act)
  case (Act_Cancel tid)
  obtain q' where "cancelInLoop tid q = Inr q'" "tq_inv X q'" "tq_pending q' = tq_pending q"
    "callingExpiredTimers q' = callingExpiredTimers q" "\<forall>a \<in> set X. tq_heap q' a = tq_heap q a"
    using cancelInLoop_ok[of X q tid] assms by (auto simp: tq_ok_def)
  then show ?thesis
    using Act_Cancel cancelInLoop_evolves[of X q tid q'] assms
    by (auto simp: tq_cancel_def tq_runInLoop_def keeps_def tq_ok_def evolves_def)
next
  case (Act_Add a cb w iv)
  show ?thesis
  proof (cases "addTimer_submit env True a cb w iv q")
    case (Inl f)
    then show ?thesis
      using Act_Add addTimer_submit_cases[OF assms, where env = env and in_loop = True and a = a and cb = cb and w = w and iv = iv]
      by (simp add: addTimer_def)
  next
    case (Inr q')
    then have r: "tq_ok X q'" "evolves q q'" "\<forall>b. b \<noteq> a \<longrightarrow> tq_heap q' b = tq_heap q b"
      "a \<notin> set X" "tq_heap q' a \<noteq> None" "tq_fired q' = tq_fired q"
      "callingExpiredTimers q' = callingExpiredTimers q" "tq_pending q' = tq_pending q"
      "Timestamp_valid w \<longrightarrow> pos_inv q \<longrightarrow> pos_inv q'"
      using addTimer_submit_cases[OF assms, where env = env and in_loop = True and a = a and cb = cb and w = w and iv = iv]
      by simp_all
    have "run_act env act q = Inr q'" using Inr r(5) Act_Add by (auto simp: addTimer_def addTimer_return_def)
    then show ?thesis using r Act_Add by (auto simp: keeps_def)
  qed
qed

section \<open>Running expired timers\<close>

definition fired_of :: "timer_queue \<Rightarrow> timestamp \<times> addr \<Rightarrow> int \<times> timestamp" where
  "fired_of q v = (let t = the (tq_heap q (snd v)) in (sequence t, expiration t))"

definition env_pos :: "tq_env \<Rightarrow> bool" where
  "env_pos env \<longleftrightarrow> (\<forall>n t. Timestamp_now (gettimeofday env n) = Inr t \<longrightarrow> Timestamp_valid t)
     \<and> (\<forall>cb n. \<forall>act \<in> set (user_code env cb n). act_pos act)"

lemma run_acts_cases:
  assumes "tq_ok X q"
  shows "case foldE (run_act env) acts q of
     Inl f \<Rightarrow> f \<in> {Bad_Alloc, Undefined}
   | Inr q' \<Rightarrow> tq_ok X q' \<and> (keeps X q q'
       \<and> ((\<forall>act \<in> set acts. act_pos act) \<longrightarrow> pos_inv q \<longrightarrow> pos_inv q'))"
proof (rule foldE_rel[where I = "tq_ok X"])
  show "tq_ok X q" by (rule assms)
  fix act r assume "act \<in> set acts" "tq_ok X r"
  then show "case run_act env act r of Inl f \<Rightarrow> f \<in> {Bad_Alloc, Undefined}
     | Inr q' \<Rightarrow> tq_ok X q' \<and> (keeps X r q' \<and> ((\<forall>act \<in> set acts. act_pos act) \<longrightarrow> pos_inv r \<longrightarrow> pos_inv q'))"
    using run_act_cases[of X r, where env = env and act = act] by (auto split: sum.splits)
qed (auto intro: keeps_refl keeps_trans)

lemma Timer_run_cases:
  assumes "tq_ok X q" and "snd v \<in> set X"
  shows "case Timer_run env v q of
     Inl f \<Rightarrow> f \<in> {Bad_Alloc, Undefined}
   | Inr q' \<Rightarrow> tq_ok X q' \<and> evolves q q' \<and> (\<forall>a \<in> set X. tq_heap q' a = tq_heap q a)
       \<and> tq_fired q' = tq_fired q @ [fired_of q v] \<and> tq_pending q' = tq_pending q
       \<and> (env_pos env \<longrightarrow> pos_inv q \<longrightarrow> pos_inv q')"
proof -
  obtain t where t: "tq_heap q (snd v) = Some t"
    using tq_inv_alive[OF _ assms(2)] assms(1) by (auto simp: tq_ok_def)
  let ?q = "q\<lparr>tq_runs := Suc (tq_runs q), tq_fired := tq_fired q @ [(sequence t, expiration t)]\<rparr>"
  let ?acts = "user_code env (callback t) (tq_runs q)"
  have live: "sequence t \<in> live_seq q" using t by (auto simp: live_seq_def ran_def)
  have ev: "evolves q ?q" using live by (auto simp: evolves_def live_seq_def seq_inv_def)
  have ok: "tq_ok X ?q"
  proof (rule tq_ok_evolves[OF _ _ ev])
    show "tq_inv X ?q" by (rule tq_inv_cong[of X q]) (use assms(1) in \<open>simp_all add: tq_ok_def\<close>)
    show "seq_inv q" using assms(1) by (simp add: tq_ok_def)
  qed
  have pos: "pos_inv ?q = pos_inv q" by (simp add: pos_inv_def)
  show ?thesis
  proof (cases "foldE (run_act env) ?acts ?q")
    case (Inl f)
    then show ?thesis
      using run_acts_cases[OF ok, where env = env and acts = ?acts] t by (simp add: Timer_run_def)
  next
    case (Inr q')
    then have r: "tq_ok X q'" "keeps X ?q q'"
      "(\<forall>act \<in> set ?acts. act_pos act) \<longrightarrow> pos_inv ?q \<longrightarrow> pos_inv q'"
      using run_acts_cases[OF ok, where env = env and acts = ?acts] by simp_all
    then have t': "tq_heap q' (snd v) = Some t" using assms(2) t by (simp add: keeps_def)
    have "evolves q q'" using r(2) evolves_trans[OF ev] by (simp add: keeps_def)
    moreover have "env_pos env \<longrightarrow> pos_inv q \<longrightarrow> pos_inv q'" using r(3) pos by (simp add: env_pos_def)
    ultimately show ?thesis
      using t t' Inr r(1,2) by (simp add: Timer_run_def keeps_def fired_of_def)
  qed
qed

lemma Timer_runs_cases:
  assumes "tq_ok X q" and "set (map snd vs) \<subseteq> set X"
  shows "case foldE (Timer_run env) vs q of
     Inl f \<Rightarrow> f \<in> {Bad_Alloc, Undefined}
   | Inr q' \<Rightarrow> tq_ok X q' \<and> evolves q q' \<and> (\<forall>a \<in> set X. tq_heap q' a = tq_heap q a)
       \<and> tq_fired q' = tq_fired q @ map (fired_of q) vs \<and> tq_pending q' = tq_pending q
       \<and> (env_pos env \<longrightarrow> pos_inv q \<longrightarrow> pos_inv q')"
  using assms
proof (induction vs arbitrary: q)
  case Nil
  then show ?case by (simp add: evolves_refl)
next
  case (Cons v vs)
  have v: "snd v \<in> set X" using Cons.prems by simp
  show ?case
  proof (cases "Timer_run env v q")
    case (Inl f)
    then show ?thesis using Timer_run_cases[OF Cons.prems(1) v, where env = env] by simp
  next
    case (Inr r)
    then have r: "tq_ok X r" "evolves q r" "\<forall>a \<in> set X. tq_heap r a = tq_heap q a"
      "tq_fired r = tq_fired q @ [fired_of q v]" "tq_pending r = tq_pending q"
      "env_pos env \<longrightarrow> pos_inv q \<longrightarrow> pos_inv r"
      using Timer_run_cases[OF Cons.prems(1) v, where env = env] by simp_all
    have same: "map (fired_of r) vs = map (fired_of q) vs"
      using r(3) Cons.prems(2) by (auto simp: fired_of_def)
    show ?thesis
      using Cons.IH[OF r(1)] Cons.prems(2) Inr r same evolves_trans[OF r(2)]
      by (auto split: sum.splits)
  qed
qed

section \<open>Collecting expired timers\<close>

lemma erase_all:
  assumes "oset_ok (activeTimers q)" and "distinct (map snd vs)"
    and "\<forall>v \<in> set vs. tq_heap q (snd v) \<noteq> None \<and> key q v \<in> set (activeTimers q)"
  shows "\<exists>acts. foldE erase_active vs q = Inr (q\<lparr>activeTimers := acts\<rparr>) \<and> oset_ok acts
           \<and> set acts = set (activeTimers q) - key q ` set vs"
  using assms
proof (induction vs arbitrary: q)
  case Nil
  then show ?case by (intro exI[of _ "activeTimers q"]) simp
next
  case (Cons v vs)
  let ?q = "q\<lparr>activeTimers := remove1 (key q v) (activeTimers q)\<rparr>"
  have k: "key ?q = key q" by (auto simp: key_def)
  obtain t where t: "tq_heap q (snd v) = Some t" using Cons.prems(3) by auto
  then have 1: "erase_active v q = Inr ?q"
    using Cons.prems(3) by (simp add: erase_active_def oset_erase_def key_def)
  have st: "set (activeTimers ?q) = set (activeTimers q) - {key q v}"
    using Cons.prems(1) by (simp add: set_remove1_oset)
  have "\<exists>acts. foldE erase_active vs ?q = Inr (?q\<lparr>activeTimers := acts\<rparr>) \<and> oset_ok acts
           \<and> set acts = set (activeTimers ?q) - key ?q ` set vs"
  proof (rule Cons.IH)
    show "oset_ok (activeTimers ?q)" using Cons.prems(1) by (simp add: oset_ok_remove1)
    show "distinct (map snd vs)" using Cons.prems(2) by simp
    have "key q w \<noteq> key q v" if "w \<in> set vs" for w
    proof -
      have "snd w \<in> snd ` set vs" using that by (rule imageI)
      then have "snd w \<noteq> snd v" using Cons.prems(2) by (simp, metis)
      then show ?thesis by (simp add: key_def)
    qed
    then show "\<forall>v \<in> set vs. tq_heap ?q (snd v) \<noteq> None \<and> key ?q v \<in> set (activeTimers ?q)"
      using Cons.prems(3) unfolding st k by auto
  qed
  then show ?case using 1 unfolding st k by auto
qed

lemma expired_split:
  assumes "tq_inv X q"
  shows "oset_lower_bound (now, UINTPTR_MAX) (timers q)
     = (filter (\<lambda>v. fst v \<le> now) (timers q), filter (\<lambda>v. now < fst v) (timers q))"
proof -
  have "v < (now, UINTPTR_MAX) \<longleftrightarrow> fst v \<le> now" if "v \<in> set (timers q)" for v
  proof -
    have "snd v \<in> dom (tq_heap q)" using tq_invD(5)[OF assms that] by auto
    then have "snd v < UINTPTR_MAX" using tq_invD(7)[OF assms] by blast
    then show ?thesis by (cases v) auto
  qed
  then show ?thesis
    using tq_invD(1)[OF assms]
    by (simp add: oset_lower_bound_filter oset_ok_def not_le cong: filter_cong)
qed

lemma getExpired_ok:
  assumes "tq_inv [] q"
  shows "\<exists>q'. getExpired now q = Inr (filter (\<lambda>v. fst v \<le> now) (timers q), q') \<and> same_core q q'
     \<and> tq_inv (map snd (filter (\<lambda>v. fst v \<le> now) (timers q))) q'
     \<and> timers q' = filter (\<lambda>v. now < fst v) (timers q)"
proof -
  let ?ex = "filter (\<lambda>v. fst v \<le> now) (timers q)" and ?re = "filter (\<lambda>v. now < fst v) (timers q)"
  let ?q = "q\<lparr>timers := ?re\<rparr>"
  have k: "key ?q = key q" by (auto simp: key_def)
  have part: "set (timers q) = set ?ex \<union> set ?re" "set ?ex \<inter> set ?re = {}" by auto
  have dis: "distinct (map snd (timers q))" using tq_invD(3)[OF assms] by simp
  have "\<exists>acts. foldE erase_active ?ex ?q = Inr (?q\<lparr>activeTimers := acts\<rparr>) \<and> oset_ok acts
           \<and> set acts = set (activeTimers ?q) - key ?q ` set ?ex"
  proof (rule erase_all)
    show "oset_ok (activeTimers ?q)" using tq_invD(2)[OF assms] by simp
    show "distinct (map snd ?ex)" using dis by (simp add: distinct_map_filter)
    show "\<forall>v \<in> set ?ex. tq_heap ?q (snd v) \<noteq> None \<and> key ?q v \<in> set (activeTimers ?q)"
      using tq_invD(5,6)[OF assms] unfolding k by fastforce
  qed
  then obtain acts where acts: "foldE erase_active ?ex ?q = Inr (?q\<lparr>activeTimers := acts\<rparr>)"
    "oset_ok acts" "set acts = key q ` set (timers q) - key q ` set ?ex"
    using tq_invD(6)[OF assms] unfolding k by auto
  let ?r = "?q\<lparr>activeTimers := acts\<rparr>"
  have "key q ` set (timers q) - key q ` set ?ex = key q ` (set (timers q) - set ?ex)"
    using inj_on_image_set_diff[OF tq_inv_inj[OF assms], of "set (timers q)" "set ?ex"] by auto
  also have "set (timers q) - set ?ex = set ?re" using part by blast
  finally have ka: "set acts = key ?r ` set ?re" using acts(3) by (simp add: key_def)
  have im: "snd ` set (timers q) = snd ` set ?ex \<union> snd ` set ?re" 
    using arg_cong[OF part(1), of "image snd"] by (simp only: image_Un)
  have "inj_on snd (set (timers q))" using dis by (simp add: distinct_map)
  from inj_on_image_Int[OF this, of "set ?ex" "set ?re"] part(2)
  have "snd ` set ?ex \<inter> snd ` set ?re = {}" by simp
  then have "distinct (map snd ?re @ pend_addrs (tq_pending q) @ map snd ?ex)"
    using tq_invD(3)[OF assms] im by (auto simp: distinct_map_filter)
  moreover have "dom (tq_heap q) = set (map snd ?re @ pend_addrs (tq_pending q) @ map snd ?ex)"
    using tq_invD(4)[OF assms] im by auto
  moreover have "oset_ok ?re"
    using tq_invD(1)[OF assms] by (simp add: oset_ok_def sorted_filter[of id, simplified])
  ultimately have inv: "tq_inv (map snd ?ex) ?r"
    using tq_invD(5,7)[OF assms] acts(2) ka unfolding tq_inv_def by simp
  have hd: "?re = [] \<or> now < fst (hd ?re)"
    using hd_in_set[of ?re] by auto
  have "getExpired now q = Inr (?ex, ?r)"
    using acts(1) tq_inv_length[OF assms] tq_inv_length[OF inv] hd
    by (simp add: getExpired_def expired_split[OF assms] Timestamp_less_def)
  then show ?thesis using inv by (auto simp: same_core_def)
qed

end
