(* ===== verification/Timer_Correctness.thy ===== *)
theory Timer_Correctness
  imports Timer_Queue
begin

text \<open>
  What the timer queue guarantees, for every sequence of calls from inside and outside the
  loop thread and whatever the callbacks do with the queue: no assertion fails and no deleted
  timer is touched, exactly the due timers fire, repeated ones are filed again, a cancelled
  one never fires, and the descriptor stays armed for the earliest timer.
\<close>

section \<open>Restarting and deleting\<close>

definition fate :: "timestamp \<Rightarrow> (addr \<times> int) list \<Rightarrow> addr \<Rightarrow> timer \<Rightarrow> timer option" where
  "fate now canc a t =
     (if repeat t \<and> (a, sequence t) \<notin> set canc
      then case add_time now (interval t) of Inr e \<Rightarrow> Some (t\<lparr>expiration := e\<rparr>) | Inl _ \<Rightarrow> None
      else None)"

definition fate_defined :: "timestamp \<Rightarrow> (addr \<times> int) list \<Rightarrow> addr \<Rightarrow> timer \<Rightarrow> bool" where
  "fate_defined now canc a t \<longleftrightarrow>
     (repeat t \<and> (a, sequence t) \<notin> set canc \<longrightarrow> (\<exists>e. add_time now (interval t) = Inr e))"

lemma fate_Some:
  "fate now canc a t = Some u \<Longrightarrow> repeat t \<and> (a, sequence t) \<notin> set canc \<and>
     add_time now (interval t) = Inr (expiration u) \<and> u = t\<lparr>expiration := expiration u\<rparr>"
  by (auto simp: fate_def split: if_splits sum.splits)

lemma tq_inv_upd:
  assumes "tq_inv (a # X) q" and "sequence t = sequence (the (tq_heap q a))"
  shows "tq_inv (a # X) (q\<lparr>tq_heap := (tq_heap q)(a \<mapsto> t)\<rparr>)"
proof -
  have "a \<in> dom (tq_heap q)" using tq_invD(4)[OF assms(1)] by simp
  then have d: "dom ((tq_heap q)(a \<mapsto> t)) = dom (tq_heap q)" by auto
  have ne: "\<forall>v \<in> set (timers q). snd v \<noteq> a"
    using tq_inv_disjoint(1)[OF assms(1)] by fastforce
  have "key (q\<lparr>tq_heap := (tq_heap q)(a \<mapsto> t)\<rparr>) ` set (timers q) = key q ` set (timers q)"
    using ne by (intro image_cong) (auto simp: key_def)
  moreover have "\<forall>v \<in> set (timers q). \<exists>u. ((tq_heap q)(a \<mapsto> t)) (snd v) = Some u \<and> expiration u = fst v"
    using ne tq_invD(5)[OF assms(1)] by simp
  ultimately show ?thesis
    using tq_invD(1-4,6,7)[OF assms(1)] d unfolding tq_inv_def by simp
qed

lemma reset_one_cases:
  assumes "tq_inv (snd v # X) q" and "tq_heap q (snd v) = Some t"
  shows "case reset_one now v q of
     Inl f \<Rightarrow> f = Undefined
   | Inr q' \<Rightarrow> tq_inv X q' \<and> evolves q q'
       \<and> tq_heap q' = (tq_heap q)(snd v := fate now (cancelingTimers q) (snd v) t)
       \<and> fate_defined now (cancelingTimers q) (snd v) t \<and> tq_fired q' = tq_fired q \<and> tq_pending q' = tq_pending q
       \<and> cancelingTimers q' = cancelingTimers q
       \<and> callingExpiredTimers q' = callingExpiredTimers q"
proof (cases "repeat t \<and> (snd v, sequence t) \<notin> set (cancelingTimers q)")
  case False
  let ?q = "q\<lparr>tq_heap := (tq_heap q)(snd v := None)\<rparr>"
  have "reset_one now v q = Inr ?q"
    using False assms(2) by (auto simp: reset_one_def delete_timer_def)
  moreover have "evolves q ?q" by (rule evolves_shrink[of _ _ "snd v" None]) simp_all
  moreover have "fate now (cancelingTimers q) (snd v) t = None" 
    "fate_defined now (cancelingTimers q) (snd v) t" using False by (auto simp: fate_def fate_defined_def)
  ultimately show ?thesis using tq_inv_delete[OF assms(1)] by simp
next
  case True
  show ?thesis
  proof (cases "add_time now (interval t)")
    case (Inl f)
    then show ?thesis
      using True assms(2) add_time_failure by (auto simp: reset_one_def restart_def)
  next
    case (Inr e)
    let ?t = "t\<lparr>expiration := e\<rparr>"
    let ?q = "q\<lparr>tq_heap := (tq_heap q)(snd v \<mapsto> ?t)\<rparr>"
    let ?r = "?q\<lparr>timers := insort (expiration ?t, snd v) (timers ?q),
                 activeTimers := insort (snd v, sequence ?t) (activeTimers ?q)\<rparr>"
    have i: "tq_inv (snd v # X) ?q" by (rule tq_inv_upd[OF assms(1)]) (simp add: assms(2))
    have h: "tq_heap ?q (snd v) = Some ?t" by simp
    have "reset_one now v q = Inr ?r"
      using True Inr assms(2) tq_insert_ok[OF i h] by (simp add: reset_one_def restart_def)
    moreover have "tq_inv X ?r" by (rule tq_inv_insert(1)[OF i h])
    moreover have "evolves q ?r" by (rule evolves_shrink[of _ _ "snd v" "Some ?t"]) (simp_all add: assms(2))
    moreover have "fate now (cancelingTimers q) (snd v) t = Some ?t"
      "fate_defined now (cancelingTimers q) (snd v) t"
      using True Inr by (simp_all add: fate_def fate_defined_def)
    ultimately show ?thesis by simp
  qed
qed

definition reset_heap ::
  "timestamp \<Rightarrow> (addr \<times> int) list \<Rightarrow> addr list \<Rightarrow> (addr \<Rightarrow> timer option) \<Rightarrow> addr \<Rightarrow> timer option" where
  "reset_heap now canc as h a =
     (if a \<in> set as then case h a of Some t \<Rightarrow> fate now canc a t | None \<Rightarrow> None else h a)"

lemma reset_all_cases:
  assumes "tq_inv (map snd vs) q"
  shows "case foldE (reset_one now) vs q of
     Inl f \<Rightarrow> f = Undefined
   | Inr q' \<Rightarrow> tq_inv [] q' \<and> evolves q q'
       \<and> tq_heap q' = reset_heap now (cancelingTimers q) (map snd vs) (tq_heap q)
       \<and> (\<forall>v \<in> set vs. fate_defined now (cancelingTimers q) (snd v) (the (tq_heap q (snd v))))
       \<and> tq_fired q' = tq_fired q \<and> tq_pending q' = tq_pending q
       \<and> cancelingTimers q' = cancelingTimers q
       \<and> callingExpiredTimers q' = callingExpiredTimers q"
  using assms
proof (induction vs arbitrary: q)
  case Nil
  then show ?case by (auto simp: evolves_refl reset_heap_def)
next
  case (Cons v vs)
  have i: "tq_inv (snd v # map snd vs) q" using Cons.prems by simp
  obtain t where t: "tq_heap q (snd v) = Some t" using tq_inv_alive[OF i, of "snd v"] by auto
  have nv: "snd v \<notin> set (map snd vs)" using tq_invD(3)[OF i] by simp
  show ?case
  proof (cases "reset_one now v q")
    case (Inl f)
    then show ?thesis using reset_one_cases[OF i t, where now = now] by simp
  next
    case (Inr r)
    then have r: "tq_inv (map snd vs) r" "evolves q r"
      "tq_heap r = (tq_heap q)(snd v := fate now (cancelingTimers q) (snd v) t)"
      "fate_defined now (cancelingTimers q) (snd v) t" "tq_fired r = tq_fired q" "tq_pending r = tq_pending q"
      "cancelingTimers r = cancelingTimers q" "callingExpiredTimers r = callingExpiredTimers q"
      using reset_one_cases[OF i t, where now = now] by simp_all
    have d: "(\<forall>v \<in> set vs. fate_defined now c (snd v) (the (tq_heap r (snd v))))
        \<longleftrightarrow> (\<forall>v \<in> set vs. fate_defined now c (snd v) (the (tq_heap q (snd v))))" for c
    proof (rule ball_cong[OF refl])
      fix w assume "w \<in> set vs"
      then have "snd w \<noteq> snd v" using nv by (metis image_eqI set_map)
      then show "fate_defined now c (snd w) (the (tq_heap r (snd w)))
          \<longleftrightarrow> fate_defined now c (snd w) (the (tq_heap q (snd w)))" using r(3) by simp
    qed
    have h: "reset_heap now c (map snd vs) (tq_heap r) = reset_heap now c (map snd (v # vs)) (tq_heap q)"
      if "c = cancelingTimers q" for c
      using nv t r(3) that by (intro ext) (auto simp: reset_heap_def)
    show ?thesis
    proof (cases "foldE (reset_one now) vs r")
      case (Inl f)
      then show ?thesis using Inr Cons.IH[OF r(1)] by simp
    next
      case rr: (Inr r')
      then show ?thesis
        using Inr Cons.IH[OF r(1)] r evolves_trans[OF r(2), of r'] h d t by simp
    qed
  qed
qed

section \<open>Handling an expiration\<close>

lemma reset_heap_pos:
  assumes "pos_inv q" and "Timestamp_valid now"
    and "tq_heap q' = reset_heap now c as (tq_heap q)"
  shows "pos_inv q'"
  unfolding pos_inv_def
proof (intro allI impI)
  fix a u assume "tq_heap q' a = Some u"
  then consider "tq_heap q a = Some u"
    | t where "tq_heap q a = Some t" "fate now c a t = Some u"
    using assms(3) by (auto simp: reset_heap_def split: if_splits option.splits)
  then show "Timestamp_valid (expiration u) \<and> (repeat u \<longrightarrow> double_pos (interval u))"
  proof cases
    case 1
    then show ?thesis using assms(1) by (auto simp: pos_inv_def)
  next
    case 2
    note f = fate_Some[OF 2(2)]
    then have d: "double_pos (interval t)" using assms(1) 2(1) by (auto simp: pos_inv_def)
    then have "now \<le> expiration u" using f add_time_mono by blast
    moreover have "interval u = interval t" using f by (metis timer.select_convs(3) timer.surjective timer.update_convs(2))
    ultimately show ?thesis using d assms(2) by (simp add: Timestamp_valid_def)
  qed
qed

lemma tq_reset_cases:
  assumes "tq_inv (map snd vs) q"
  shows "case tq_reset env vs now q of
     Inl f \<Rightarrow> f = Undefined
   | Inr q' \<Rightarrow> tq_inv [] q' \<and> evolves q q'
       \<and> tq_heap q' = reset_heap now (cancelingTimers q) (map snd vs) (tq_heap q)
       \<and> (\<forall>v \<in> set vs. fate_defined now (cancelingTimers q) (snd v) (the (tq_heap q (snd v))))
       \<and> tq_fired q' = tq_fired q \<and> tq_pending q' = tq_pending q
       \<and> cancelingTimers q' = cancelingTimers q
       \<and> callingExpiredTimers q' = callingExpiredTimers q
       \<and> ((\<forall>ts. timerfd_settime env ts = 0) \<longrightarrow> pos_inv q' \<longrightarrow> armed_ok q')"
proof (cases "foldE (reset_one now) vs q")
  case (Inl f)
  then show ?thesis using reset_all_cases[OF assms, where now = now] by (simp add: tq_reset_def)
next
  case (Inr r)
  then have r: "tq_inv [] r" "evolves q r"
    "tq_heap r = reset_heap now (cancelingTimers q) (map snd vs) (tq_heap q)"
    "\<forall>v \<in> set vs. fate_defined now (cancelingTimers q) (snd v) (the (tq_heap q (snd v)))" "tq_fired r = tq_fired q" "tq_pending r = tq_pending q"
    "cancelingTimers r = cancelingTimers q" "callingExpiredTimers r = callingExpiredTimers q"
    using reset_all_cases[OF assms, where now = now] by simp_all
  show ?thesis
  proof (cases "timers r")
    case Nil
    then have "tq_reset env vs now q = Inr r"
      using Inr by (simp add: tq_reset_def Timestamp_valid_def Timestamp_invalid_def)
    then show ?thesis using r Nil by (simp add: armed_ok_def)
  next
    case (Cons v ws)
    then obtain t where t: "tq_heap r (snd v) = Some t" "expiration t = fst v"
      using tq_invD(5)[OF r(1), of v] by auto
    have eq: "tq_reset env vs now q =
        (if Timestamp_valid (fst v) then resetTimerfd env (fst v) r else Inr r)"
      using Inr Cons t by (simp add: tq_reset_def)
    show ?thesis
    proof (cases "Timestamp_valid (fst v)")
      case False
      then have "\<not> pos_inv r" using t unfolding pos_inv_def by metis
      then show ?thesis using False eq r by simp
    next
      case True
      show ?thesis
      proof (cases "resetTimerfd env (fst v) r")
        case (Inl f)
        then show ?thesis
          using True eq resetTimerfd_cases[where env = env and e = "fst v" and q = r] by simp
      next
        case rr: (Inr r')
        then have c: "same_core r r'" "timers r' = timers r" "activeTimers r' = activeTimers r"
          "(\<forall>ts. timerfd_settime env ts = 0) \<longrightarrow> (\<exists>ts. timerfd_armed r' = Some (fst v, ts))"
          using resetTimerfd_cases[where env = env and e = "fst v" and q = r] by simp_all
        have "tq_inv [] r'"
          by (rule tq_inv_cong[OF r(1)]) (use c in \<open>simp_all add: same_core_def\<close>)
        moreover have "evolves q r'" by (rule evolves_trans[OF r(2) same_core_evolves[OF c(1)]])
        moreover have "(\<forall>ts. timerfd_settime env ts = 0) \<longrightarrow> armed_ok r'"
          using c(2,4) Cons by (auto simp: armed_ok_def)
        ultimately show ?thesis using True eq rr r c(1) by (simp add: same_core_def)
      qed
    qed
  qed
qed

lemma evolves_seq_inv: "evolves q q' \<Longrightarrow> seq_inv q \<Longrightarrow> seq_inv q'"
  by (simp add: evolves_def)

lemma handleRead_cases:
  assumes "tq_ok [] q"
  shows "case TimerQueue_handleRead env b q of
     Inl f \<Rightarrow> f \<in> {Bad_Alloc, Undefined}
   | Inr q' \<Rightarrow> tq_ok [] q' \<and> evolves q q'
       \<and> (\<exists>now. Timestamp_now (gettimeofday env (tq_clock q)) = Inr now
            \<and> tq_fired q' = tq_fired q @ map (fired_of q) (filter (\<lambda>v. fst v \<le> now) (timers q))
            \<and> (\<forall>v \<in> set (timers q). fst v \<le> now \<longrightarrow>
                 tq_heap q' (snd v) = fate now (cancelingTimers q') (snd v) (the (tq_heap q (snd v)))
                 \<and> fate_defined now (cancelingTimers q') (snd v) (the (tq_heap q (snd v)))))
       \<and> tq_pending q' = tq_pending q
       \<and> (env_pos env \<longrightarrow> (\<forall>ts. timerfd_settime env ts = 0) \<longrightarrow> pos_inv q \<longrightarrow> pos_inv q' \<and> armed_ok q')"
proof (cases "Timestamp_now (gettimeofday env (tq_clock q))")
  case (Inl f)
  then have "f = Undefined" by (auto simp: Timestamp_now_def bindE_Inl_iff i64_Inl_iff)
  with Inl show ?thesis by (simp add: TimerQueue_handleRead_def tq_now_def)
next
  case (Inr now)
  let ?ex = "filter (\<lambda>v. fst v \<le> now) (timers q)"
  let ?q = "readTimerfd b (q\<lparr>tq_clock := Suc (tq_clock q)\<rparr>)"
  have inv: "tq_inv [] q" and sq: "seq_inv q" using assms by (simp_all add: tq_ok_def)
  have q1: "same_core q ?q" "timers ?q = timers q" "activeTimers ?q = activeTimers q"
    by (simp_all add: readTimerfd_def same_core_def)
  have i1: "tq_inv [] ?q" by (rule tq_inv_cong[OF inv]) (use q1 in \<open>simp_all add: same_core_def\<close>)
  obtain q2 where q2: "getExpired now ?q = Inr (?ex, q2)" "same_core ?q q2" "tq_inv (map snd ?ex) q2"
    using getExpired_ok[OF i1, of now] q1(2) by auto
  let ?q3 = "q2\<lparr>callingExpiredTimers := True, cancelingTimers := []\<rparr>"
  have i3: "tq_inv (map snd ?ex) ?q3" by (rule tq_inv_cong[OF q2(3)]) simp_all
  have h3: "tq_heap ?q3 = tq_heap q" "tq_fired ?q3 = tq_fired q" "tq_pending ?q3 = tq_pending q"
    using q1(1) q2(2) by (simp_all add: same_core_def)
  have e3: "evolves q ?q3"
    by (rule evolves_same) (use q1(1) q2(2) in \<open>simp_all add: same_core_def\<close>)
  have ok3: "tq_ok (map snd ?ex) ?q3" by (rule tq_ok_evolves[OF i3 sq e3])
  have f3: "fired_of ?q3 = fired_of q" using h3(1) by (intro ext) (simp add: fired_of_def)
  have p3: "pos_inv ?q3 = pos_inv q" using h3(1) by (simp add: pos_inv_def)
  note runs = Timer_runs_cases[OF ok3 subset_refl, where env = env]
  have eq: "TimerQueue_handleRead env b q = bindE (foldE (Timer_run env) ?ex ?q3)
      (\<lambda>q. tq_reset env ?ex now (q\<lparr>callingExpiredTimers := False\<rparr>))"
    using Inr q2(1) by (simp add: TimerQueue_handleRead_def tq_now_def)
  show ?thesis
  proof (cases "foldE (Timer_run env) ?ex ?q3")
    case (Inl f)
    then show ?thesis using runs eq by simp
  next
    case q4: (Inr q4)
    then have r4: "tq_ok (map snd ?ex) q4" "evolves ?q3 q4" "\<forall>a \<in> set (map snd ?ex). tq_heap q4 a = tq_heap q a"
      "tq_fired q4 = tq_fired q @ map (fired_of q) ?ex" "tq_pending q4 = tq_pending q"
      "env_pos env \<longrightarrow> pos_inv q \<longrightarrow> pos_inv q4"
      using runs h3 f3 p3 by simp_all
    let ?q5 = "q4\<lparr>callingExpiredTimers := False\<rparr>"
    have i5: "tq_inv (map snd ?ex) ?q5"
      by (rule tq_inv_cong[of _ q4]) (use r4(1) in \<open>simp_all add: tq_ok_def\<close>)
    have e5: "evolves q ?q5"
      by (rule evolves_trans[OF evolves_trans[OF e3 r4(2)] evolves_same]) simp_all
    note reset = tq_reset_cases[OF i5, where env = env and now = now]
    show ?thesis
    proof (cases "tq_reset env ?ex now ?q5")
      case (Inl f)
      then show ?thesis using reset eq q4 by simp
    next
      case q6: (Inr q6)
      then have r6: "tq_inv [] q6" "evolves ?q5 q6"
        "tq_heap q6 = reset_heap now (cancelingTimers q4) (map snd ?ex) (tq_heap q4)"
        "tq_fired q6 = tq_fired q4" "tq_pending q6 = tq_pending q4"
        "cancelingTimers q6 = cancelingTimers q4"
        "(\<forall>ts. timerfd_settime env ts = 0) \<longrightarrow> pos_inv q6 \<longrightarrow> armed_ok q6"
        "\<forall>v \<in> set ?ex. fate_defined now (cancelingTimers q4) (snd v) (the (tq_heap q4 (snd v)))"
        using reset by simp_all
      have e6: "evolves q q6" by (rule evolves_trans[OF e5 r6(2)])
      have "tq_heap q6 (snd v) = fate now (cancelingTimers q6) (snd v) (the (tq_heap q (snd v)))
          \<and> fate_defined now (cancelingTimers q6) (snd v) (the (tq_heap q (snd v)))"
        if v: "v \<in> set (timers q)" "fst v \<le> now" for v
      proof -
        have m: "snd v \<in> set (map snd ?ex)" using v by (auto intro!: image_eqI[of _ _ v])
        then have "tq_heap q4 (snd v) = tq_heap q (snd v)" using r4(3) by blast
        moreover obtain t where "tq_heap q (snd v) = Some t" using tq_invD(5)[OF inv v(1)] by auto
        moreover have "fate_defined now (cancelingTimers q4) (snd v) (the (tq_heap q4 (snd v)))"
          using bspec[OF r6(8), of v] v by simp
        ultimately show ?thesis using m r6(3,6) by (simp add: reset_heap_def)
      qed
      moreover have "pos_inv q6" if "env_pos env" "pos_inv q"
        using reset_heap_pos[OF _ _ r6(3)] r4(6) that Inr by (simp add: env_pos_def)
      moreover have "tq_ok [] q6" by (rule tq_ok_evolves[OF r6(1) sq e6])
      ultimately show ?thesis using eq q4 q6 e6 Inr r6(4,5,7) r4(4,5) by simp
    qed
  qed
qed

section \<open>All events\<close>

fun event_pos :: "tq_event \<Rightarrow> bool" where
  "event_pos (Ev_Add in_loop a cb w iv) \<longleftrightarrow> Timestamp_valid w"
| "event_pos _ \<longleftrightarrow> True"

definition env_live :: "tq_env \<Rightarrow> bool" where
  "env_live env \<longleftrightarrow> env_pos env \<and> (\<forall>ts. timerfd_settime env ts = 0)"

lemma run_functor_cases:
  assumes "tq_ok [] q" and "tq_pending q = f # fs"
  shows "case run_functor env f (q\<lparr>tq_pending := fs\<rparr>) of
     Inl e \<Rightarrow> e = Undefined
   | Inr q' \<Rightarrow> tq_ok [] q' \<and> evolves q q'
       \<and> (env_live env \<longrightarrow> pos_inv q \<longrightarrow> armed_ok q \<longrightarrow> pos_inv q' \<and> armed_ok q')"
proof (cases f)
  case (Fun_Add a)
  let ?q = "q\<lparr>tq_pending := fs\<rparr>"
  have i: "tq_inv [a] ?q" using tq_inv_pop[of "[]" q a fs] assms Fun_Add by (simp add: tq_ok_def)
  show ?thesis
  proof (cases "addTimerInLoop env a ?q")
    case (Inl e)
    then show ?thesis using addTimerInLoop_cases[OF i, where env = env] Fun_Add by simp
  next
    case (Inr q')
    then have r: "tq_inv [] q'" "same_core ?q q'"
      "(\<forall>ts. timerfd_settime env ts = 0) \<longrightarrow> armed_ok ?q \<longrightarrow> armed_ok q'"
      using addTimerInLoop_cases[OF i, where env = env] by simp_all
    have e: "evolves q q'" by (rule evolves_same) (use r(2) in \<open>simp_all add: same_core_def\<close>)
    have "pos_inv q' = pos_inv q" using r(2) by (simp add: pos_inv_def same_core_def)
    moreover have "armed_ok ?q = armed_ok q" by (simp add: armed_ok_def)
    moreover have "tq_ok [] q'" using tq_ok_evolves[OF r(1) _ e] assms(1) by (simp add: tq_ok_def)
    ultimately show ?thesis using Fun_Add Inr r(3) e by (auto simp: env_live_def)
  qed
next
  case (Fun_Cancel tid)
  let ?q = "q\<lparr>tq_pending := fs\<rparr>"
  have i: "tq_inv [] ?q" using tq_inv_skip[of "[]" q fs] assms Fun_Cancel by (simp add: tq_ok_def)
  obtain q' where q': "cancelInLoop tid ?q = Inr q'" "tq_inv [] q'"
    using cancelInLoop_ok[OF i, of tid] by auto
  note c = cancelInLoop_evolves[OF i q'(1)]
  have "evolves q ?q" by (rule evolves_same) simp_all
  then have e: "evolves q q'" using c evolves_trans by blast
  have "pos_inv ?q = pos_inv q" "armed_ok ?q = armed_ok q" by (simp_all add: pos_inv_def armed_ok_def)
  then show ?thesis
    using Fun_Cancel q' c e tq_ok_evolves[OF q'(2) _ e] cancelInLoop_armed[OF i q'(1)] assms(1)
    by (simp add: tq_ok_def)
qed

lemma tq_step_cases:
  assumes "tq_ok [] q"
  shows "case tq_step env ev q of
     Inl f \<Rightarrow> f \<in> {Bad_Alloc, Undefined}
   | Inr q' \<Rightarrow> tq_ok [] q' \<and> evolves q q'
       \<and> (env_live env \<longrightarrow> event_pos ev \<longrightarrow> pos_inv q \<longrightarrow> armed_ok q \<longrightarrow> pos_inv q' \<and> armed_ok q')"
proof (cases ev)
  case (Ev_Add il a cb w iv)
  then show ?thesis
    using addTimer_submit_cases[OF assms, where env = env and in_loop = il and a = a and cb = cb and w = w and iv = iv]
    by (auto simp: env_live_def split: sum.splits)
next
  case (Ev_Timerfd b)
  then show ?thesis
    using handleRead_cases[OF assms, where env = env and b = b]
    by (auto simp: env_live_def split: sum.splits)
next
  case Ev_Pending
  then show ?thesis
    using run_functor_cases[OF assms, where env = env] assms
    by (auto simp: evolves_refl split: list.splits sum.splits)
next
  case (Ev_Cancel il tid)
  have i: "tq_inv [] q" "seq_inv q" using assms by (simp_all add: tq_ok_def)
  show ?thesis
  proof (cases il)
    case True
    obtain q' where q': "cancelInLoop tid q = Inr q'" "tq_inv [] q'"
      using cancelInLoop_ok[OF i(1), of tid] by auto
    then show ?thesis
      using True Ev_Cancel cancelInLoop_evolves[OF i(1) q'(1)] cancelInLoop_armed[OF i(1) q'(1)]
        tq_ok_evolves[OF q'(2) i(2)]
      by (simp add: tq_cancel_def tq_runInLoop_def)
  next
    case False
    let ?q = "q\<lparr>tq_pending := tq_pending q @ [Fun_Cancel tid]\<rparr>"
    have e: "evolves q ?q" by (rule evolves_same) simp_all
    have "tq_inv [] ?q" by (rule tq_inv_skip[OF i(1)]) simp
    then show ?thesis
      using False Ev_Cancel e tq_ok_evolves[OF _ i(2) e]
      by (simp add: tq_cancel_def tq_runInLoop_def pos_inv_def armed_ok_def)
  qed
qed

definition tq_live :: "tq_env \<Rightarrow> timer_queue \<Rightarrow> bool" where
  "tq_live env q \<longleftrightarrow> tq_ok [] q \<and> (env_live env \<longrightarrow> pos_inv q \<and> armed_ok q)"


interpretation tq_armed: event_machine "tq_live env" event_pos "{Bad_Alloc, Undefined}" "tq_step env" for env
proof
  fix q ev q' f assume i: "tq_live env q" and g: "event_pos ev"
  then have o: "tq_ok [] q" by (simp add: tq_live_def)
  show "tq_step env ev q = Inr q' \<Longrightarrow> tq_live env q'"
    and "tq_step env ev q = Inl f \<Longrightarrow> f \<in> {Bad_Alloc, Undefined}"
    using tq_step_cases[OF o, where env = env and ev = ev] i g by (auto simp: tq_live_def)
qed

lemma tq_ok_new: "tq_ok [] TimerQueue_new"
  by (simp add: tq_ok_def tq_inv_new seq_inv_def) (simp add: TimerQueue_new_def live_seq_def wrap64_def)

lemma tq_live_new: "tq_live env TimerQueue_new"
  by (simp add: tq_live_def tq_ok_new pos_inv_def armed_ok_def) (simp add: TimerQueue_new_def)

lemma tq_run_evolves:
  assumes "tq_ok [] q" and "foldE (tq_step env) es q = Inr q'"
  shows "tq_ok [] q' \<and> evolves q q'"
proof -
  have "case foldE (tq_step env) es q of Inl f \<Rightarrow> f \<in> {Bad_Alloc, Undefined}
      | Inr s' \<Rightarrow> tq_ok [] s' \<and> evolves q s'"
    by (rule foldE_rel[where I = "tq_ok []" and R = evolves, OF assms(1)])
      (use tq_step_cases in \<open>fastforce split: sum.splits\<close>, auto intro: evolves_refl evolves_trans)
  then show ?thesis using assms(2) by simp
qed

section \<open>Properties\<close>


text \<open>
  C18: When the timer descriptor becomes readable, exactly the timers due at the time read from the
  clock are run, in the order of their expirations, whatever the callbacks do meanwhile.
  Afterwards a repeating timer that was not cancelled is filed one interval later, and every
  other timer that ran is deleted.
\<close>

theorem due_timers_fire:
  assumes "tq_ok [] q" and "TimerQueue_handleRead env fd q = Inr q'"
  shows "\<exists>now. Timestamp_now (gettimeofday env (tq_clock q)) = Inr now
     \<and> tq_fired q' = tq_fired q @ map (fired_of q) (filter (\<lambda>v. fst v \<le> now) (timers q))
     \<and> sorted (map fst (filter (\<lambda>v. fst v \<le> now) (timers q)))
     \<and> (\<forall>(e, a) \<in> set (timers q). e \<le> now \<longrightarrow> (\<exists>t. tq_heap q a = Some t \<and>
          (if repeat t \<and> (a, sequence t) \<notin> set (cancelingTimers q')
           then \<exists>e'. add_time now (interval t) = Inr e' \<and> (e', a) \<in> set (timers q')
                     \<and> tq_heap q' a = Some (t\<lparr>expiration := e'\<rparr>)
           else tq_heap q' a = None)))"
proof -
  note h = handleRead_cases[OF assms(1), where env = env and b = fd]
  then obtain now where now: "Timestamp_now (gettimeofday env (tq_clock q)) = Inr now"
    "tq_fired q' = tq_fired q @ map (fired_of q) (filter (\<lambda>v. fst v \<le> now) (timers q))"
    "\<forall>v \<in> set (timers q). fst v \<le> now \<longrightarrow>
        tq_heap q' (snd v) = fate now (cancelingTimers q') (snd v) (the (tq_heap q (snd v)))
        \<and> fate_defined now (cancelingTimers q') (snd v) (the (tq_heap q (snd v)))"
    using assms(2) by auto
  have ok': "tq_ok [] q'" and pend: "tq_pending q' = tq_pending q" using h assms(2) by simp_all
  have i: "tq_inv [] q" "tq_inv [] q'" using assms(1) ok' by (simp_all add: tq_ok_def)
  have "sorted (timers q)" using tq_invD(1)[OF i(1)] by (simp add: oset_ok_def)
  then have so: "sorted (map fst (filter (\<lambda>v. fst v \<le> now) (timers q)))"
    by (intro sorted_filter sorted_map_fst)
  have "\<exists>t. tq_heap q a = Some t \<and>
          (if repeat t \<and> (a, sequence t) \<notin> set (cancelingTimers q')
           then \<exists>e'. add_time now (interval t) = Inr e' \<and> (e', a) \<in> set (timers q')
                     \<and> tq_heap q' a = Some (t\<lparr>expiration := e'\<rparr>)
           else tq_heap q' a = None)" if v: "(e, a) \<in> set (timers q)" "e \<le> now" for e a
  proof -
    obtain t where t: "tq_heap q a = Some t" using tq_invD(5)[OF i(1) v(1)] by auto
    have f: "tq_heap q' a = fate now (cancelingTimers q') a t"
      and d: "fate_defined now (cancelingTimers q') a t" using now(3) v t by fastforce+
    have np: "a \<notin> set (pend_addrs (tq_pending q'))"
      using tq_inv_disjoint(2)[OF i(1) v(1)] pend by simp
    show ?thesis
    proof (cases "repeat t \<and> (a, sequence t) \<notin> set (cancelingTimers q')")
      case False
      then show ?thesis using t f by (auto simp: fate_def)
    next
      case True
      then obtain e' where e': "add_time now (interval t) = Inr e'"
        using d by (auto simp: fate_defined_def)
      then have h': "tq_heap q' a = Some (t\<lparr>expiration := e'\<rparr>)" using f True by (simp add: fate_def)
      then have "(e', a) \<in> set (timers q')" using tq_inv_filed[OF i(2) h' _ np] by simp
      then show ?thesis using t e' h' True by auto
    qed
  qed
  then show ?thesis using now(1,2) so by blast
qed

text \<open>An environment whose clock advances by one second at each reading, for the witnesses.\<close>

definition demo_env :: tq_env where
  "demo_env = \<lparr>gettimeofday = (\<lambda>n. (int n + 1, 0)), timerfd_settime = (\<lambda>_. 0),
               user_code = (\<lambda>cb n. if cb = 7 then [Act_Cancel (TimerId 16 2)] else [])\<rparr>"

definition demo_queue :: timer_queue where
  "demo_queue =
     \<lparr>tq_heap = [8 \<mapsto> \<lparr>callback = 7, expiration = 1000000, interval = Double 1 0, repeat = True, sequence = 1\<rparr>,
                 16 \<mapsto> \<lparr>callback = 0, expiration = 1500000, interval = Double 1 0, repeat = True, sequence = 2\<rparr>],
      numCreated = 2, timers = [(1000000, 8), (1500000, 16)], activeTimers = [(8, 1), (16, 2)],
      callingExpiredTimers = False, cancelingTimers = [], tq_pending = [],
      timerfd_armed = Some (1000000, 0, 100000), tq_clock = 1, tq_runs = 0, tq_fired = [],
      tq_created = 2\<rparr>"

lemmas timer_eval = tq_now_def Timestamp_now_def i64_def in_i64_def kMicroSecondsPerSecond_def
  resetTimerfd_def howMuchTimeFromNow_def tq_insert_def oset_insert_def addTimerInLoop_def deref_def
  tq_runInLoop_def addTimer_submit_def Timer_new_def wrap64_def UINTPTR_MAX_def TimerQueue_new_def
  double_pos_def demo_env_def Let_def TimerQueue_handleRead_def readTimerfd_def getExpired_def
  oset_lower_bound_def Timestamp_less_def erase_active_def oset_erase_def Timer_run_def
  tq_cancel_def cancelInLoop_def delete_timer_def tq_reset_def reset_one_def restart_def
  add_time_def double_to_i64_def double_mult_int_def round_half_even_def
  Timestamp_valid_def Timestamp_invalid_def addTimer_def addTimer_return_def

definition demo_events :: "tq_event list" where
  "demo_events = [Ev_Add True 8 7 1000000 (Double 1 0), Ev_Add True 16 0 1500000 (Double 1 0)]"

lemma demo_queue_run: "foldE (tq_step demo_env) demo_events TimerQueue_new = Inr demo_queue"
  by (simp add: timer_eval demo_queue_def demo_events_def)

lemma demo_queue_ok: "tq_ok [] demo_queue"
  using tq_run_evolves[OF tq_ok_new demo_queue_run] by simp

theorem due_timers_fire_witness:
  "\<exists>q'. TimerQueue_handleRead demo_env True demo_queue = Inr q'
     \<and> tq_fired q' = [(1, 1000000), (2, 1500000)] \<and> timers q' = [(3000000, 8)]"
proof -
  obtain q' where q': "TimerQueue_handleRead demo_env True demo_queue = Inr q'" "timers q' = [(3000000, 8)]"
    by (simp add: timer_eval demo_queue_def)
  then show ?thesis
    using due_timers_fire[OF demo_queue_ok q'(1)]
    by (auto simp: timer_eval demo_queue_def fired_of_def)
qed

lemma dead_timer_never_fires:
  assumes "tq_ok [] q" and "tq_ok [] q1" and "evolves q q1" and "tq_heap q a = Some t" and "tq_heap q1 a = None"
    and "\<forall>b. b \<noteq> a \<longrightarrow> tq_heap q1 b = tq_heap q b" and "foldE (tq_step env) events q1 = Inr q2"
    and "int (tq_created q2) < 2 ^ 63" and "tq_fired q1 = tq_fired q"
  shows "\<exists>later. tq_fired q2 = tq_fired q @ later \<and> sequence t \<notin> fst ` set later"
proof -
  have sq: "seq_inv q" using assms(1) by (simp add: tq_ok_def)
  have e2: "evolves q1 q2" using tq_run_evolves[OF assms(2,7)] by simp
  then obtain fs where fs: "tq_fired q2 = tq_fired q1 @ fs" "fst ` set fs \<subseteq> live_seq q1 \<union> new_seq q1 q2"
    by (auto simp: evolves_def)
  have c: "tq_created q \<le> tq_created q1" "tq_created q1 \<le> tq_created q2"
    using assms(3) e2 by (simp_all add: evolves_def)
  then have sm: "int (tq_created q) < 2 ^ 63" using assms(8) by linarith
  have "sequence t \<notin> live_seq q1"
  proof
    assume "sequence t \<in> live_seq q1"
    then obtain b u where u: "tq_heap q1 b = Some u" "sequence u = sequence t"
      by (auto simp: live_seq_def ran_def)
    then have "b \<noteq> a" using assms(5) by auto
    then have "tq_heap q b = Some u" using u assms(6) by simp
    then show False using sq sm u(2) assms(4) \<open>b \<noteq> a\<close> unfolding seq_inv_def by blast
  qed
  moreover have "sequence t \<notin> new_seq q1 q2"
  proof
    assume "sequence t \<in> new_seq q1 q2"
    then obtain n where n: "sequence t = wrap64 (int n)" "tq_created q1 < n" "n \<le> tq_created q2"
      by (auto simp: new_seq_def)
    then have "sequence t = int n" using assms(8) by (simp add: wrap64_small)
    moreover have "sequence t \<le> int (tq_created q)"
      using sq sm assms(4) by (auto simp: seq_inv_def live_seq_def ran_def)
    ultimately show False using n c by linarith
  qed
  ultimately show ?thesis using fs assms(9) by auto
qed

text \<open>
  C19: Cancelling a waiting timer removes that timer and no other, and its callback never runs
  again, whatever happens afterwards: neither the reuse of its address for a new timer nor
  the reuse of the id can revive it, as long as fewer than \<open>2 ^ 63\<close> timers are created.
\<close>

theorem cancelled_never_fires:
  assumes "tq_ok [] q" and "(e, a) \<in> set (timers q)" and "tq_heap q a = Some t"
  shows "\<exists>q1. cancelInLoop (TimerId a (sequence t)) q = Inr q1 \<and> tq_ok [] q1
     \<and> set (timers q1) = set (timers q) - {(e, a)} \<and> tq_fired q1 = tq_fired q
     \<and> (\<forall>env events q2. foldE (tq_step env) events q1 = Inr q2 \<longrightarrow> int (tq_created q2) < 2 ^ 63
          \<longrightarrow> (\<exists>later. tq_fired q2 = tq_fired q @ later \<and> sequence t \<notin> fst ` set later))"
proof -
  have i: "tq_inv [] q" and sq: "seq_inv q" using assms(1) by (simp_all add: tq_ok_def)
  obtain q1 where q1: "cancelInLoop (TimerId a (sequence t)) q = Inr q1" "tq_inv [] q1"
    "set (timers q1) = {v \<in> set (timers q). key q v \<noteq> (a, sequence t)}"
    "\<forall>b. b \<noteq> a \<longrightarrow> tq_heap q1 b = tq_heap q b" "tq_pending q1 = tq_pending q"
    using cancelInLoop_ok[OF i, of "TimerId a (sequence t)"] by auto
  have ev: "evolves q q1" "tq_fired q1 = tq_fired q" using cancelInLoop_evolves[OF i q1(1)] by simp_all
  have ok1: "tq_ok [] q1" by (rule tq_ok_evolves[OF q1(2) sq ev(1)])
  have k: "key q (e, a) = (a, sequence t)" using assms(3) by (simp add: key_def)
  have s1: "set (timers q1) = set (timers q) - {(e, a)}"
    using q1(3) inj_on_eq_iff[OF tq_inv_inj[OF i] _ assms(2)] k by auto
  have gone: "tq_heap q1 a = None"
  proof (rule ccontr)
    assume "tq_heap q1 a \<noteq> None"
    then obtain u where "tq_heap q1 a = Some u" by auto
    from tq_inv_filed[OF q1(2) this] have "(expiration u, a) \<in> set (timers q1)"
      using tq_inv_disjoint(2)[OF i assms(2)] q1(5) by simp
    then show False using s1 tq_inv_unique[OF i _ assms(2), of "(expiration u, a)"] by auto
  qed
  have "\<exists>later. tq_fired q2 = tq_fired q @ later \<and> sequence t \<notin> fst ` set later"
    if "foldE (tq_step env) events q1 = Inr q2" and "int (tq_created q2) < 2 ^ 63" for env events q2
    by (rule dead_timer_never_fires[OF assms(1) ok1 ev(1) assms(3) gone q1(4) that ev(2)])
  then show ?thesis using q1(1) ok1 s1 ev(2) by blast
qed

theorem cancelled_never_fires_witness:
  "\<exists>q1. cancelInLoop (TimerId 16 2) demo_queue = Inr q1 \<and> set (timers q1) = {(1000000, 8)}
     \<and> (\<exists>q2 later. foldE (tq_step demo_env) [Ev_Timerfd True, Ev_Timerfd True] q1 = Inr q2
          \<and> tq_fired q2 = later \<and> 2 \<notin> fst ` set later)"
proof -
  have m: "(1500000, 16) \<in> set (timers demo_queue)" by (simp add: demo_queue_def)
  obtain t where t: "tq_heap demo_queue 16 = Some t" "sequence t = 2" by (simp add: demo_queue_def)
  obtain q1 where q1: "cancelInLoop (TimerId 16 2) demo_queue = Inr q1"
    "set (timers q1) = set (timers demo_queue) - {(1500000, 16)}"
    "\<forall>env events q2. foldE (tq_step env) events q1 = Inr q2 \<longrightarrow> int (tq_created q2) < 2 ^ 63
          \<longrightarrow> (\<exists>later. tq_fired q2 = tq_fired demo_queue @ later \<and> 2 \<notin> fst ` set later)"
    using cancelled_never_fires[OF demo_queue_ok m t(1)] t(2) by auto
  obtain q2 where q2: "foldE (tq_step demo_env) [Ev_Timerfd True, Ev_Timerfd True] q1 = Inr q2"
    "tq_created q2 = 2"
    using q1(1) by (auto simp: timer_eval demo_queue_def)
  then have "\<exists>later. tq_fired q2 = tq_fired demo_queue @ later \<and> 2 \<notin> fst ` set later"
    using q1(3)[rule_format, OF q2(1)] by simp
  then show ?thesis using q1(1,2) q2(1) by (auto simp: demo_queue_def)
qed

text \<open>
  C26: No wake-up is lost: if the system accepts the arming calls, the clock is past the epoch and
  timers are added with valid times, then in every state reached in which a timer is waiting
  the descriptor is armed, for the earliest waiting timer or an earlier time.
\<close>

theorem timerfd_stays_armed:
  assumes "env_live env" and "\<forall>ev \<in> set events. event_pos ev"
    and "foldE (tq_step env) events TimerQueue_new = Inr q" and "timers q \<noteq> []"
  shows "\<exists>e ts. timerfd_armed q = Some (e, ts) \<and> e \<le> fst (hd (timers q))
           \<and> (\<forall>v \<in> set (timers q). e \<le> fst v)"
proof -
  have l: "tq_live env q"
    using tq_armed.run_safe[OF tq_live_new[of env] assms(2)] assms(3) by simp
  then obtain e ts where e: "timerfd_armed q = Some (e, ts)" "e \<le> fst (hd (timers q))"
    using assms(1,4) by (auto simp: tq_live_def armed_ok_def)
  have "oset_ok (timers q)" using l tq_invD(1) by (auto simp: tq_live_def tq_ok_def)
  then have "fst (hd (timers q)) \<le> fst v" if "v \<in> set (timers q)" for v
    using oset_ok_hd_le[OF _ that] by (cases "hd (timers q)"; cases v) auto
  then show ?thesis using e by fastforce
qed

theorem timerfd_stays_armed_witness:
  "\<exists>e ts. timerfd_armed demo_queue = Some (e, ts) \<and> e \<le> 1000000"
proof -
  have env: "env_live demo_env"
    by (auto simp: env_live_def env_pos_def demo_env_def Timestamp_now_def i64_def
        Timestamp_valid_def kMicroSecondsPerSecond_def split: if_splits)
  have "\<forall>ev \<in> set demo_events. event_pos ev" by (simp add: demo_events_def Timestamp_valid_def)
  from timerfd_stays_armed[OF env this demo_queue_run] show ?thesis
    by (auto simp: demo_queue_def)
qed

text \<open>
  The relative time given to the kernel is well formed, never zero (which would disarm the
  descriptor) and equal to the distance to the expiration or the minimum of 100 microseconds.
\<close>

theorem howMuchTimeFromNow_bounds:
  assumes "howMuchTimeFromNow w now = Inr (sec, nsec)"
  shows "0 \<le> sec \<and> 0 \<le> nsec \<and> nsec < 1000000000 \<and> (sec, nsec) \<noteq> (0, 0)
     \<and> sec * 1000000000 + nsec = 1000 * max 100 (w - now)"
proof -
  let ?us = "max 100 (w - now)"
  have p: "?us \<ge> 100" by simp
  have "sec = ?us div 1000000" "nsec = (?us mod 1000000) * 1000"
    using assms by (auto simp: howMuchTimeFromNow_def i64_def kMicroSecondsPerSecond_def Let_def
        signed_divide_int_def signed_modulo_int_def max_def split: if_splits)
  moreover have "?us = ?us div 1000000 * 1000000 + ?us mod 1000000" by simp
  moreover have "0 \<le> ?us div 1000000" "0 \<le> ?us mod 1000000" "?us mod 1000000 < 1000000"
    using p by (simp_all add: pos_imp_zdiv_nonneg_iff)
  ultimately have "0 \<le> sec" "0 \<le> nsec" "nsec < 1000000000" "sec * 1000000000 + nsec = 1000 * ?us"
    by linarith+
  moreover from this(4) p have "(sec, nsec) \<noteq> (0, 0)" by auto
  ultimately show ?thesis by simp
qed

theorem howMuchTimeFromNow_bounds_witness:
  "howMuchTimeFromNow 2500000 1000000 = Inr (1, 500000000)
   \<and> (1 :: int) * 1000000000 + 500000000 = 1000 * max 100 (2500000 - 1000000)"
proof -
  have "howMuchTimeFromNow 2500000 1000000 = Inr (1, 500000000)"
    by (simp add: howMuchTimeFromNow_def i64_def in_i64_def kMicroSecondsPerSecond_def)
  with howMuchTimeFromNow_bounds[OF this] show ?thesis by simp
qed

text \<open>
  Destroying the queue deletes every waiting timer exactly once. Timers whose addition
  is still on its way to the loop are not deleted: those objects leak.
\<close>

theorem TimerQueue_destructor:
  assumes "tq_ok [] q"
  shows "\<exists>q'. TimerQueue_delete q = Inr q' \<and> dom (tq_heap q') = set (pend_addrs (tq_pending q))"
proof -
  have del: "\<exists>q'. foldE (\<lambda>v. delete_timer (snd v)) vs q = Inr q' \<and> dom (tq_heap q') = dom (tq_heap q) - snd ` set vs"
    if "distinct (map snd vs)" "snd ` set vs \<subseteq> dom (tq_heap q)" for vs q
    using that
  proof (induction vs arbitrary: q)
    case (Cons v vs)
    let ?q = "q\<lparr>tq_heap := (tq_heap q)(snd v := None)\<rparr>"
    obtain t where "tq_heap q (snd v) = Some t" using Cons.prems(2) by auto
    then have 1: "delete_timer (snd v) q = Inr ?q" by (simp add: delete_timer_def)
    have "dom (tq_heap ?q) = dom (tq_heap q) - {snd v}" by simp
    moreover have "snd v \<notin> snd ` set vs" using Cons.prems(1) by simp
    ultimately have sub: "snd ` set vs \<subseteq> dom (tq_heap ?q)" using Cons.prems(2)
      by (simp only: list.set image_insert) blast
    have "distinct (map snd vs)" using Cons.prems(1) by simp
    from Cons.IH[OF this sub] obtain q' where "foldE (\<lambda>v. delete_timer (snd v)) vs ?q = Inr q'"
      "dom (tq_heap q') = dom (tq_heap ?q) - snd ` set vs" by blast
    then show ?case using 1 by auto
  qed simp
  have i: "tq_inv [] q" using assms by (simp add: tq_ok_def)
  have d: "dom (tq_heap q) = snd ` set (timers q) \<union> set (pend_addrs (tq_pending q))"
    using tq_invD(4)[OF i] by simp
  have "snd ` set (timers q) \<inter> set (pend_addrs (tq_pending q)) = {}" "distinct (map snd (timers q))"
    using tq_invD(3)[OF i] by auto
  moreover from this(1) have
    "snd ` set (timers q) \<union> set (pend_addrs (tq_pending q)) - snd ` set (timers q)
     = set (pend_addrs (tq_pending q))" by blast
  ultimately show ?thesis using del[of "timers q" q] d by (simp add: TimerQueue_delete_def)
qed

theorem TimerQueue_destructor_witness:
  "\<exists>q'. TimerQueue_delete demo_queue = Inr q' \<and> tq_heap q' = Map.empty"
  using TimerQueue_destructor[OF demo_queue_ok] by (simp add: demo_queue_def)

text \<open>
  \<^verbatim>\<open>addTimer\<close> called from another thread can read a deleted object. It returns the sequence
  number by reading it from the timer after the timer was handed to the loop: if the loop
  thread adds the timer, runs it as due and deletes it before the calling thread goes on,
  the read is a use after free. Called on the loop thread, \<^verbatim>\<open>addTimer\<close> has no such failure.
\<close>

theorem addTimer_race:
  "(\<exists>q1 q2. addTimer_submit demo_env False 8 0 1000000 (Double 0 0) TimerQueue_new = Inr q1
      \<and> foldE (tq_step demo_env) [Ev_Pending, Ev_Timerfd True] q1 = Inr q2
      \<and> addTimer_return 8 q2 = Inl Use_After_Free)
   \<and> (\<forall>env a cb w iv q. tq_ok [] q \<longrightarrow> addTimer env True a cb w iv q \<noteq> Inl Use_After_Free)"
proof
  show "\<exists>q1 q2. addTimer_submit demo_env False 8 0 1000000 (Double 0 0) TimerQueue_new = Inr q1
      \<and> foldE (tq_step demo_env) [Ev_Pending, Ev_Timerfd True] q1 = Inr q2
      \<and> addTimer_return 8 q2 = Inl Use_After_Free"
    by (simp add: timer_eval)
  show "\<forall>env a cb w iv q. tq_ok [] q \<longrightarrow> addTimer env True a cb w iv q \<noteq> Inl Use_After_Free"
  proof (intro allI impI)
    fix env a cb w iv q assume "tq_ok [] q"
    from addTimer_submit_cases[OF this, where env = env and in_loop = True and a = a and cb = cb and w = w and iv = iv]
    show "addTimer env True a cb w iv q \<noteq> Inl Use_After_Free"
      by (auto simp: addTimer_def addTimer_return_def bindE_Inl_iff deref_def split: sum.splits option.splits)
  qed
qed

theorem addTimer_race_witness:
  "tq_ok [] demo_queue \<and> addTimer demo_env True 24 0 5000000 (Double 1 0) demo_queue \<noteq> Inl Use_After_Free"
  using addTimer_race demo_queue_ok by blast

end
