(* ===== verification/String_Utils.thy ===== *)
theory String_Utils
  imports Prelude
begin

text \<open>
  The stateless string functions of \<^verbatim>\<open>deps/common/utilities/string_utils.{h,cpp}\<close>: trimming,
  splitting and joining, ASCII case, prefixes and suffixes, replacement, and the strict
  parsers for numbers and booleans. A \<^verbatim>\<open>string_view\<close> is the list of its bytes; the loops
  over indexes are kept as recursions over those indexes. The proofs relate them to the
  list functions one would specify them with.
\<close>

section \<open>Trimming\<close>

definition is_ascii_whitespace :: "char \<Rightarrow> bool" where
  "is_ascii_whitespace c \<longleftrightarrow> c = CHR '' '' \<or> c = CHR 0x09 \<or> c = CHR 0x0A \<or> c = CHR 0x0B
     \<or> c = CHR 0x0C \<or> c = CHR 0x0D"

function skip_begin :: "string \<Rightarrow> nat \<Rightarrow> nat \<Rightarrow> nat" where
  "skip_begin s b e = (if b < e \<and> is_ascii_whitespace (s ! b) then skip_begin s (Suc b) e else b)"
  by pat_completeness auto
termination by (relation "measure (\<lambda>(s, b, e). e - b)") auto

fun skip_end :: "string \<Rightarrow> nat \<Rightarrow> nat \<Rightarrow> nat" where
  "skip_end s b e = (if b < e \<and> is_ascii_whitespace (s ! (e - 1)) then skip_end s b (e - 1) else e)"

declare skip_begin.simps [simp del] skip_end.simps [simp del]

definition ltrim :: "string \<Rightarrow> string" where
  "ltrim input = drop (skip_begin input 0 (length input)) input"

definition rtrim :: "string \<Rightarrow> string" where
  "rtrim input = take (skip_end input 0 (length input)) input"

definition trim :: "string \<Rightarrow> string" where
  "trim input =
     (let b = skip_begin input 0 (length input);
          e = skip_end input b (length input)
      in take (e - b) (drop b input))"

section \<open>Splitting, joining, replacing\<close>

definition find_from :: "string \<Rightarrow> string \<Rightarrow> nat \<Rightarrow> nat option" where
  "find_from input pat start =
     (if start \<le> length input
      then map_option (\<lambda>k. start + k) (find_sub pat (drop start input)) else None)"

lemma find_from_bound:
  "find_from input pat start = Some p \<Longrightarrow> start \<le> p \<and> p + length pat \<le> length input"
  using find_sub_SomeD[of pat "drop start input"] occurs_at_bound[of pat "drop start input"]
  by (force simp: find_from_def split: if_splits)

lemma find_from_decr:
  "find_from input pat start = Some p \<Longrightarrow> pat \<noteq> []
     \<Longrightarrow> length input - (p + length pat) < length input - start"
  using find_from_bound[of input pat start p] by (cases pat) auto

text \<open>
  The loops below are entered with a non-empty pattern only; the branch for an empty one ends
  the recursion where the C++ loop would not end.
\<close>

function split_loop :: "string \<Rightarrow> string \<Rightarrow> nat \<Rightarrow> string list" where
  "split_loop input delimiter start =
     (case find_from input delimiter start of
        None \<Rightarrow> [drop start input]
      | Some position \<Rightarrow>
          take (position - start) (drop start input) #
          (if delimiter = [] then [] else split_loop input delimiter (position + length delimiter)))"
  by pat_completeness auto
termination
  by (relation "measure (\<lambda>(input, delimiter, start). length input - start)")
    (simp_all add: find_from_decr)

definition split :: "string \<Rightarrow> string \<Rightarrow> string list res" where
  "split input delimiter =
     (if delimiter = [] then Inl (Invalid_Argument ''split: delimiter must not be empty'')
      else Inr (split_loop input delimiter 0))"

fun join_loop :: "string \<Rightarrow> string list \<Rightarrow> bool \<Rightarrow> string \<Rightarrow> string" where
  "join_loop delimiter [] first result = result"
| "join_loop delimiter (part # parts) first result =
     join_loop delimiter parts False ((if first then result else result @ delimiter) @ part)"

definition join :: "string list \<Rightarrow> string \<Rightarrow> string" where
  "join parts delimiter = join_loop delimiter parts True []"

function count_loop :: "string \<Rightarrow> string \<Rightarrow> nat \<Rightarrow> nat" where
  "count_loop input frm start =
     (case find_from input frm start of
        None \<Rightarrow> 0
      | Some position \<Rightarrow> if frm = [] then 0 else Suc (count_loop input frm (position + length frm)))"
  by pat_completeness auto
termination
  by (relation "measure (\<lambda>(input, frm, start). length input - start)")
    (simp_all add: find_from_decr)

definition replace_first :: "string \<Rightarrow> string \<Rightarrow> string \<Rightarrow> string res" where
  "replace_first input frm to =
     (if frm = [] then Inl (Invalid_Argument ''replace_first: 'from' must not be empty'')
      else case find_from input frm 0 of
             None \<Rightarrow> Inr input
           | Some position \<Rightarrow> Inr (take position input @ to @ drop (position + length frm) input))"

function replace_loop :: "string \<Rightarrow> string \<Rightarrow> string \<Rightarrow> nat \<Rightarrow> string \<Rightarrow> string" where
  "replace_loop input frm to start result =
     (case find_from input frm start of
        None \<Rightarrow> result @ drop start input
      | Some position \<Rightarrow>
          if frm = [] then result
          else replace_loop input frm to (position + length frm)
                 (result @ take (position - start) (drop start input) @ to))"
  by pat_completeness auto
termination
  by (relation "measure (\<lambda>(input, frm, to, start, result). length input - start)")
    (simp_all add: find_from_decr)

declare split_loop.simps [simp del] count_loop.simps [simp del] replace_loop.simps [simp del]

text \<open>The capacity reserved for the result does not change it, only whether it must grow.\<close>

definition replace_all_reserve :: "string \<Rightarrow> string \<Rightarrow> string \<Rightarrow> size_t" where
  "replace_all_reserve input frm to =
     (let occurrences = count_loop input frm 0
      in sz_add (length input) ((occurrences * length to) mod size_mod))"

definition replace_all :: "string \<Rightarrow> string \<Rightarrow> string \<Rightarrow> string res" where
  "replace_all input frm to =
     (if frm = [] then Inl (Invalid_Argument ''replace_all: 'from' must not be empty'')
      else if max_alloc < replace_all_reserve input frm to then Inl Length_Error
      else Inr (replace_loop input frm to 0 []))"

section \<open>Case, prefixes, suffixes\<close>

definition to_lower_ascii :: "char \<Rightarrow> char" where
  "to_lower_ascii c =
     (if of_char (CHR ''A'') \<le> (of_char c :: nat) \<and> of_char c \<le> (of_char (CHR ''Z'') :: nat)
      then char_of (of_char c - of_char (CHR ''A'') + of_char (CHR ''a'') :: nat) else c)"

definition to_upper_ascii :: "char \<Rightarrow> char" where
  "to_upper_ascii c =
     (if of_char (CHR ''a'') \<le> (of_char c :: nat) \<and> of_char c \<le> (of_char (CHR ''z'') :: nat)
      then char_of (of_char c - of_char (CHR ''a'') + of_char (CHR ''A'') :: nat) else c)"

definition to_lower :: "string \<Rightarrow> string" where
  "to_lower input = map to_lower_ascii input"

definition to_upper :: "string \<Rightarrow> string" where
  "to_upper input = map to_upper_ascii input"

fun iequals_loop :: "string \<Rightarrow> string \<Rightarrow> bool" where
  "iequals_loop (c # cs) (d # ds) =
     (if to_lower_ascii c \<noteq> to_lower_ascii d then False else iequals_loop cs ds)"
| "iequals_loop _ _ = True"

definition iequals :: "string \<Rightarrow> string \<Rightarrow> bool" where
  "iequals lhs rhs = (if length lhs \<noteq> length rhs then False else iequals_loop lhs rhs)"

definition istarts_with :: "string \<Rightarrow> string \<Rightarrow> bool" where
  "istarts_with input prefix =
     (if length input < length prefix then False else iequals (take (length prefix) input) prefix)"

definition iends_with :: "string \<Rightarrow> string \<Rightarrow> bool" where
  "iends_with input suffix =
     (if length input < length suffix then False
      else iequals (drop (length input - length suffix) input) suffix)"

definition starts_with :: "string \<Rightarrow> string \<Rightarrow> bool" where
  "starts_with input prefix =
     (if length input < length prefix then False else take (length prefix) input = prefix)"

definition ends_with :: "string \<Rightarrow> string \<Rightarrow> bool" where
  "ends_with input suffix =
     (if length input < length suffix then False
      else drop (length input - length suffix) input = suffix)"

section \<open>Numbers and booleans\<close>

datatype NumberStatus = kOk | kInvalid | kOutOfRange

datatype errc = Errc_Ok | Errc_Invalid | Errc_Range

text \<open>
  \<^verbatim>\<open>std::from_chars\<close> in base 10: an optional minus sign for signed types, then as many digits
  as there are. The result is the rest of the input, the error code and the value.
\<close>

definition from_chars :: "bool \<Rightarrow> int \<Rightarrow> int \<Rightarrow> string \<Rightarrow> string \<times> errc \<times> int" where
  "from_chars sgnd lo hi text =
     (let (neg, body) = (case text of c # cs \<Rightarrow> if sgnd \<and> c = CHR ''-'' then (True, cs) else (False, text)
                         | [] \<Rightarrow> (False, text));
          ds = takeWhile is_digit body;
          v = (if neg then - int (nat_of_dec ds 0) else int (nat_of_dec ds 0))
      in if ds = [] then (text, Errc_Invalid, 0)
         else if v < lo \<or> hi < v then (dropWhile is_digit body, Errc_Range, 0)
         else (dropWhile is_digit body, Errc_Ok, v))"

definition ParseInt64 :: "string \<Rightarrow> NumberStatus \<times> int" where
  "ParseInt64 input =
     (let text = trim input
      in if text = [] then (kInvalid, 0)
         else let text = (if hd text = CHR ''+'' then tl text else text)
              in if text = [] then (kInvalid, 0)
                 else let (rest, ec, value) = from_chars True (- (2 ^ 63)) (2 ^ 63 - 1) text
                      in if rest \<noteq> [] then (kInvalid, 0)
                         else if ec = Errc_Range then (kOutOfRange, 0)
                         else if ec \<noteq> Errc_Ok then (kInvalid, 0)
                         else (kOk, value))"

definition ParseUint64 :: "string \<Rightarrow> NumberStatus \<times> int" where
  "ParseUint64 input =
     (let text = trim input
      in if text = [] then (kInvalid, 0)
         else let text = (if hd text = CHR ''+'' then tl text else text)
              in if text = [] then (kInvalid, 0)
                 else if hd text = CHR ''-'' then (kInvalid, 0)
                 else let (rest, ec, value) = from_chars False 0 (2 ^ 64 - 1) text
                      in if rest \<noteq> [] then (kInvalid, 0)
                         else if ec = Errc_Range then (kOutOfRange, 0)
                         else if ec \<noteq> Errc_Ok then (kInvalid, 0)
                         else (kOk, value))"

definition ParseBool :: "string \<Rightarrow> NumberStatus \<times> bool" where
  "ParseBool input =
     (let lowered = to_lower (trim input)
      in if lowered \<in> {''true'', ''1'', ''yes'', ''on''} then (kOk, True)
         else if lowered \<in> {''false'', ''0'', ''no'', ''off''} then (kOk, False)
         else (kInvalid, False))"

definition ThrowNumberError :: "NumberStatus \<Rightarrow> string \<Rightarrow> string \<Rightarrow> string \<Rightarrow> failure" where
  "ThrowNumberError status context type_name input =
     (let message = (if context \<noteq> [] then context @ '': '' else []);
          message = (if status = kOutOfRange
                     then message @ ''value out of range for '' @ type_name @ '': '' @ [CHR 0x27]
                     else message @ ''invalid '' @ type_name @ '' value: '' @ [CHR 0x27]);
          message = message @ input @ [CHR 0x27]
      in if status = kOutOfRange then Out_Of_Range message else Invalid_Argument message)"

text \<open>
  \<^verbatim>\<open>strtod\<close> in the C locale, on the literals that reach it: a decimal number with an optional
  sign, fraction and exponent. It answers with the rest of the input and the value as a
  fraction \<open>num / den\<close>, which the conversion rounds to the nearest double: values from
  \<open>2 ^ 1024 - 2 ^ 970\<close> on become infinite, and values up to \<open>2 ^ (- 1075)\<close> become zero.
\<close>

datatype strtod_value = Fin int nat | Inf

definition strtod_value :: "int \<Rightarrow> nat \<Rightarrow> strtod_value" where
  "strtod_value num den =
     (if (2 ^ 1024 - 2 ^ 970) * int den \<le> \<bar>num\<bar> then Inf
      else if \<bar>num\<bar> * 2 ^ 1075 \<le> int den then Fin 0 1
      else Fin num den)"

definition scale10 :: "int \<Rightarrow> int \<Rightarrow> int \<times> nat" where
  "scale10 m e = (if 0 \<le> e then (m * 10 ^ nat e, 1) else (m, 10 ^ nat (- e)))"

definition strtod_exponent :: "string \<Rightarrow> int \<times> string" where
  "strtod_exponent s =
     (case s of
        c # cs \<Rightarrow>
          if c = CHR ''e'' \<or> c = CHR ''E''
          then let (neg, ds) = (case cs of d # ds \<Rightarrow> if d = CHR ''-'' then (True, ds)
                                   else if d = CHR ''+'' then (False, ds) else (False, cs) | [] \<Rightarrow> (False, cs));
                   n = takeWhile is_digit ds
               in if n = [] then (0, s)
                  else ((if neg then - int (nat_of_dec n 0) else int (nat_of_dec n 0)), dropWhile is_digit ds)
          else (0, s)
      | [] \<Rightarrow> (0, s))"

definition strtod :: "string \<Rightarrow> string \<times> strtod_value" where
  "strtod text =
     (let (neg, s) = (case text of c # cs \<Rightarrow> if c = CHR ''-'' then (True, cs)
                         else if c = CHR ''+'' then (False, cs) else (False, text) | [] \<Rightarrow> (False, text));
          whole = takeWhile is_digit s;
          s1 = dropWhile is_digit s;
          (frac, s2) = (case s1 of c # cs \<Rightarrow> if c = CHR ''.'' then (takeWhile is_digit cs, dropWhile is_digit cs)
                          else ([], s1) | [] \<Rightarrow> ([], s1))
      in if whole @ frac = [] then (text, Fin 0 1)
         else let (e, rest) = strtod_exponent s2;
                  m = int (nat_of_dec (whole @ frac) 0);
                  (num, den) = scale10 (if neg then - m else m) (e - int (length frac))
              in (rest, strtod_value num den))"

fun IsZeroLiteral_loop :: "string \<Rightarrow> bool \<Rightarrow> bool" where
  "IsZeroLiteral_loop [] has_digit = has_digit"
| "IsZeroLiteral_loop (c # cs) has_digit =
     (if c = CHR ''e'' \<or> c = CHR ''E'' then has_digit
      else if c = CHR ''.'' then IsZeroLiteral_loop cs has_digit
      else if \<not> is_digit c then False
      else if c \<noteq> CHR ''0'' then False
      else IsZeroLiteral_loop cs True)"

definition drop_sign :: "string \<Rightarrow> string" where
  "drop_sign text = (if text \<noteq> [] \<and> (hd text = CHR ''+'' \<or> hd text = CHR ''-'') then tl text else text)"

definition IsZeroLiteral :: "string \<Rightarrow> bool" where
  "IsZeroLiteral text = IsZeroLiteral_loop (drop_sign text) False"

definition LooksLikeHexLiteral :: "string \<Rightarrow> bool" where
  "LooksLikeHexLiteral text =
     (let t = drop_sign text
      in 2 \<le> length t \<and> t ! 0 = CHR ''0'' \<and> (t ! 1 = CHR ''x'' \<or> t ! 1 = CHR ''X''))"

definition LooksLikeNonFiniteLiteral :: "string \<Rightarrow> bool" where
  "LooksLikeNonFiniteLiteral text =
     (let lowered = drop_sign (to_lower text)
      in take 3 lowered = ''inf'' \<or> take 3 lowered = ''nan'')"

definition ParseDouble :: "string \<Rightarrow> NumberStatus \<times> (int \<times> nat)" where
  "ParseDouble input =
     (let text = trim input
      in if text = [] then (kInvalid, (0, 1))
         else if LooksLikeHexLiteral text then (kInvalid, (0, 1))
         else if LooksLikeNonFiniteLiteral text then (kInvalid, (0, 1))
         else let (rest, value) = strtod text
              in if rest \<noteq> [] then (kInvalid, (0, 1))
                 else case value of
                        Inf \<Rightarrow> (kOutOfRange, (0, 1))
                      | Fin num den \<Rightarrow>
                          if num = 0 \<and> \<not> IsZeroLiteral text then (kOutOfRange, (0, 1))
                          else (kOk, (num, den)))"

definition to_int64 :: "string \<Rightarrow> string \<Rightarrow> int res" where
  "to_int64 input context =
     (let (status, value) = ParseInt64 input
      in if status \<noteq> kOk then Inl (ThrowNumberError status context ''int64'' input) else Inr value)"

definition to_uint64 :: "string \<Rightarrow> string \<Rightarrow> int res" where
  "to_uint64 input context =
     (let (status, value) = ParseUint64 input
      in if status \<noteq> kOk then Inl (ThrowNumberError status context ''uint64'' input) else Inr value)"

definition to_double :: "string \<Rightarrow> string \<Rightarrow> (int \<times> nat) res" where
  "to_double input context =
     (let (status, value) = ParseDouble input
      in if status \<noteq> kOk then Inl (ThrowNumberError status context ''double'' input) else Inr value)"

definition to_bool :: "string \<Rightarrow> string \<Rightarrow> bool res" where
  "to_bool input context =
     (let (status, value) = ParseBool input
      in if status \<noteq> kOk then Inl (ThrowNumberError status context ''bool'' input) else Inr value)"

definition try_to_int64 :: "string \<Rightarrow> int option" where
  "try_to_int64 input = (let (status, value) = ParseInt64 input in if status \<noteq> kOk then None else Some value)"

definition try_to_uint64 :: "string \<Rightarrow> int option" where
  "try_to_uint64 input = (let (status, value) = ParseUint64 input in if status \<noteq> kOk then None else Some value)"

definition try_to_double :: "string \<Rightarrow> (int \<times> nat) option" where
  "try_to_double input = (let (status, value) = ParseDouble input in if status \<noteq> kOk then None else Some value)"

definition try_to_bool :: "string \<Rightarrow> bool option" where
  "try_to_bool input = (let (status, value) = ParseBool input in if status \<noteq> kOk then None else Some value)"

section \<open>Loops as list functions\<close>

lemma skip_begin_eq:
  "b \<le> length s \<Longrightarrow> skip_begin s b (length s) = b + length (takeWhile is_ascii_whitespace (drop b s))"
proof (induction "length s - b" arbitrary: b)
  case 0
  then show ?case by (simp add: skip_begin.simps)
next
  case (Suc n)
  then have "b < length s" by simp
  then have d: "drop b s = s ! b # drop (Suc b) s" by (simp add: Cons_nth_drop_Suc)
  show ?case
  proof (cases "is_ascii_whitespace (s ! b)")
    case True
    then have "skip_begin s b (length s) = skip_begin s (Suc b) (length s)"
      using \<open>b < length s\<close> by (subst skip_begin.simps) simp
    then show ?thesis using Suc.hyps(1)[of "Suc b"] Suc.hyps(2) \<open>b < length s\<close> True d by simp
  next
    case False
    then show ?thesis using d by (subst skip_begin.simps) simp
  qed
qed

lemma skip_end_eq:
  "b \<le> e \<Longrightarrow> e \<le> length s
     \<Longrightarrow> skip_end s b e = e - length (takeWhile is_ascii_whitespace (rev (slice b e s)))"
proof (induction s b e rule: skip_end.induct)
  case (1 s b e)
  show ?case
  proof (cases "b < e")
    case False
    then show ?thesis by (subst skip_end.simps) simp
  next
    case True
    then obtain k where k: "e = Suc k" by (cases e) auto
    have "slice b e s = slice b k s @ [s ! k]"
      using True 1(3) k by (simp add: slice_def Suc_diff_le take_Suc_conv_app_nth)
    then have r: "rev (slice b e s) = s ! k # rev (slice b k s)" by simp
    show ?thesis
    proof (cases "is_ascii_whitespace (s ! k)")
      case w: True
      have "skip_end s b e = skip_end s b k" using True w k by (subst skip_end.simps) simp
      moreover have "skip_end s b k = k - length (takeWhile is_ascii_whitespace (rev (slice b k s)))"
        using 1 True w k by simp
      ultimately show ?thesis using r w k by simp
    next
      case False
      then show ?thesis using r k by (subst skip_end.simps) simp
    qed
  qed
qed

lemma take_rtrim: "take (length s - length (takeWhile P (rev s))) s = rev (dropWhile P (rev s))"
proof -
  have "dropWhile P (rev s) = drop (length (takeWhile P (rev s))) (rev s)" by (rule dropWhile_eq_drop)
  then show ?thesis by (simp add: rev_drop)
qed

lemma ltrim_eq: "ltrim s = dropWhile is_ascii_whitespace s"
  by (simp add: ltrim_def skip_begin_eq dropWhile_eq_drop)

lemma rtrim_eq: "rtrim s = rev (dropWhile is_ascii_whitespace (rev s))"
  by (simp add: rtrim_def skip_end_eq take_rtrim)

lemma trim_eq: "trim s = rtrim (ltrim s)"
proof -
  let ?b = "length (takeWhile is_ascii_whitespace s)"
  have b: "?b \<le> length s" by (rule length_takeWhile_le)
  have d: "drop ?b s = dropWhile is_ascii_whitespace s" by (simp add: dropWhile_eq_drop)
  have sl: "slice ?b (length s) s = dropWhile is_ascii_whitespace s" by (simp add: slice_def flip: d)
  have ln: "length (dropWhile is_ascii_whitespace s) = length s - ?b" by (simp add: dropWhile_eq_drop)
  show ?thesis
    using b take_rtrim[of "dropWhile is_ascii_whitespace s" is_ascii_whitespace]
    by (simp add: trim_def Let_def skip_begin_eq skip_end_eq sl d rtrim_eq ltrim_eq ln add.commute)
qed

lemma trim_split:
  "\<exists>l r. s = l @ trim s @ r \<and> (\<forall>c \<in> set l \<union> set r. is_ascii_whitespace c)"
proof -
  let ?P = is_ascii_whitespace
  let ?m = "dropWhile ?P s"
  have "s = takeWhile ?P s @ ?m" by simp
  moreover have "?m = trim s @ rev (takeWhile ?P (rev ?m))"
    unfolding trim_eq rtrim_eq ltrim_eq by (metis rev_append rev_rev_ident takeWhile_dropWhile_id)
  ultimately show ?thesis
    by (intro exI[of _ "takeWhile ?P s"] exI[of _ "rev (takeWhile ?P (rev ?m))"])
      (auto dest: set_takeWhileD)
qed

lemma trim_ends:
  assumes "trim s \<noteq> []"
  shows "\<not> is_ascii_whitespace (hd (trim s))" and "\<not> is_ascii_whitespace (last (trim s))"
proof -
  let ?P = is_ascii_whitespace
  let ?m = "dropWhile ?P s"
  have t: "trim s = rev (dropWhile ?P (rev ?m))" by (simp add: trim_eq rtrim_eq ltrim_eq)
  then have ne: "dropWhile ?P (rev ?m) \<noteq> []" using assms by simp
  then show "\<not> ?P (last (trim s))" using hd_dropWhile[OF ne] t by (simp add: last_rev)
  obtain l r where lr: "?m = trim s @ r"
    using t by (metis rev_append rev_rev_ident takeWhile_dropWhile_id)
  then have "?m \<noteq> []" "hd ?m = hd (trim s)" using assms by auto
  then show "\<not> ?P (hd (trim s))" using hd_dropWhile[of ?P s] by metis
qed

lemma trim_id:
  assumes "s = [] \<or> (\<not> is_ascii_whitespace (hd s) \<and> \<not> is_ascii_whitespace (last s))"
  shows "trim s = s"
  using assms
  by (auto simp: trim_eq rtrim_eq ltrim_eq dropWhile_eq_self_iff[THEN iffD2] hd_rev)

section \<open>Splitting and joining\<close>

fun intersperse_concat :: "string \<Rightarrow> string list \<Rightarrow> string" where
  "intersperse_concat d [] = []"
| "intersperse_concat d [p] = p"
| "intersperse_concat d (p # q # ps) = p @ d @ intersperse_concat d (q # ps)"

lemma join_loop_False: "join_loop d ps False r = r @ concat (map (\<lambda>p. d @ p) ps)"
  by (induction ps arbitrary: r) auto

lemma intersperse_Cons: "intersperse_concat d (p # ps) = p @ concat (map (\<lambda>p. d @ p) ps)"
  by (induction d ps arbitrary: p rule: intersperse_concat.induct) auto

lemma join_eq: "join ps d = intersperse_concat d ps"
  by (cases ps) (simp_all add: join_def join_loop_False intersperse_Cons)

lemma join_Cons: "ps \<noteq> [] \<Longrightarrow> join (p # ps) d = p @ d @ join ps d"
  by (cases ps) (simp_all add: join_eq)

lemma split_loop_ne: "split_loop input d start \<noteq> []"
  by (subst split_loop.simps) (simp split: option.split)

lemma find_from_Some:
  assumes "find_from input d start = Some p"
  shows "drop start input = take (p - start) (drop start input) @ d @ drop (p + length d) input"
    and "find_sub d (drop start input) = Some (p - start)" and "start \<le> p"
    and "p + length d \<le> length input"
proof -
  show f: "find_sub d (drop start input) = Some (p - start)"
    using assms by (auto simp: find_from_def split: if_splits)
  show b: "start \<le> p" "p + length d \<le> length input" using find_from_bound[OF assms] by auto
  have "occurs_at d (drop start input) (p - start)" using find_sub_SomeD[OF f] by simp
  from occurs_at_split[OF this] b
  show "drop start input = take (p - start) (drop start input) @ d @ drop (p + length d) input"
    by (simp add: add.commute)
qed

lemma split_loop_join:
  "d \<noteq> [] \<Longrightarrow> start \<le> length input \<Longrightarrow> join (split_loop input d start) d = drop start input"
proof (induction input d start rule: split_loop.induct)
  case (1 input d start)
  show ?case
  proof (cases "find_from input d start")
    case None
    then show ?thesis by (subst split_loop.simps) (simp add: join_eq)
  next
    case (Some p)
    note f = find_from_Some[OF Some]
    have "split_loop input d start = take (p - start) (drop start input) # split_loop input d (p + length d)"
      using Some 1(2) by (subst split_loop.simps) simp
    then show ?thesis
      using 1(1)[OF Some 1(2) 1(2) f(4)] f(1) by (simp add: join_Cons split_loop_ne)
  qed
qed

lemma length_split_loop: "d \<noteq> [] \<Longrightarrow> length (split_loop input d start) = Suc (count_loop input d start)"
proof (induction input d start rule: split_loop.induct)
  case (1 input d start)
  then show ?case
    by (subst split_loop.simps, subst count_loop.simps) (simp split: option.split)
qed

lemma find_sub_prefix: "find_sub d s = Some k \<Longrightarrow> d \<noteq> [] \<Longrightarrow> find_sub d (take k s) = None"
proof -
  assume a: "find_sub d s = Some k" "d \<noteq> []"
  have "\<not> occurs_at d (take k s) j" for j
  proof
    assume o: "occurs_at d (take k s) j"
    then have b: "j + length d \<le> length (take k s)" by (rule occurs_at_bound)
    then have "j < k" using a(2) by (cases d) auto
    moreover have "min (length d) (k - j) = length d" using b by (simp add: min_def split: if_splits)
    then have "occurs_at d s j" using o b by (simp add: occurs_at_def drop_take)
    ultimately show False using find_sub_SomeD[OF a(1)] by blast
  qed
  then show ?thesis by (simp add: find_sub_eq_None_iff)
qed

lemma split_loop_fields:
  "d \<noteq> [] \<Longrightarrow> start \<le> length input \<Longrightarrow> p \<in> set (split_loop input d start) \<Longrightarrow> find_sub d p = None"
proof (induction input d start rule: split_loop.induct)
  case (1 input d start)
  show ?case
  proof (cases "find_from input d start")
    case None
    then have "split_loop input d start = [drop start input]" by (subst split_loop.simps) simp
    then show ?thesis using None 1 by (simp add: find_from_def)
  next
    case (Some k)
    note f = find_from_Some[OF Some]
    have "split_loop input d start = take (k - start) (drop start input) # split_loop input d (k + length d)"
      using Some 1(2) by (subst split_loop.simps) simp
    then show ?thesis
      using 1(1)[OF Some 1(2) 1(2) f(4)] 1(4) find_sub_prefix[OF f(2) 1(2)] by auto
  qed
qed

lemma replace_loop_join:
  "frm \<noteq> [] \<Longrightarrow> start \<le> length input
     \<Longrightarrow> replace_loop input frm to start r = r @ join (split_loop input frm start) to"
proof (induction input frm to start r rule: replace_loop.induct)
  case (1 input frm to start r)
  show ?case
  proof (cases "find_from input frm start")
    case None
    then show ?thesis by (subst replace_loop.simps, subst split_loop.simps) (simp add: join_eq)
  next
    case (Some p)
    note f = find_from_Some[OF Some]
    have "split_loop input frm start = take (p - start) (drop start input) # split_loop input frm (p + length frm)"
      using Some 1(2) by (subst split_loop.simps) simp
    moreover have "replace_loop input frm to start r = replace_loop input frm to (p + length frm)
        (r @ take (p - start) (drop start input) @ to)"
      using Some 1(2) by (subst replace_loop.simps) simp
    ultimately show ?thesis
      using 1(1)[OF Some 1(2) 1(2) f(4)] by (simp add: join_Cons split_loop_ne)
  qed
qed

lemma find_sub_single_append:
  "c \<notin> set xs \<Longrightarrow> find_sub [c] (xs @ c # ys) = Some (length xs)"
  by (induction xs) auto

lemma find_sub_single_None: "c \<notin> set xs \<Longrightarrow> find_sub [c] xs = None"
  by (induction xs) auto

lemma split_loop_join_single:
  assumes "\<forall>p \<in> set ps. c \<notin> set p" and "ps \<noteq> []"
  shows "drop start input = join ps [c] \<Longrightarrow> start \<le> length input \<Longrightarrow> split_loop input [c] start = ps"
  using assms
proof (induction ps arbitrary: start)
  case (Cons p ps)
  show ?case
  proof (cases "ps = []")
    case True
    then have "find_from input [c] start = None"
      using Cons.prems by (simp add: find_from_def join_eq find_sub_single_None)
    then show ?thesis using Cons.prems(1) True by (subst split_loop.simps) (simp add: join_eq)
  next
    case False
    then have d: "drop start input = p @ c # join ps [c]" using Cons.prems(1) by (simp add: join_Cons)
    have f: "find_from input [c] start = Some (start + length p)"
      using Cons.prems(2,3) by (simp add: find_from_def d find_sub_single_append)
    have "drop (start + length p + 1) input = drop (Suc (length p)) (drop start input)" by (simp add: add.commute)
    also have "\<dots> = join ps [c]" using d by simp
    finally have n: "drop (start + length p + 1) input = join ps [c]" .
    have "length (drop start input) \<ge> length p + 1" using d by simp
    then have l: "start + length p + 1 \<le> length input" using Cons.prems(2) by simp
    have "split_loop input [c] (start + length p + 1) = ps"
      using Cons.IH[OF n l] Cons.prems(3) False by simp
    then show ?thesis using f d by (subst split_loop.simps) simp
  qed
qed simp

section \<open>Numbers\<close>



lemma takeWhile_all_digits: "\<forall>c \<in> set s. is_digit c \<Longrightarrow> takeWhile is_digit s = s \<and> dropWhile is_digit s = []"
  by (simp add: takeWhile_eq_all_conv dropWhile_eq_Nil_conv)

text \<open>The numerals accepted: an optional plus sign, for signed types an optional minus sign, digits.\<close>

definition strip_plus :: "string \<Rightarrow> string" where
  "strip_plus t = (if t \<noteq> [] \<and> hd t = CHR ''+'' then tl t else t)"

definition numeral_of :: "bool \<Rightarrow> string \<Rightarrow> int option" where
  "numeral_of sgnd t =
     (let (neg, ds) = (if sgnd \<and> t \<noteq> [] \<and> hd t = CHR ''-'' then (True, tl t) else (False, t))
      in if ds \<noteq> [] \<and> (\<forall>c \<in> set ds. is_digit c)
         then Some (if neg then - int (nat_of_dec ds 0) else int (nat_of_dec ds 0)) else None)"

definition classify :: "bool \<Rightarrow> int \<Rightarrow> int \<Rightarrow> string \<Rightarrow> NumberStatus \<times> int" where
  "classify sgnd lo hi input =
     (case numeral_of sgnd (strip_plus (trim input)) of
        None \<Rightarrow> (kInvalid, 0)
      | Some v \<Rightarrow> if lo \<le> v \<and> v \<le> hi then (kOk, v) else (kOutOfRange, 0))"

lemma from_chars_numeral:
  assumes "t \<noteq> []"
  shows "(let (rest, ec, value) = from_chars sgnd lo hi t
          in if rest \<noteq> [] then (kInvalid, 0)
             else if ec = Errc_Range then (kOutOfRange, 0)
             else if ec \<noteq> Errc_Ok then (kInvalid, 0) else (kOk, value))
       = (case numeral_of sgnd t of None \<Rightarrow> (kInvalid, 0)
          | Some v \<Rightarrow> if lo \<le> v \<and> v \<le> hi then (kOk, v) else (kOutOfRange, 0))"
proof -
  obtain c cs where t: "t = c # cs" using assms by (cases t) auto
  obtain neg body where nb: "(neg, body) = (if sgnd \<and> c = CHR ''-'' then (True, cs) else (False, t))"
    by (metis surj_pair)
  have f: "from_chars sgnd lo hi t =
     (let ds = takeWhile is_digit body;
          v = (if neg then - int (nat_of_dec ds 0) else int (nat_of_dec ds 0))
      in if ds = [] then (t, Errc_Invalid, 0)
         else if v < lo \<or> hi < v then (dropWhile is_digit body, Errc_Range, 0)
         else (dropWhile is_digit body, Errc_Ok, v))"
    using nb t by (auto simp: from_chars_def Let_def split: if_splits)
  have g: "numeral_of sgnd t = (if body \<noteq> [] \<and> (\<forall>c \<in> set body. is_digit c)
         then Some (if neg then - int (nat_of_dec body 0) else int (nat_of_dec body 0)) else None)"
    using nb t by (auto simp: numeral_of_def split: if_splits)
  show ?thesis
  proof (cases "body \<noteq> [] \<and> (\<forall>c \<in> set body. is_digit c)")
    case True
    then show ?thesis using f g takeWhile_all_digits[of body] by (auto simp: Let_def)
  next
    case False
    then have "takeWhile is_digit body = [] \<or> dropWhile is_digit body \<noteq> []"
      by (auto simp: dropWhile_eq_Nil_conv)
    then show ?thesis using f g False t by (auto simp: Let_def)
  qed
qed

lemma ParseInt64_classify: "ParseInt64 input = classify True (- (2 ^ 63)) (2 ^ 63 - 1) input"
proof -
  have n: "numeral_of True [] = None" by (simp add: numeral_of_def)
  show ?thesis
    unfolding ParseInt64_def classify_def Let_def strip_plus_def
    using from_chars_numeral[of _ True "- (2 ^ 63)" "2 ^ 63 - 1", unfolded Let_def] n by auto
qed

lemma ParseUint64_classify: "ParseUint64 input = classify False 0 (2 ^ 64 - 1) input"
proof -
  have n: "numeral_of False [] = None" by (simp add: numeral_of_def)
  have m: "t \<noteq> [] \<Longrightarrow> hd t = CHR ''-'' \<Longrightarrow> numeral_of False t = None" for t
    by (cases t) (auto simp: numeral_of_def is_digit_def)
  show ?thesis
    unfolding ParseUint64_def classify_def Let_def strip_plus_def
    using from_chars_numeral[of _ False 0 "2 ^ 64 - 1", unfolded Let_def] n m by auto
qed





section \<open>Properties\<close>

text \<open>
  Splitting loses nothing: for a non-empty delimiter the fields joined with it are the input,
  no field contains the delimiter, and there is exactly one field more than there are
  (non-overlapping) delimiters; an empty delimiter is rejected.
\<close>

theorem split_join_roundtrip:
  "if delimiter = [] then split input delimiter = Inl (Invalid_Argument ''split: delimiter must not be empty'')
   else \<exists>fields. split input delimiter = Inr fields \<and> join fields delimiter = input
          \<and> (\<forall>p \<in> set fields. \<forall>k. \<not> occurs_at delimiter p k)
          \<and> length fields = count_loop input delimiter 0 + 1"
proof (cases "delimiter = []")
  case True
  then show ?thesis by (simp add: split_def)
next
  case False
  have "\<forall>p \<in> set (split_loop input delimiter 0). \<forall>k. \<not> occurs_at delimiter p k"
    using split_loop_fields[OF False, of 0 input] by (auto simp: find_sub_eq_None_iff)
  then show ?thesis
    using False split_loop_join[OF False, of 0 input] length_split_loop[OF False, of input 0]
    by (simp add: split_def)
qed

theorem split_join_roundtrip_witness:
  "\<exists>fields. split ''a,,b'' '','' = Inr fields \<and> join fields '','' = ''a,,b''"
  using split_join_roundtrip[of "'',''" "''a,,b''"] by auto

text \<open>
  Joining fields with a single character that occurs in none of them and splitting the
  result at that character gives the fields back.
\<close>

theorem join_split_roundtrip:
  assumes "fields \<noteq> []" and "\<forall>p \<in> set fields. c \<notin> set p"
  shows "split (join fields [c]) [c] = Inr fields"
  using split_loop_join_single[OF assms(2,1), of 0 "join fields [c]"] by (simp add: split_def)

theorem join_split_roundtrip_witness:
  "split (join [''usr'', '''', ''bin''] ''/'') ''/'' = Inr [''usr'', '''', ''bin'']"
  by (rule join_split_roundtrip) simp_all

text \<open>
  C27: Replacing every occurrence is splitting at the pattern and joining with the replacement,
  whenever the result fits in memory; an empty pattern is rejected.
\<close>

theorem replace_all_split_join:
  assumes "length input + count_loop input frm 0 * length to \<le> max_alloc"
  shows "if frm = [] then replace_all input frm to = Inl (Invalid_Argument ''replace_all: 'from' must not be empty'')
         else replace_all input frm to = bindE (split input frm) (\<lambda>fields. Inr (join fields to))"
proof (cases "frm = []")
  case True
  then show ?thesis by (simp add: replace_all_def)
next
  case False
  let ?m = "count_loop input frm 0 * length to"
  have "?m < size_mod" using assms max_alloc_less by linarith
  then have "replace_all_reserve input frm to = length input + ?m"
    using assms by (simp add: replace_all_reserve_def Let_def sz_add_small)
  then show ?thesis
    using False assms replace_loop_join[OF False, of 0 input to "[]"] by (simp add: replace_all_def split_def)
qed

theorem replace_all_split_join_witness:
  "replace_all ''a b a'' ''a'' ''xy'' = bindE (split ''a b a'' ''a'') (\<lambda>fields. Inr (join fields ''xy''))"
proof -
  have "count_loop ''a b a'' ''a'' 0 = 2"
    by (simp add: count_loop.simps find_from_def)
  then show ?thesis using replace_all_split_join[of "''a b a''" "''a''" "''xy''"] by (simp add: max_alloc_def)
qed

text \<open>
  Trimming removes exactly the white space at both ends: the input is the result between two
  runs of white space, and a non-empty result neither begins nor ends with white space.
\<close>

theorem trim_spec:
  "(\<exists>l r. s = l @ trim s @ r \<and> (\<forall>c \<in> set (l @ r). is_ascii_whitespace c))
   \<and> (trim s = [] \<or> \<not> is_ascii_whitespace (hd (trim s)) \<and> \<not> is_ascii_whitespace (last (trim s)))
   \<and> trim s = rtrim (ltrim s) \<and> trim (trim s) = trim s"
proof -
  have e: "trim s = [] \<or> \<not> is_ascii_whitespace (hd (trim s)) \<and> \<not> is_ascii_whitespace (last (trim s))"
    using trim_ends by blast
  then show ?thesis using trim_split[of s] trim_eq[of s] trim_id[OF e] by simp
qed

theorem trim_spec_witness:
  "trim (trim '' a b '') = trim '' a b '' \<and> trim '' a b '' = rtrim (ltrim '' a b '')"
  using trim_spec[of "'' a b ''"] by blast



text \<open>
  The strictness of the signed parser has a hole: a plus sign is stripped by hand before a
  conversion that itself accepts a minus sign, so the input \<open>+-5\<close> is read as minus five,
  whereas the unsigned parser rejects such an input.
\<close>

theorem plus_minus_accepted:
  "to_int64 ''+-5'' [] = Inr (- 5) \<and> to_uint64 ''+-5'' [] = Inl (ThrowNumberError kInvalid [] ''uint64'' ''+-5'')"
proof -
  have "trim ''+-5'' = ''+-5''" by (rule trim_id) (simp add: is_ascii_whitespace_def)
  then show ?thesis
    by (simp add: to_int64_def to_uint64_def ParseInt64_classify ParseUint64_classify classify_def
        strip_plus_def numeral_of_def is_digit_def digit_val_def)
qed

end
