(* ===== verification/Inet_Address.thy ===== *)
theory Inet_Address
  imports Net_Buffer
begin

text \<open>
  Internet addresses, \<^verbatim>\<open>plugins/Muduo/muduo/net/InetAddress.{h,cpp}\<close>, and the address functions
  of \<^verbatim>\<open>socketOps.cpp\<close>. The members \<^verbatim>\<open>sin_port\<close> and \<^verbatim>\<open>sin_addr\<close> hold network byte order; the
  host is little-endian, so their first byte in memory is the low byte of the word.
  The C library's \<^verbatim>\<open>inet_pton\<close>, \<^verbatim>\<open>inet_ntop\<close> and \<^verbatim>\<open>snprintf\<close> are modelled as they are used.
\<close>

section \<open>The C library\<close>

record sockaddr_in =
  sin_family :: nat
  sin_port :: "16 word"
  sin_addr :: "32 word"

definition AF_INET :: nat where "AF_INET = 2"
definition INET_ADDRSTRLEN :: nat where "INET_ADDRSTRLEN = 16"
definition INADDR_ANY :: "32 word" where "INADDR_ANY = 0"

text \<open>The characters a C string has before its terminating null.\<close>

definition c_str :: "string \<Rightarrow> string" where
  "c_str s = takeWhile (\<lambda>c. c \<noteq> CHR 0x00) s"

text \<open>What \<^verbatim>\<open>snprintf\<close> leaves in a buffer of \<open>sz\<close> bytes, read back as a C string.\<close>

definition snprintf :: "nat \<Rightarrow> string \<Rightarrow> string" where
  "snprintf sz s = take (sz - 1) s"

fun join_dots :: "nat list \<Rightarrow> string" where
  "join_dots [] = []"
| "join_dots [n] = dec_nat n"
| "join_dots (n # ns) = dec_nat n @ CHR ''.'' # join_dots ns"

definition inet_ntop :: "32 word \<Rightarrow> string" where
  "inet_ntop a = join_dots (map of_char (le_bytes 4 (unat a)))"

text \<open>
  \<^verbatim>\<open>inet_pton(AF_INET, ...)\<close>: four decimal octets of at most 255 without superfluous leading
  zeros. The arguments are the octets read (latest first), the current one, and whether
  it has a digit yet.
\<close>

fun pton_loop :: "string \<Rightarrow> nat list \<Rightarrow> nat \<Rightarrow> bool \<Rightarrow> nat list option" where
  "pton_loop [] octs cur saw = (if saw \<and> length octs = 3 then Some (rev (cur # octs)) else None)"
| "pton_loop (c # cs) octs cur saw =
     (if is_digit c
      then let new = cur * 10 + digit_val c
           in if saw \<and> cur = 0 then None
              else if 255 < new then None
              else if \<not> saw \<and> 4 < length octs + 1 then None
              else pton_loop cs octs new True
      else if c = CHR ''.'' \<and> saw
      then if length octs + 1 = 4 then None else pton_loop cs (cur # octs) 0 False
      else None)"

definition inet_pton :: "string \<Rightarrow> 32 word option" where
  "inet_pton s = map_option (\<lambda>os. word_of_nat (le_val (map char_of os))) (pton_loop s [] 0 False)"

section \<open>Addresses\<close>

definition fromIpPort :: "string \<Rightarrow> 16 word \<Rightarrow> sockaddr_in \<Rightarrow> sockaddr_in res" where
  "fromIpPort ip port addr =
     (let addr = addr\<lparr>sin_family := AF_INET, sin_port := htons port\<rparr>
      in case inet_pton ip of None \<Rightarrow> Inl Exit_Failure | Some a \<Rightarrow> Inr (addr\<lparr>sin_addr := a\<rparr>))"

definition sockets_toIp :: "nat \<Rightarrow> sockaddr_in \<Rightarrow> string res" where
  "sockets_toIp sz addr = assertE (INET_ADDRSTRLEN \<le> sz) (Inr (inet_ntop (sin_addr addr)))"

definition sockets_toIpPort :: "nat \<Rightarrow> sockaddr_in \<Rightarrow> string res" where
  "sockets_toIpPort sz addr =
     bindE (sockets_toIp INET_ADDRSTRLEN addr) (\<lambda>host.
     let port = htons (sin_port addr)
     in Inr (snprintf sz (host @ CHR '':'' # dec_nat (unat port))))"

definition zero_addr :: sockaddr_in where
  "zero_addr = \<lparr>sin_family = 0, sin_port = 0, sin_addr = 0\<rparr>"

definition InetAddress_port :: "16 word \<Rightarrow> sockaddr_in" where
  "InetAddress_port port =
     zero_addr\<lparr>sin_family := AF_INET, sin_addr := htonl INADDR_ANY, sin_port := htons port\<rparr>"

definition InetAddress_ip :: "string \<Rightarrow> 16 word \<Rightarrow> sockaddr_in res" where
  "InetAddress_ip ip port = fromIpPort (c_str ip) port zero_addr"

definition InetAddress_addr :: "sockaddr_in \<Rightarrow> sockaddr_in" where
  "InetAddress_addr addr = addr"

definition toIp :: "sockaddr_in \<Rightarrow> string res" where
  "toIp a = sockets_toIp 32 a"

definition toIpPort :: "sockaddr_in \<Rightarrow> string res" where
  "toIpPort a = sockets_toIpPort 32 a"

definition setSockAddrInet :: "sockaddr_in \<Rightarrow> sockaddr_in \<Rightarrow> sockaddr_in" where
  "setSockAddrInet addr a = addr"

definition ipNetEndian :: "sockaddr_in \<Rightarrow> 32 word" where
  "ipNetEndian a = sin_addr a"

definition portNetEndian :: "sockaddr_in \<Rightarrow> 16 word" where
  "portNetEndian a = sin_port a"

section \<open>Printing and parsing\<close>

lemma dec_nat_1: "n < 10 \<Longrightarrow> dec_nat n = [char_of (48 + n)]"
  by (simp add: dec_nat.simps)

lemma dec_nat_more: "10 \<le> n \<Longrightarrow> dec_nat n = dec_nat (n div 10) @ [char_of (48 + n mod 10)]"
  by (subst dec_nat.simps) simp

lemma length_dec_nat: "n < 10 ^ Suc k \<Longrightarrow> length (dec_nat n) \<le> Suc k"
proof (induction k arbitrary: n)
  case 0
  then show ?case by (simp add: dec_nat_1)
next
  case (Suc k)
  show ?case
  proof (cases "n < 10")
    case True
    then show ?thesis by (simp add: dec_nat_1)
  next
    case False
    have "n div 10 < 10 ^ Suc k" using Suc.prems by (simp add: less_mult_imp_div_less)
    then have "length (dec_nat (n div 10)) \<le> Suc k" by (rule Suc.IH)
    then show ?thesis using False by (simp add: dec_nat_more)
  qed
qed

lemma pton_digit:
  assumes "d < 10" and "saw \<longrightarrow> cur \<noteq> 0" and "cur * 10 + d \<le> 255" and "length octs \<le> 3"
  shows "pton_loop (char_of (48 + d) # cs) octs cur saw = pton_loop cs octs (cur * 10 + d) True"
  using assms digit_char[OF assms(1)] by (auto simp: Let_def not_less)

lemma pton_octet:
  assumes "n \<le> 255" and "length octs \<le> 3"
  shows "pton_loop (dec_nat n @ rest) octs 0 False = pton_loop rest octs n True"
proof -
  consider "n < 10" | "10 \<le> n" "n < 100" | "100 \<le> n" by linarith
  then show ?thesis
  proof cases
    case 1
    then show ?thesis using assms pton_digit[of n False 0 octs rest] by (simp add: dec_nat_1)
  next
    case 2
    have d: "n div 10 < 10" "n div 10 \<noteq> 0" "n div 10 * 10 + n mod 10 = n" using 2 by auto
    have "pton_loop (dec_nat n @ rest) octs 0 False
        = pton_loop (char_of (48 + n mod 10) # rest) octs (n div 10) True"
      using 2 d assms pton_digit[of "n div 10" False 0 octs] by (simp add: dec_nat_1 dec_nat_more del: pton_loop.simps)
    also have "\<dots> = pton_loop rest octs n True"
      using pton_digit[of "n mod 10" True "n div 10" octs rest] d assms by (simp del: pton_loop.simps)
    finally show ?thesis .
  next
    case 3
    let ?h = "n div 10 div 10" and ?t = "n div 10 mod 10"
    have d: "10 \<le> n" "10 \<le> n div 10" "?h < 10" "?h \<noteq> 0" "?t < 10" "?h * 10 + ?t = n div 10" "n div 10 * 10 + n mod 10 = n"
      using 3 assms(1) by auto
    have le: "?h \<le> 255" "n div 10 \<le> 255" "n div 10 \<noteq> 0" using d assms(1) by auto
    have "pton_loop (dec_nat n @ rest) octs 0 False
        = pton_loop (char_of (48 + ?t) # char_of (48 + n mod 10) # rest) octs ?h True"
      using d le assms pton_digit[of ?h False 0 octs] by (simp add: dec_nat_1 dec_nat_more del: pton_loop.simps)
    also have "\<dots> = pton_loop (char_of (48 + n mod 10) # rest) octs (n div 10) True"
      using pton_digit[of ?t True ?h octs] d le assms by (simp del: pton_loop.simps)
    also have "\<dots> = pton_loop rest octs n True"
      using pton_digit[of "n mod 10" True "n div 10" octs rest] d le assms by (simp del: pton_loop.simps)
    finally show ?thesis .
  qed
qed

lemma not_digit_dot: "\<not> is_digit (CHR ''.'')"
  by (simp add: is_digit_def)

lemma list_of_four: "length xs = 4 \<Longrightarrow> \<exists>a b c d. xs = [a, b, c, d]"
  by (auto simp: numeral_eq_Suc length_Suc_conv)

lemma pton_ntop: "length bs = 4 \<Longrightarrow> pton_loop (join_dots (map of_char bs)) [] 0 False = Some (map of_char (bs :: char list))"
proof -
  assume "length bs = 4"
  then obtain a b c d where bs: "bs = [a, b, c, d]" using list_of_four by blast
  have le: "(of_char x :: nat) \<le> 255" for x using of_char_bound[of x] by linarith
  show ?thesis
    using pton_octet[OF le, of "[]" a] pton_octet[OF le, of "[of_char a]" b]
      pton_octet[OF le, of "[of_char b, of_char a]" c] pton_octet[OF le, of "[of_char c, of_char b, of_char a]" d "[]"]
    by (simp add: bs not_digit_dot)
qed

lemma inet_pton_ntop: "inet_pton (inet_ntop a) = Some a"
proof -
  have "pton_loop (inet_ntop a) [] 0 False = Some (map of_char (le_bytes 4 (unat a)))"
    unfolding inet_ntop_def by (rule pton_ntop) simp
  moreover have "map (char_of \<circ> of_char) xs = (xs :: char list)" for xs by (induction xs) simp_all
  ultimately show ?thesis
    by (simp add: inet_pton_def le_val_le_bytes_word32)
qed

lemma join_dots_chars: "c \<in> set (join_dots ns) \<Longrightarrow> is_digit c \<or> c = CHR ''.''"
  by (induction ns rule: join_dots.induct) (use dec_nat_digits in auto)

lemma c_str_ntop: "c_str (inet_ntop a) = inet_ntop a"
proof -
  have "c \<noteq> CHR 0x00" if "c \<in> set (inet_ntop a)" for c
    using join_dots_chars[of c] that by (auto simp: inet_ntop_def is_digit_def)
  then show ?thesis unfolding c_str_def by (simp add: takeWhile_eq_all_conv)
qed

lemma length_inet_ntop: "length (inet_ntop a) \<le> 15"
proof -
  obtain b c d e where bs: "le_bytes 4 (unat a) = [b, c, d, e]" using list_of_four[OF length_le_bytes] by blast
  have "length (dec_nat (of_char x)) \<le> 3" for x :: char
    using length_dec_nat[of "of_char x" 2] of_char_bound[of x] by simp
  from this[of b] this[of c] this[of d] this[of e] show ?thesis by (simp add: inet_ntop_def bs)
qed

lemma htons_htons [simp]: "htons (htons x) = x"
proof -
  have "le_val (rev (le_bytes 2 (unat x))) < 2 ^ 16"
    using le_val_less[of "rev (le_bytes 2 (unat x))"] by simp
  then have "le_bytes 2 (unat (htons x)) = rev (le_bytes 2 (unat x))"
    using le_bytes_le_val[of "rev (le_bytes 2 (unat x))"] by (simp add: htons_def unat_of_nat)
  then show ?thesis by (simp add: htons_def[of "htons x"] le_val_le_bytes_word16)
qed

lemma toIpPort_text:
  "toIpPort a = Inr (inet_ntop (sin_addr a) @ CHR '':'' # dec_nat (unat (htons (sin_port a))))"
proof -
  have "unat (htons (sin_port a)) < 2 ^ 16" using unsigned_less[of "htons (sin_port a)", where 'a = nat] by simp
  then have "unat (htons (sin_port a)) < 10 ^ Suc 4" by simp
  then have "length (dec_nat (unat (htons (sin_port a)))) \<le> 5" using length_dec_nat by fastforce
  then show ?thesis
    using length_inet_ntop[of "sin_addr a"]
    by (simp add: toIpPort_def sockets_toIpPort_def sockets_toIp_def snprintf_def)
qed

text \<open>
  Addresses survive printing. The text of \<^verbatim>\<open>toIp\<close>, given back to the constructor with the
  port in host order, denotes the same address; \<^verbatim>\<open>toIpPort\<close> is that text, a colon and the
  decimal port, never cut off by its buffer of 32 bytes.
\<close>

theorem InetAddress_roundtrip:
  "\<exists>ip. toIp a = Inr ip
     \<and> InetAddress_ip ip (htons (portNetEndian a)) = Inr (a\<lparr>sin_family := AF_INET\<rparr>)
     \<and> toIpPort a = Inr (ip @ CHR '':'' # dec_nat (unat (htons (portNetEndian a))))"
  by (simp add: toIp_def sockets_toIp_def INET_ADDRSTRLEN_def InetAddress_ip_def fromIpPort_def c_str_ntop
      inet_pton_ntop portNetEndian_def toIpPort_text zero_addr_def Let_def)

end
