(* ===== verification/Sockets.thy ===== *)
theory Sockets
  imports Inet_Address Channel_Poller
begin

text \<open>
  Socket operations and the acceptor: \<^verbatim>\<open>socketOps.{h,cpp}\<close>, \<^verbatim>\<open>socket.{h,cpp}\<close> and
  \<^verbatim>\<open>Acceptor.{h,cpp}\<close> under \<^verbatim>\<open>plugins/Muduo/muduo/net\<close>. The answers of the system calls are
  arguments: a failing call answers with an error number (or a negative result), and the
  functions named \<^verbatim>\<open>...OrDie\<close> then end the process.
\<close>

section \<open>System call wrappers\<close>

definition O_NONBLOCK :: "32 word" where "O_NONBLOCK = 0x800"
definition FD_CLOEXEC :: "32 word" where "FD_CLOEXEC = 1"

text \<open>The values stored with \<^verbatim>\<open>F_SETFL\<close> and \<^verbatim>\<open>F_SETFD\<close>, from those read before.\<close>

definition setNonblockAndCloseOnExec :: "32 word \<Rightarrow> 32 word \<Rightarrow> 32 word \<times> 32 word" where
  "setNonblockAndCloseOnExec fl fd_fl = (fl OR O_NONBLOCK, fd_fl OR FD_CLOEXEC)"

definition createNonblockingOrDie :: "int \<Rightarrow> int res" where
  "createNonblockingOrDie sockfd = (if sockfd < 0 then Inl Exit_Failure else Inr sockfd)"

definition sockets_close :: "int \<Rightarrow> unit res" where
  "sockets_close ret = (if ret < 0 then Inl Exit_Failure else Inr ())"

definition bindOrDie :: "int \<Rightarrow> unit res" where
  "bindOrDie ret = (if ret < 0 then Inl Exit_Failure else Inr ())"

definition listenOrDie :: "int \<Rightarrow> unit res" where
  "listenOrDie ret = (if ret < 0 then Inl Exit_Failure else Inr ())"

definition errno_EAGAIN :: int where "errno_EAGAIN = 11"
definition errno_ECONNABORTED :: int where "errno_ECONNABORTED = 103"
definition errno_EINTR :: int where "errno_EINTR = 4"
definition errno_EPROTO :: int where "errno_EPROTO = 71"
definition errno_EPERM :: int where "errno_EPERM = 1"
definition errno_EMFILE :: int where "errno_EMFILE = 24"

text \<open>
  Errors of \<^verbatim>\<open>accept\<close> that concern one connection or pass by are returned; all others (bad
  descriptor or argument, exhausted system, unknown) end the process.
\<close>

definition sockets_accept :: "int + (fd \<times> sockaddr_in) \<Rightarrow> (int + (fd \<times> sockaddr_in)) res" where
  "sockets_accept answer =
     (case answer of
        Inl savedErrno \<Rightarrow>
          if savedErrno \<in> {errno_EAGAIN, errno_ECONNABORTED, errno_EINTR, errno_EPROTO, errno_EPERM, errno_EMFILE}
          then Inr (Inl savedErrno) else Inl Exit_Failure
      | Inr (connfd, addr) \<Rightarrow> Inr (Inr (connfd, addr)))"

definition getSocketError :: "int + int \<Rightarrow> int" where
  "getSocketError answer = (case answer of Inl err \<Rightarrow> err | Inr optval \<Rightarrow> optval)"

definition getLocalAddr :: "sockaddr_in option \<Rightarrow> sockaddr_in res" where
  "getLocalAddr answer = (case answer of None \<Rightarrow> Inl Exit_Failure | Some a \<Rightarrow> Inr a)"

definition getPeerAddr :: "sockaddr_in option \<Rightarrow> sockaddr_in res" where
  "getPeerAddr answer = (case answer of None \<Rightarrow> Inl Exit_Failure | Some a \<Rightarrow> Inr a)"

definition isSelfConnect :: "sockaddr_in option \<Rightarrow> sockaddr_in option \<Rightarrow> bool res" where
  "isSelfConnect local peer =
     bindE (getLocalAddr local) (\<lambda>localaddr.
     bindE (getPeerAddr peer) (\<lambda>peeraddr.
     Inr (sin_addr localaddr = sin_addr peeraddr \<and> sin_port localaddr = sin_port peeraddr)))"

text \<open>\<^verbatim>\<open>Socket::accept\<close> stores the peer's address only when there is a connection.\<close>

definition Socket_accept :: "int + (fd \<times> sockaddr_in) \<Rightarrow> sockaddr_in \<Rightarrow> ((int + fd) \<times> sockaddr_in) res" where
  "Socket_accept answer peerAddr =
     bindE (sockets_accept answer) (\<lambda>r.
     case r of Inl err \<Rightarrow> Inr (Inl err, peerAddr)
             | Inr (connfd, addr) \<Rightarrow> Inr (Inr connfd, setSockAddrInet addr peerAddr))"

section \<open>The acceptor\<close>

text \<open>
  \<open>a_open\<close> is the set of open descriptors of the process. \<open>a_delivered\<close> lists the connections
  handed to the owner.
\<close>

record acceptor =
  acceptSocket :: fd
  acceptChannel :: chan_id
  newConnectionCallback :: bool
  acc_listening :: bool
  idlefd :: fd

record acc_world = acceptor +
  a_poller :: poller
  a_open :: "fd set"
  a_calls :: nat
  a_delivered :: "(fd \<times> sockaddr_in) list"

record acc_env =
  ae_ctl :: ctl_env
  ae_accept :: "nat \<Rightarrow> fd set \<Rightarrow> int + (fd \<times> sockaddr_in)"
  ae_open :: "nat \<Rightarrow> fd set \<Rightarrow> int"
  ae_socket :: "nat \<Rightarrow> fd set \<Rightarrow> int"
  ae_close :: "nat \<Rightarrow> int"
  ae_bind :: int
  ae_listen :: int

definition open_fd :: "int \<Rightarrow> acc_world \<Rightarrow> acc_world" where
  "open_fd fd w = (if 0 \<le> fd then w\<lparr>a_open := insert fd (a_open w)\<rparr> else w)"

definition close_fd :: "int \<Rightarrow> acc_world \<Rightarrow> acc_world" where
  "close_fd fd w = w\<lparr>a_open := a_open w - {fd}\<rparr>"

definition open_dev_null :: "acc_env \<Rightarrow> acc_world \<Rightarrow> int \<times> acc_world" where
  "open_dev_null env w =
     (let fd = ae_open env (a_calls w) (a_open w) in (fd, open_fd fd (w\<lparr>a_calls := Suc (a_calls w)\<rparr>)))"

definition sys_accept :: "acc_env \<Rightarrow> acc_world \<Rightarrow> (int + (fd \<times> sockaddr_in)) \<times> acc_world" where
  "sys_accept env w =
     (let r = ae_accept env (a_calls w) (a_open w); w = w\<lparr>a_calls := Suc (a_calls w)\<rparr>
      in case r of Inl e \<Rightarrow> (Inl e, w) | Inr (fd, a) \<Rightarrow> (Inr (fd, a), open_fd fd w))"

definition Acceptor_new :: "acc_env \<Rightarrow> chan_id \<Rightarrow> fd set \<Rightarrow> poller \<Rightarrow> acc_world res" where
  "Acceptor_new env k opened p =
     bindE (createNonblockingOrDie (ae_socket env 0 opened)) (\<lambda>sockfd.
     let w = \<lparr>acceptSocket = sockfd, acceptChannel = k, newConnectionCallback = False, acc_listening = False,
              idlefd = - 1, a_poller = put_chan k (Channel_new sockfd) p, a_open = insert sockfd opened,
              a_calls = 1, a_delivered = []\<rparr>;
         (fd, w) = open_dev_null env w;
         w = w\<lparr>idlefd := fd\<rparr>
     in assertE (0 < idlefd w)
         (bindE (bindOrDie (ae_bind env)) (\<lambda>_.
          Inr (w\<lparr>a_poller := put_chan k ((Channel_new sockfd)\<lparr>readCallback := Some 0\<rparr>) (a_poller w)\<rparr>))))"

definition setNewConnectionCallback :: "bool \<Rightarrow> acc_world \<Rightarrow> acc_world" where
  "setNewConnectionCallback cb w = w\<lparr>newConnectionCallback := cb\<rparr>"

definition Acceptor_listen :: "acc_env \<Rightarrow> acc_world \<Rightarrow> acc_world res" where
  "Acceptor_listen env w =
     (let w = w\<lparr>acc_listening := True\<rparr>
      in bindE (listenOrDie (ae_listen env)) (\<lambda>_.
         bindE (enableReading (ae_ctl env) (acceptChannel w) (a_poller w)) (\<lambda>p.
         Inr (w\<lparr>a_poller := p\<rparr>))))"

definition Acceptor_handleRead :: "acc_env \<Rightarrow> acc_world \<Rightarrow> acc_world res" where
  "Acceptor_handleRead env w =
     (let (answer, w) = sys_accept env w
      in bindE (Socket_accept answer (InetAddress_port 0)) (\<lambda>(connfd, peerAddr).
         case connfd of
           Inr fd \<Rightarrow>
             if newConnectionCallback w then Inr (w\<lparr>a_delivered := a_delivered w @ [(fd, peerAddr)]\<rparr>)
             else bindE (sockets_close (ae_close env (a_calls w))) (\<lambda>_. Inr (close_fd fd w))
         | Inl err \<Rightarrow>
             if err = errno_EMFILE
             then let w = close_fd (idlefd w) w;
                      (r, w) = sys_accept env w;
                      w = w\<lparr>idlefd := (case r of Inl _ \<Rightarrow> - 1 | Inr (fd, _) \<Rightarrow> fd)\<rparr>;
                      w = close_fd (idlefd w) w;
                      (fd, w) = open_dev_null env w
                  in Inr (w\<lparr>idlefd := fd\<rparr>)
             else Inr w))"

definition Acceptor_delete :: "acc_env \<Rightarrow> acc_world \<Rightarrow> acc_world res" where
  "Acceptor_delete env w =
     bindE (disableAll (ae_ctl env) (acceptChannel w) (a_poller w)) (\<lambda>p.
     bindE (Channel_remove (ae_ctl env) (acceptChannel w) p) (\<lambda>p.
     Inr (close_fd (idlefd w) (w\<lparr>a_poller := p\<rparr>))))"

section \<open>Descriptors are neither leaked nor lost\<close>

text \<open>New descriptors are not yet open, as \<^verbatim>\<open>accept\<close>, \<^verbatim>\<open>open\<close> and \<^verbatim>\<open>socket\<close> document.\<close>

definition acc_env_documented :: "acc_env \<Rightarrow> bool" where
  "acc_env_documented env \<longleftrightarrow>
     (\<forall>n s fd a. ae_accept env n s = Inr (fd, a) \<longrightarrow> 0 \<le> fd \<and> fd \<notin> s)
     \<and> (\<forall>n s. ae_open env n s \<notin> s \<or> ae_open env n s < 0)"

text \<open>The descriptors in use: \<open>base\<close>, the idle one, and the connections handed over.\<close>

definition acc_owned :: "fd set \<Rightarrow> acc_world \<Rightarrow> bool" where
  "acc_owned base w \<longleftrightarrow>
     a_open w = base \<union> {fd. fd = idlefd w \<and> 0 \<le> fd} \<union> fst ` set (a_delivered w)
     \<and> (\<forall>fd \<in> base \<union> fst ` set (a_delivered w). 0 \<le> fd \<and> fd \<noteq> idlefd w)
     \<and> distinct (map fst (a_delivered w)) \<and> base \<inter> fst ` set (a_delivered w) = {}"

lemma acc_env_documentedD:
  assumes "acc_env_documented env"
  shows "ae_accept env n s = Inr (fd, a) \<Longrightarrow> 0 \<le> fd \<and> fd \<notin> s" and "0 \<le> ae_open env n s \<Longrightarrow> ae_open env n s \<notin> s"
  using assms unfolding acc_env_documented_def by (blast, metis not_le)


lemma acc_ownedD:
  assumes "acc_owned base w"
  shows "a_open w = base \<union> {fd. fd = idlefd w \<and> 0 \<le> fd} \<union> fst ` set (a_delivered w)"
    and "fd \<in> base \<or> fd \<in> fst ` set (a_delivered w) \<Longrightarrow> 0 \<le> fd \<and> fd \<noteq> idlefd w"
    and "distinct (map fst (a_delivered w))" and "base \<inter> fst ` set (a_delivered w) = {}"
  using assms unfolding acc_owned_def by blast+

lemma acc_owned_cong:
  "acc_owned base v \<Longrightarrow> a_open w = a_open v \<Longrightarrow> idlefd w = idlefd v \<Longrightarrow> a_delivered w = a_delivered v
   \<Longrightarrow> acc_owned base w"
  by (simp add: acc_owned_def)

lemma acc_owned_deliver:
  assumes own: "acc_owned base w" and "0 \<le> fd" and new: "fd \<notin> a_open w"
  shows "acc_owned base (w\<lparr>a_open := insert fd (a_open w), a_calls := n, a_delivered := a_delivered w @ [(fd, a)]\<rparr>)"
proof -
  note O = acc_ownedD[OF own]
  have "fd \<notin> base" "fd \<notin> fst ` set (a_delivered w)" "fd \<noteq> idlefd w" using new assms(2) O(1) by auto
  then show ?thesis using O assms(2) by (auto simp: acc_owned_def)
qed

text \<open>Giving up the idle descriptor, and taking a new one.\<close>

lemma acc_owned_reopen:
  assumes env: "acc_env_documented env" and own: "acc_owned base w"
  shows "acc_owned base (let (fd, w) = open_dev_null env (w\<lparr>a_open := a_open w - {idlefd w}\<rparr>) in w\<lparr>idlefd := fd\<rparr>)"
proof -
  note O = acc_ownedD[OF own]
  let ?s = "base \<union> fst ` set (a_delivered w)"
  have s: "a_open w - {idlefd w} = ?s" using O(1,2) by auto
  let ?fd = "ae_open env (a_calls w) ?s"
  have new: "?fd \<notin> ?s" if "0 \<le> ?fd" using acc_env_documentedD(2)[OF env that] .
  show ?thesis
  proof (cases "0 \<le> ?fd")
    case True
    then show ?thesis using new[OF True] O(2,3,4) by (auto simp: acc_owned_def open_dev_null_def open_fd_def s Let_def)
  next
    case False
    then show ?thesis using O(2,3,4) by (auto simp: acc_owned_def open_dev_null_def open_fd_def s Let_def)
  qed
qed

lemma Acceptor_handleRead_owned:
  assumes env: "acc_env_documented env" and own: "acc_owned base w"
  shows "case Acceptor_handleRead env w of Inl f \<Rightarrow> f = Exit_Failure | Inr w' \<Rightarrow> acc_owned base w'"
proof (cases "ae_accept env (a_calls w) (a_open w)")
  case (Inr r)
  obtain fd a where r: "r = (fd, a)" by (cases r)
  have fd: "0 \<le> fd" "fd \<notin> a_open w" using acc_env_documentedD(1)[OF env] Inr r by blast+
  note d = acc_owned_deliver[OF own fd]
  have cl: "acc_owned base (w\<lparr>a_open := insert fd (a_open w) - {fd}, a_calls := n\<rparr>)" for n
    using own fd by (simp add: acc_owned_def)
  have v: "acc_owned base (w\<lparr>a_calls := n, a_open := insert fd (a_open w), a_delivered := a_delivered w @ [(fd, a)]\<rparr>)"
    "acc_owned base (w\<lparr>a_calls := n, a_open := a_open w - {fd}\<rparr>)" for n
    by (rule acc_owned_cong[OF d], simp_all) (rule acc_owned_cong[OF cl], simp_all)
  show ?thesis
    using Inr r fd(1) v
    by (simp add: Acceptor_handleRead_def sys_accept_def Socket_accept_def sockets_accept_def open_fd_def
        sockets_close_def setSockAddrInet_def close_fd_def Let_def)
next
  case (Inl e)
  let ?w = "w\<lparr>a_calls := Suc (a_calls w)\<rparr>"
  have ow: "acc_owned base ?w" using own by (simp add: acc_owned_def)
  have red: "Acceptor_handleRead env w =
      (if e = errno_EMFILE
       then let w = close_fd (idlefd ?w) ?w; (r, w) = sys_accept env w;
                w = w\<lparr>idlefd := (case r of Inl _ \<Rightarrow> - 1 | Inr (fd, _) \<Rightarrow> fd)\<rparr>; w = close_fd (idlefd w) w;
                (fd, w) = open_dev_null env w
            in Inr (w\<lparr>idlefd := fd\<rparr>)
       else if e \<in> {errno_EAGAIN, errno_ECONNABORTED, errno_EINTR, errno_EPROTO, errno_EPERM} then Inr ?w
       else Inl Exit_Failure)"
    using Inl by (auto simp: Acceptor_handleRead_def sys_accept_def Socket_accept_def sockets_accept_def Let_def)
  show ?thesis
  proof (cases "e = errno_EMFILE")
    case False
    then show ?thesis using red ow by auto
  next
    case True
    note O = acc_ownedD[OF own]
    let ?s = "a_open w - {idlefd w}"
    have s: "?s = base \<union> fst ` set (a_delivered w)" using O(1,2) by auto
    have nn: "fd \<notin> base" "fd \<notin> fst ` set (a_delivered w)" if "fd < 0" for fd using O(2)[of fd] that by auto
    show ?thesis
    proof (cases "ae_accept env (Suc (a_calls w)) ?s")
      case Inl2: (Inl e2)
      let ?v = "w\<lparr>idlefd := - 1, a_open := ?s, a_calls := Suc (Suc (a_calls w))\<rparr>"
      have "acc_owned base ?v" using O(2,3,4) nn[of "- 1"] unfolding s acc_owned_def by auto
      from acc_owned_reopen[OF env this] show ?thesis
        using red True Inl2
        by (simp add: close_fd_def sys_accept_def open_dev_null_def open_fd_def Let_def)
          (auto elim!: acc_owned_cong split: if_splits)
    next
      case (Inr r)
      obtain fd a where r: "r = (fd, a)" by (cases r)
      have fd: "0 \<le> fd" "fd \<notin> ?s" using acc_env_documentedD(1)[OF env] Inr r by blast+
      let ?v = "w\<lparr>idlefd := fd, a_open := insert fd ?s, a_calls := Suc (Suc (a_calls w))\<rparr>"
      have "acc_owned base ?v" using O(2,3,4) fd unfolding s acc_owned_def by auto
      from acc_owned_reopen[OF env this] show ?thesis
        using red True Inr r fd(1)
        by (simp add: close_fd_def sys_accept_def open_dev_null_def open_fd_def Let_def)
          (auto elim!: acc_owned_cong split: if_splits)
    qed
  qed
qed


interpretation acc_machine: event_machine "\<lambda>w. acc_env_documented env \<and> acc_owned base w" "\<lambda>_ :: unit. True"
  "{Exit_Failure}" "\<lambda>_. Acceptor_handleRead env" for env base
proof
  fix w e w' f assume a: "acc_env_documented env \<and> acc_owned base w"
  have "case Acceptor_handleRead env w of Inl f \<Rightarrow> f = Exit_Failure | Inr w' \<Rightarrow> acc_owned base w'"
    using Acceptor_handleRead_owned a by blast
  then show "Acceptor_handleRead env w = Inr w' \<Longrightarrow> acc_env_documented env \<and> acc_owned base w'"
    and "Acceptor_handleRead env w = Inl f \<Longrightarrow> f \<in> {Exit_Failure}"
    using a by simp_all
qed

lemma Acceptor_new_owned:
  assumes env: "acc_env_documented env" and "\<And>fd. fd \<in> opened \<Longrightarrow> 0 \<le> fd"
    and new: "Acceptor_new env k opened p = Inr w"
  shows "acc_owned (insert (acceptSocket w) opened) w"
proof -
  let ?s = "ae_socket env 0 opened"
  let ?o = "insert ?s opened"
  let ?fd = "ae_open env 1 ?o"
  have s: "0 \<le> ?s" "0 < ?fd" "acceptSocket w = ?s" "idlefd w = ?fd" "a_open w = insert ?fd ?o" "a_delivered w = []"
    using new by (auto simp: Acceptor_new_def createNonblockingOrDie_def open_dev_null_def open_fd_def
        assertE_Inr_iff bindE_Inr_iff Let_def split: if_splits)
  have "?fd \<notin> ?o" using acc_env_documentedD(2)[OF env, of 1 ?o] s(2) by simp
  then show ?thesis using s assms(2) by (auto simp: acc_owned_def)
qed

text \<open>
  C29: The acceptor leaks no descriptor and loses no connection. After any number of readable
  events, with whatever answers of \<^verbatim>\<open>accept\<close>, the open descriptors are those open before, the
  listening socket, the idle one, and one per connection handed to the owner; errors that the
  code does not expect end the process.
\<close>

theorem acceptor_no_leak:
  assumes "acc_env_documented env" and "\<And>fd. fd \<in> opened \<Longrightarrow> 0 \<le> fd"
    and "Acceptor_new env k opened p = Inr w0"
  shows "case foldE (\<lambda>_. Acceptor_handleRead env) (replicate n ()) (setNewConnectionCallback cb w0) of
     Inl f \<Rightarrow> f = Exit_Failure
   | Inr w \<Rightarrow> a_open w = insert (acceptSocket w0) opened \<union> {fd. fd = idlefd w \<and> 0 \<le> fd} \<union> fst ` set (a_delivered w)
       \<and> distinct (map fst (a_delivered w)) \<and> (\<forall>fd \<in> fst ` set (a_delivered w). fd \<notin> opened)"
proof -
  let ?w = "setNewConnectionCallback cb w0"
  have "acc_owned (insert (acceptSocket w0) opened) ?w"
    by (rule acc_owned_cong[OF Acceptor_new_owned[OF assms]]) (simp_all add: setNewConnectionCallback_def)
  then have run: "case foldE (\<lambda>_. Acceptor_handleRead env) (replicate n ()) ?w of
      Inr w \<Rightarrow> acc_env_documented env \<and> acc_owned (insert (acceptSocket w0) opened) w | Inl f \<Rightarrow> f \<in> {Exit_Failure}"
    by (intro acc_machine.run_safe) (use assms(1) in auto)
  show ?thesis
  proof (cases "foldE (\<lambda>_. Acceptor_handleRead env) (replicate n ()) ?w")
    case (Inl f)
    then show ?thesis using run by simp
  next
    case (Inr w)
    then have "acc_owned (insert (acceptSocket w0) opened) w" using run by simp
    from acc_ownedD[OF this] show ?thesis using Inr by auto
  qed
qed

text \<open>A process that may have the descriptors 0 to 5, and always has a connection waiting.\<close>

definition demo_free :: "fd set \<Rightarrow> int" where
  "demo_free s = (case filter (\<lambda>fd. fd \<notin> s) [0, 1, 2, 3, 4, 5] of [] \<Rightarrow> - 1 | fd # _ \<Rightarrow> fd)"

lemma demo_free_cases: "demo_free s = - 1 \<and> {0, 1, 2, 3, 4, 5} \<subseteq> s \<or> 0 \<le> demo_free s \<and> demo_free s \<notin> s"
  by (simp add: demo_free_def)

definition demo_acc :: acc_env where
  "demo_acc = \<lparr>ae_ctl = demo_ctl,
     ae_accept = (\<lambda>_ s. if demo_free s < 0 then Inl errno_EMFILE else Inr (demo_free s, zero_addr)),
     ae_open = (\<lambda>_ s. demo_free s), ae_socket = (\<lambda>_ s. demo_free s),
     ae_close = (\<lambda>_. 0), ae_bind = 0, ae_listen = 0\<rparr>"

lemma demo_acc_documented: "acc_env_documented demo_acc"
  unfolding acc_env_documented_def
proof (intro conjI allI impI)
  fix n s fd a assume "ae_accept demo_acc n s = Inr (fd, a)"
  then have "fd = demo_free s" "\<not> demo_free s < 0" by (simp_all add: demo_acc_def split: if_splits)
  then show "0 \<le> fd" "fd \<notin> s" using demo_free_cases[of s] by auto
next
  fix n s show "ae_open demo_acc n s \<notin> s \<or> ae_open demo_acc n s < 0"
    using demo_free_cases[of s] by (auto simp: demo_acc_def)
qed

definition demo_acceptor :: acc_world where
  "demo_acceptor = projr (Acceptor_new demo_acc 1 {0, 1, 2} empty_poller)"

lemma demo_acceptor_new: "Acceptor_new demo_acc 1 {0, 1, 2} empty_poller = Inr demo_acceptor"
  and demo_acceptor: "acceptSocket demo_acceptor = 3" "idlefd demo_acceptor = 4" "a_open demo_acceptor = {0, 1, 2, 3, 4}"
    "a_calls demo_acceptor = 2" "a_delivered demo_acceptor = []"
  by (auto simp: demo_acceptor_def Acceptor_new_def demo_acc_def demo_free_def createNonblockingOrDie_def
      open_dev_null_def open_fd_def bindOrDie_def Let_def)

lemma demo_accept_one:
  "\<exists>w. Acceptor_handleRead demo_acc (setNewConnectionCallback True demo_acceptor) = Inr w \<and> idlefd w = 4
     \<and> a_open w = {0, 1, 2, 3, 4, 5} \<and> a_delivered w = [(5, zero_addr)] \<and> a_calls w = 3"
  by (auto simp: Acceptor_handleRead_def sys_accept_def demo_acc_def demo_free_def Socket_accept_def sockets_accept_def
      setNewConnectionCallback_def setSockAddrInet_def open_fd_def demo_acceptor Let_def)

theorem acceptor_no_leak_witness:
  "\<exists>w. foldE (\<lambda>_. Acceptor_handleRead demo_acc) (replicate 1 ()) (setNewConnectionCallback True demo_acceptor) = Inr w
     \<and> a_open w = {0, 1, 2, 3, 4, 5} \<and> distinct (map fst (a_delivered w)) \<and> a_delivered w \<noteq> []"
proof -
  obtain w where w: "Acceptor_handleRead demo_acc (setNewConnectionCallback True demo_acceptor) = Inr w"
      "a_open w = {0, 1, 2, 3, 4, 5}" "a_delivered w = [(5, zero_addr)]"
    using demo_accept_one by blast
  have "\<And>fd. fd \<in> {0, 1, 2} \<Longrightarrow> 0 \<le> (fd :: int)" by auto
  from acceptor_no_leak[OF demo_acc_documented this demo_acceptor_new, of 1 True] w show ?thesis by simp
qed

text \<open>
  Running out of descriptors does not block the listening socket. If \<^verbatim>\<open>accept\<close> fails with \<^verbatim>\<open>EMFILE\<close>
  while a connection is waiting, the acceptor gives up its idle descriptor, takes the
  connection off the queue, drops it, and has an idle descriptor again, provided one free
  descriptor is enough for \<^verbatim>\<open>accept\<close> and \<^verbatim>\<open>open\<close> to succeed.
\<close>

theorem acceptor_survives_exhaustion:
  assumes "acc_env_documented env" and "acc_owned base w" and "0 \<le> idlefd w" and "finite (a_open w)"
    and "ae_accept env (a_calls w) (a_open w) = Inl errno_EMFILE"
    and "\<And>n s. s \<subset> a_open w \<Longrightarrow> (\<exists>fd a. ae_accept env n s = Inr (fd, a)) \<and> 0 \<le> ae_open env n s"
  shows "\<exists>w' fd a. Acceptor_handleRead env w = Inr w' \<and> 0 \<le> idlefd w' \<and> card (a_open w') = card (a_open w)
     \<and> a_delivered w' = a_delivered w
     \<and> ae_accept env (Suc (a_calls w)) (a_open w - {idlefd w}) = Inr (fd, a) \<and> fd \<notin> a_open w' - {idlefd w'}"
proof -
  let ?s = "a_open w - {idlefd w}"
  have i: "idlefd w \<in> a_open w" using acc_ownedD(1)[OF assms(2)] assms(3) by auto
  have s: "?s \<subset> a_open w" "Suc (card ?s) = card (a_open w)" "finite ?s"
    using assms(4) i by (auto simp: card_Suc_Diff1 simp del: card_Diff_insert)
  obtain fd a where fd: "ae_accept env (Suc (a_calls w)) ?s = Inr (fd, a)" using assms(6)[OF s(1)] by blast
  have new: "0 \<le> fd" "fd \<notin> ?s" using acc_env_documentedD(1)[OF assms(1) fd] by blast+
  let ?null = "ae_open env (Suc (Suc (a_calls w))) ?s"
  have null: "0 \<le> ?null" "?null \<notin> ?s" using assms(6)[OF s(1)] acc_env_documentedD(2)[OF assms(1)] by blast+
  have e: "insert fd ?s - {fd} = ?s" using new(2) by simp
  have "\<exists>w'. Acceptor_handleRead env w = Inr w' \<and> idlefd w' = ?null \<and> a_open w' = insert ?null ?s \<and> a_delivered w' = a_delivered w"
    using assms(5) fd new(1) null(1) e
    by (simp add: Acceptor_handleRead_def sys_accept_def Socket_accept_def sockets_accept_def close_fd_def
        open_fd_def open_dev_null_def Let_def)
  then obtain w' where w': "Acceptor_handleRead env w = Inr w'" "idlefd w' = ?null" "a_open w' = insert ?null ?s"
      "a_delivered w' = a_delivered w" by blast
  have "card (a_open w') = card (a_open w)" using w'(3) null(2) s(2,3) by simp
  moreover have "fd \<notin> a_open w' - {idlefd w'}" using w'(2,3) new(2) by auto
  ultimately show ?thesis using w' null(1) fd by auto
qed

theorem acceptor_survives_exhaustion_witness:
  "\<exists>w w'. Acceptor_handleRead demo_acc (setNewConnectionCallback True demo_acceptor) = Inr w
     \<and> Acceptor_handleRead demo_acc w = Inr w' \<and> 0 \<le> idlefd w' \<and> a_delivered w' = a_delivered w"
proof -
  obtain w where w: "Acceptor_handleRead demo_acc (setNewConnectionCallback True demo_acceptor) = Inr w"
      "idlefd w = 4" "a_open w = {0, 1, 2, 3, 4, 5}" "a_delivered w = [(5, zero_addr)]"
    using demo_accept_one by blast
  have own: "acc_owned {0, 1, 2, 3} w" using w by (auto simp: acc_owned_def)
  have full: "ae_accept demo_acc (a_calls w) (a_open w) = Inl errno_EMFILE" using w(3) by (simp add: demo_acc_def demo_free_def)
  have free: "(\<exists>fd a. ae_accept demo_acc n s = Inr (fd, a)) \<and> 0 \<le> ae_open demo_acc n s" if "s \<subset> a_open w" for n s
    using demo_free_cases[of s] that w(3) by (auto simp: demo_acc_def)
  from acceptor_survives_exhaustion[OF demo_acc_documented own _ _ full free] w show ?thesis by auto
qed

end
