(* ===== verification/Tcp_Client.thy ===== *)
theory Tcp_Client
  imports Sockets
begin

text \<open>
  The active side: \<^verbatim>\<open>Connector.{h,cpp}\<close> establishes a connection, with growing delays between
  attempts, and \<^verbatim>\<open>TcpClient.{h,cpp}\<close> owns it, both under \<^verbatim>\<open>plugins/Muduo/muduo/net\<close>.

  The answers of the system calls are an environment. Its field \<open>ce_weak_set\<close> tells whether the
  weak pointer inside \<^verbatim>\<open>enable_shared_from_this\<close> was set when the connector was put into its
  \<^verbatim>\<open>shared_ptr\<close>. The class inherits privately from that base, so the \<^verbatim>\<open>shared_ptr\<close> constructor
  cannot see it and does not set the pointer: the code as written has \<open>ce_weak_set = False\<close>, and
  \<^verbatim>\<open>shared_from_this()\<close> throws. With public inheritance the field would be \<open>True\<close>.
\<close>

section \<open>The connector\<close>

datatype States = Kdisconnected | Kconnecting | Kconnected

datatype co_functor = F_startInLoop | F_stopInLoop | F_resetChannel

text \<open>
  \<open>co_channel\<close> is the descriptor behind \<^verbatim>\<open>channel_\<close> and whether the channel is registered with
  the poller. \<open>co_open\<close> are the sockets the connector has opened and neither closed nor handed
  over, \<open>co_handed\<close> those given to the callback, \<open>co_delays\<close> the delays of scheduled retries.
\<close>

record connector =
  co_connect :: bool
  co_state :: States
  co_channel :: "(fd \<times> bool) option"
  retryDelayMs :: int

record co_world = connector +
  co_pending :: "co_functor list"
  co_delays :: "int list"
  co_open :: "fd list"
  co_handed :: "fd list"
  co_calls :: nat

record co_env =
  ce_weak_set :: bool
  ce_socket :: "nat \<Rightarrow> int"
  ce_connect :: "nat \<Rightarrow> int"
  ce_close :: "nat \<Rightarrow> int"
  ce_sockerr :: "nat \<Rightarrow> int + int"
  ce_local :: "nat \<Rightarrow> sockaddr_in option"
  ce_peer :: "nat \<Rightarrow> sockaddr_in option"

definition KMaxRetryDelayMs :: int where "KMaxRetryDelayMs = 30 * 1000"
definition KInitRetryDelayMs :: int where "KInitRetryDelayMs = 500"

definition Connector_new :: co_world where
  "Connector_new = \<lparr>co_connect = False, co_state = Kdisconnected, co_channel = None,
     retryDelayMs = KInitRetryDelayMs, co_pending = [], co_delays = [], co_open = [], co_handed = [], co_calls = 0\<rparr>"

definition Connector_delete :: "co_world \<Rightarrow> unit res" where
  "Connector_delete w = assertE (co_channel w = None) (Inr ())"

definition co_setState :: "States \<Rightarrow> co_world \<Rightarrow> co_world" where
  "co_setState s w = w\<lparr>co_state := s\<rparr>"

definition co_close :: "co_env \<Rightarrow> fd \<Rightarrow> co_world \<Rightarrow> co_world res" where
  "co_close env sockfd w =
     bindE (sockets_close (ce_close env (co_calls w))) (\<lambda>_.
     Inr (w\<lparr>co_open := remove1 sockfd (co_open w), co_calls := Suc (co_calls w)\<rparr>))"

definition shared_from_this :: "co_env \<Rightarrow> unit res" where
  "shared_from_this env = (if ce_weak_set env then Inr () else Inl Bad_Weak_Ptr)"

definition retry :: "co_env \<Rightarrow> fd \<Rightarrow> co_world \<Rightarrow> co_world res" where
  "retry env sockfd w =
     bindE (co_close env sockfd w) (\<lambda>w.
     let w = co_setState Kdisconnected w
     in if co_connect w
        then bindE (shared_from_this env) (\<lambda>_.
             Inr (w\<lparr>co_delays := co_delays w @ [retryDelayMs w],
                    retryDelayMs := (if retryDelayMs w * 2 < KMaxRetryDelayMs then retryDelayMs w * 2 else KMaxRetryDelayMs)\<rparr>))
        else Inr w)"

definition connecting :: "fd \<Rightarrow> co_world \<Rightarrow> co_world res" where
  "connecting sockfd w =
     (let w = co_setState Kconnecting w
      in assertE (co_channel w = None) (Inr (w\<lparr>co_channel := Some (sockfd, True)\<rparr>)))"

definition co_EINPROGRESS :: int where "co_EINPROGRESS = 115"
definition co_EISCONN :: int where "co_EISCONN = 106"
definition co_EADDRINUSE :: int where "co_EADDRINUSE = 98"
definition co_EADDRNOTAVAIL :: int where "co_EADDRNOTAVAIL = 99"
definition co_ECONNREFUSED :: int where "co_ECONNREFUSED = 111"
definition co_ENETUNREACH :: int where "co_ENETUNREACH = 101"

definition co_connect_once :: "co_env \<Rightarrow> co_world \<Rightarrow> co_world res" where
  "co_connect_once env w =
     bindE (createNonblockingOrDie (ce_socket env (co_calls w))) (\<lambda>sockfd.
     let saveError = ce_connect env (Suc (co_calls w));
         w = w\<lparr>co_open := sockfd # co_open w, co_calls := Suc (Suc (co_calls w))\<rparr>
     in if saveError \<in> {0, co_EINPROGRESS, co_EISCONN} then connecting sockfd w
        else if saveError \<in> {errno_EAGAIN, co_EADDRINUSE, co_EADDRNOTAVAIL, co_ECONNREFUSED, co_ENETUNREACH}
        then retry env sockfd w
        else co_close env sockfd w)"

definition startInLoop :: "co_env \<Rightarrow> co_world \<Rightarrow> co_world res" where
  "startInLoop env w =
     assertE (co_state w = Kdisconnected) (if co_connect w then co_connect_once env w else Inr w)"

definition start :: "co_env \<Rightarrow> bool \<Rightarrow> co_world \<Rightarrow> co_world res" where
  "start env in_loop w =
     (if co_connect w then Inr w
      else let w = w\<lparr>co_connect := True\<rparr>
           in if in_loop then startInLoop env w else Inr (w\<lparr>co_pending := co_pending w @ [F_startInLoop]\<rparr>))"

text \<open>Taking the channel from the poller; the object is reset by a queued functor.\<close>

definition removeAndResetChannel :: "co_world \<Rightarrow> (fd \<times> co_world) res" where
  "removeAndResetChannel w =
     (case co_channel w of
        None \<Rightarrow> Inl Null_Deref
      | Some (sockfd, _) \<Rightarrow>
          Inr (sockfd, w\<lparr>co_channel := Some (sockfd, False), co_pending := co_pending w @ [F_resetChannel]\<rparr>))"

definition resetChannel :: "co_world \<Rightarrow> co_world" where
  "resetChannel w = w\<lparr>co_channel := None\<rparr>"

definition stopInLoop :: "co_env \<Rightarrow> co_world \<Rightarrow> co_world res" where
  "stopInLoop env w =
     (if co_state w = Kconnecting
      then bindE (removeAndResetChannel (co_setState Kdisconnected w)) (\<lambda>(sockfd, w). co_close env sockfd w)
      else Inr w)"

definition stop :: "co_env \<Rightarrow> bool \<Rightarrow> co_world \<Rightarrow> co_world res" where
  "stop env in_loop w =
     (let w = w\<lparr>co_connect := False\<rparr>
      in if in_loop then stopInLoop env w else Inr (w\<lparr>co_pending := co_pending w @ [F_stopInLoop]\<rparr>))"

definition restart :: "co_env \<Rightarrow> co_world \<Rightarrow> co_world res" where
  "restart env w =
     startInLoop env ((co_setState Kdisconnected w)\<lparr>retryDelayMs := KInitRetryDelayMs, co_connect := True\<rparr>)"

definition co_handleWrite :: "co_env \<Rightarrow> co_world \<Rightarrow> co_world res" where
  "co_handleWrite env w =
     (if co_state w = Kconnecting
      then bindE (removeAndResetChannel w) (\<lambda>(sockfd, w).
           let err = getSocketError (ce_sockerr env (co_calls w)); w = w\<lparr>co_calls := Suc (co_calls w)\<rparr>
           in if err \<noteq> 0 then retry env sockfd w
              else bindE (isSelfConnect (ce_local env (co_calls w)) (ce_peer env (co_calls w))) (\<lambda>self.
                   if self then retry env sockfd w
                   else let w = co_setState Kconnected w
                        in if co_connect w
                           then Inr (w\<lparr>co_open := remove1 sockfd (co_open w), co_handed := co_handed w @ [sockfd]\<rparr>)
                           else co_close env sockfd w))
      else assertE (co_state w = Kdisconnected) (Inr w))"

definition co_handleError :: "co_env \<Rightarrow> co_world \<Rightarrow> co_world res" where
  "co_handleError env w =
     assertE (co_state w = Kconnecting)
       (bindE (removeAndResetChannel w) (\<lambda>(sockfd, w).
        retry env sockfd (w\<lparr>co_calls := Suc (co_calls w)\<rparr>)))"

text \<open>
  What can happen: calls from the loop thread or another (\<^verbatim>\<open>restart\<close> only by the owner of an
  established connection), the next functor, an event of the registered channel, or a retry
  timer.
\<close>

datatype co_event = Co_Start bool | Co_Stop bool | Co_Restart | Co_Functor | Co_Writable | Co_Error | Co_Timer

definition co_functor :: "co_env \<Rightarrow> co_functor \<Rightarrow> co_world \<Rightarrow> co_world res" where
  "co_functor env f w =
     (case f of F_startInLoop \<Rightarrow> startInLoop env w | F_stopInLoop \<Rightarrow> stopInLoop env w | F_resetChannel \<Rightarrow> Inr (resetChannel w))"

definition registered :: "co_world \<Rightarrow> bool" where
  "registered w \<longleftrightarrow> (\<exists>fd. co_channel w = Some (fd, True))"

fun co_step :: "co_env \<Rightarrow> co_event \<Rightarrow> co_world \<Rightarrow> co_world res" where
  "co_step env (Co_Start in_loop) w = start env in_loop w"
| "co_step env (Co_Stop in_loop) w = stop env in_loop w"
| "co_step env Co_Restart w = (if co_state w = Kconnected then restart env w else Inr w)"
| "co_step env Co_Functor w =
     (case co_pending w of [] \<Rightarrow> Inr w | f # fs \<Rightarrow> co_functor env f (w\<lparr>co_pending := fs\<rparr>))"
| "co_step env Co_Writable w = (if registered w then co_handleWrite env w else Inr w)"
| "co_step env Co_Error w = (if registered w then co_handleError env w else Inr w)"
| "co_step env Co_Timer w = (if co_delays w = [] then Inr w else startInLoop env w)"

section \<open>Invariant of the connector\<close>

definition co_base :: "co_world \<Rightarrow> bool" where
  "co_base w \<longleftrightarrow>
     length (filter (\<lambda>f. f = F_resetChannel) (co_pending w)) = (case co_channel w of Some (fd, False) \<Rightarrow> 1 | _ \<Rightarrow> 0)
     \<and> KInitRetryDelayMs \<le> retryDelayMs w \<and> retryDelayMs w \<le> KMaxRetryDelayMs
     \<and> (\<forall>d \<in> set (co_delays w). KInitRetryDelayMs \<le> d \<and> d \<le> KMaxRetryDelayMs)"

definition co_inv :: "co_world \<Rightarrow> bool" where
  "co_inv w \<longleftrightarrow> co_base w \<and> (co_state w = Kconnecting \<longleftrightarrow> registered w)
     \<and> co_open w = (case co_channel w of Some (fd, True) \<Rightarrow> [fd] | _ \<Rightarrow> [])"

definition co_fail :: "co_env \<Rightarrow> failure set" where
  "co_fail env = {Assert_Failed, Exit_Failure} \<union> (if ce_weak_set env then {} else {Bad_Weak_Ptr})"

definition co_ok :: "co_env \<Rightarrow> co_world res \<Rightarrow> bool" where
  "co_ok env r \<longleftrightarrow> (case r of Inl f \<Rightarrow> f \<in> co_fail env | Inr w \<Rightarrow> co_inv w)"

lemma co_close_ok:
  assumes "co_base w" and "co_open w = [fd]" and "\<not> registered w" and "co_state w \<noteq> Kconnecting"
  shows "co_ok env (co_close env fd w)"
  using assms
  by (auto simp: co_ok_def co_close_def sockets_close_def co_fail_def co_inv_def co_base_def registered_def
      split: option.splits bool.splits)

lemma retry_ok:
  assumes "co_base w" and "co_open w = [fd]" and "\<not> registered w"
  shows "co_ok env (retry env fd w)"
  using assms
  by (auto simp: co_ok_def retry_def co_close_def sockets_close_def co_fail_def co_inv_def co_base_def registered_def
      co_setState_def shared_from_this_def KInitRetryDelayMs_def KMaxRetryDelayMs_def Let_def
      split: option.splits bool.splits)

lemma connecting_ok:
  assumes "co_base w" and "co_open w = [fd]"
  shows "co_ok env (connecting fd w)"
  using assms
  by (cases "co_channel w") (auto simp: co_ok_def connecting_def co_fail_def co_inv_def co_base_def registered_def
      co_setState_def Let_def)

lemma co_connect_once_ok:
  assumes "co_inv w" and "co_state w \<noteq> Kconnecting"
  shows "co_ok env (co_connect_once env w)"
proof (cases "ce_socket env (co_calls w) < 0")
  case True
  then show ?thesis by (simp add: co_connect_once_def createNonblockingOrDie_def co_ok_def co_fail_def)
next
  case False
  let ?fd = "ce_socket env (co_calls w)"
  let ?w = "w\<lparr>co_open := ?fd # co_open w, co_calls := Suc (Suc (co_calls w))\<rparr>"
  have b: "co_base ?w" "co_open ?w = [?fd]" "\<not> registered ?w" "co_state ?w \<noteq> Kconnecting"
    using assms by (auto simp: co_inv_def co_base_def registered_def split: option.splits bool.splits)
  show ?thesis
    using False connecting_ok[OF b(1,2)] retry_ok[OF b(1-3)] co_close_ok[OF b]
    by (simp add: co_connect_once_def createNonblockingOrDie_def Let_def)
qed

lemma startInLoop_ok: "co_inv w \<Longrightarrow> co_ok env (startInLoop env w)"
  using co_connect_once_ok[of w env]
  by (cases "co_state w = Kdisconnected") (auto simp: startInLoop_def co_ok_def co_fail_def)

lemma removeAndResetChannel_ok:
  assumes "co_inv w" and "co_state w = Kconnecting"
  shows "\<exists>fd v. removeAndResetChannel (co_setState s w) = Inr (fd, v) \<and> co_base v \<and> co_open v = [fd] \<and> \<not> registered v
     \<and> co_state v = s \<and> co_connect v = co_connect w"
proof -
  obtain fd where "co_channel w = Some (fd, True)" using assms by (auto simp: co_inv_def registered_def)
  then show ?thesis
    using assms by (auto simp: removeAndResetChannel_def co_setState_def co_inv_def co_base_def registered_def)
qed

lemma stopInLoop_ok:
  assumes "co_inv w" shows "co_ok env (stopInLoop env w)"
proof (cases "co_state w = Kconnecting")
  case True
  obtain fd v where v: "removeAndResetChannel (co_setState Kdisconnected w) = Inr (fd, v)" "co_base v" "co_open v = [fd]"
      "\<not> registered v" "co_state v = Kdisconnected"
    using removeAndResetChannel_ok[OF assms True] by blast
  then show ?thesis using True co_close_ok[OF v(2-4)] by (simp add: stopInLoop_def)
next
  case False
  then show ?thesis using assms by (simp add: stopInLoop_def co_ok_def)
qed

lemma co_setState_same: "co_setState (co_state w) w = w"
  by (simp add: co_setState_def)

lemma co_base_calls [simp]: "co_base (w\<lparr>co_calls := n\<rparr>) = co_base w" "registered (w\<lparr>co_calls := n\<rparr>) = registered w"
  by (simp_all add: co_base_def registered_def)

lemma co_handleWrite_ok:
  assumes "co_inv w" shows "co_ok env (co_handleWrite env w)"
proof (cases "co_state w = Kconnecting")
  case True
  obtain fd v where v: "removeAndResetChannel w = Inr (fd, v)" "co_base v" "co_open v = [fd]" "\<not> registered v"
      "co_state v = Kconnecting"
    using removeAndResetChannel_ok[OF assms True, of Kconnecting] True co_setState_same[of w] by auto
  let ?v = "v\<lparr>co_calls := Suc (co_calls v)\<rparr>"
  have r: "co_ok env (retry env fd ?v)" using v by (intro retry_ok) simp_all
  have c: "co_ok env (co_close env fd (co_setState Kconnected ?v))"
    using v by (intro co_close_ok) (simp_all add: co_setState_def co_base_def registered_def)
  have h: "co_inv ((co_setState Kconnected ?v)\<lparr>co_open := remove1 fd (co_open v), co_handed := co_handed v @ [fd]\<rparr>)"
    using v by (auto simp: co_inv_def co_setState_def co_base_def registered_def split: option.splits bool.splits)
  have e: "co_ok env (Inl Exit_Failure)" by (simp add: co_ok_def co_fail_def)
  have h': "co_ok env (Inr ((co_setState Kconnected ?v)\<lparr>co_open := remove1 fd (co_open v), co_handed := co_handed v @ [fd]\<rparr>))"
    using h by (simp add: co_ok_def)
  show ?thesis
    using True v(1,3) r c h' e
    by (auto simp: co_handleWrite_def isSelfConnect_def getLocalAddr_def getPeerAddr_def co_setState_def Let_def
        split: option.splits)
next
  case False
  then show ?thesis using assms by (cases "co_state w") (auto simp: co_handleWrite_def co_ok_def co_fail_def)
qed

lemma co_handleError_ok:
  assumes "co_inv w" shows "co_ok env (co_handleError env w)"
proof (cases "co_state w = Kconnecting")
  case True
  obtain fd v where v: "removeAndResetChannel w = Inr (fd, v)" "co_base v" "co_open v = [fd]" "\<not> registered v"
    using removeAndResetChannel_ok[OF assms True, of Kconnecting] True co_setState_same[of w] by auto
  have "co_ok env (retry env fd (v\<lparr>co_calls := Suc (co_calls v)\<rparr>))" using v by (intro retry_ok) simp_all
  then show ?thesis using True v(1) by (simp add: co_handleError_def)
qed (simp add: co_handleError_def co_ok_def co_fail_def)

lemma co_functor_ok:
  assumes "co_inv w" and "co_pending w = f # fs"
  shows "co_ok env (co_functor env f (w\<lparr>co_pending := fs\<rparr>))"
proof (cases f)
  case F_resetChannel
  then show ?thesis using assms
    by (auto simp: co_functor_def co_ok_def co_inv_def co_base_def resetChannel_def registered_def
        split: option.splits bool.splits)
next
  case F_startInLoop
  then have "co_inv (w\<lparr>co_pending := fs\<rparr>)" using assms by (simp add: co_inv_def co_base_def registered_def)
  then show ?thesis using F_startInLoop startInLoop_ok by (simp add: co_functor_def)
next
  case F_stopInLoop
  then have "co_inv (w\<lparr>co_pending := fs\<rparr>)" using assms by (simp add: co_inv_def co_base_def registered_def)
  then show ?thesis using F_stopInLoop stopInLoop_ok by (simp add: co_functor_def)
qed

lemma co_step_ok:
  assumes "co_inv w" shows "co_ok env (co_step env e w)"
proof (cases e)
  case (Co_Start in_loop)
  have i: "co_inv (w\<lparr>co_connect := True\<rparr>)" "co_inv (w\<lparr>co_connect := True, co_pending := co_pending w @ [F_startInLoop]\<rparr>)"
    using assms by (simp_all add: co_inv_def co_base_def registered_def)
  show ?thesis using Co_Start assms i startInLoop_ok[OF i(1)] by (simp add: start_def co_ok_def Let_def)
next
  case (Co_Stop in_loop)
  have i: "co_inv (w\<lparr>co_connect := False\<rparr>)" "co_inv (w\<lparr>co_connect := False, co_pending := co_pending w @ [F_stopInLoop]\<rparr>)"
    using assms by (simp_all add: co_inv_def co_base_def registered_def)
  show ?thesis using Co_Stop i stopInLoop_ok[OF i(1)] by (simp add: stop_def co_ok_def Let_def)
next
  case Co_Restart
  have "co_inv ((co_setState Kdisconnected w)\<lparr>retryDelayMs := KInitRetryDelayMs, co_connect := True\<rparr>)" if "co_state w = Kconnected"
    using assms that
    by (simp add: co_inv_def co_base_def registered_def co_setState_def KInitRetryDelayMs_def KMaxRetryDelayMs_def)
  then show ?thesis using Co_Restart assms startInLoop_ok by (simp add: restart_def co_ok_def)
next
  case Co_Functor
  then show ?thesis using assms co_functor_ok[OF assms] by (auto simp: co_ok_def split: list.splits)
qed (use assms co_handleWrite_ok co_handleError_ok startInLoop_ok in \<open>simp_all add: co_ok_def\<close>)

interpretation co_machine: event_machine co_inv "\<lambda>_. True" "co_fail env" "co_step env" for env
proof
  fix w e w' f assume "co_inv w"
  then have "co_ok env (co_step env e w)" by (rule co_step_ok)
  then show "co_step env e w = Inr w' \<Longrightarrow> co_inv w'" and "co_step env e w = Inl f \<Longrightarrow> f \<in> co_fail env"
    by (simp_all add: co_ok_def)
qed

lemma co_inv_new: "co_inv Connector_new"
  by (simp add: co_inv_def co_base_def registered_def Connector_new_def KInitRetryDelayMs_def KMaxRetryDelayMs_def)

section \<open>The client\<close>

text \<open>
  A \<^verbatim>\<open>TcpConnectionPtr\<close> is the number of the connection (\<^verbatim>\<open>nextConnId_\<close> at its creation).
  \<open>cl_calls\<close> logs what the client does to its connections.
\<close>

datatype conn_call = Conn_Established nat | Conn_Shutdown nat | Conn_ForceClose nat | Conn_Destroyed nat
  | Conn_OrphanCallback nat

record tcp_client =
  cl_name :: string
  cl_retry :: bool
  cl_connect :: bool
  cl_nextConnId :: nat
  cl_connection :: "nat option"
  cl_connector :: co_world
  cl_calls :: "conn_call list"
  cl_names :: "(nat \<times> string) list"

definition TcpClient_new :: "string \<Rightarrow> tcp_client" where
  "TcpClient_new name = \<lparr>cl_name = name, cl_retry = False, cl_connect = False, cl_nextConnId = 1,
     cl_connection = None, cl_connector = Connector_new, cl_calls = [], cl_names = []\<rparr>"

definition enableRetry :: "tcp_client \<Rightarrow> tcp_client" where
  "enableRetry c = c\<lparr>cl_retry := True\<rparr>"

definition TcpClient_connect :: "co_env \<Rightarrow> bool \<Rightarrow> tcp_client \<Rightarrow> tcp_client res" where
  "TcpClient_connect env in_loop c =
     bindE (start env in_loop (cl_connector c)) (\<lambda>w. Inr (c\<lparr>cl_connect := True, cl_connector := w\<rparr>))"

definition TcpClient_disconnect :: "tcp_client \<Rightarrow> tcp_client" where
  "TcpClient_disconnect c =
     (let c = c\<lparr>cl_connect := False\<rparr>
      in case cl_connection c of None \<Rightarrow> c | Some i \<Rightarrow> c\<lparr>cl_calls := cl_calls c @ [Conn_Shutdown i]\<rparr>)"

definition TcpClient_stop :: "co_env \<Rightarrow> bool \<Rightarrow> tcp_client \<Rightarrow> tcp_client res" where
  "TcpClient_stop env in_loop c =
     bindE (stop env in_loop (cl_connector c)) (\<lambda>w. Inr (c\<lparr>cl_connect := False, cl_connector := w\<rparr>))"

text \<open>The name of a connection: the address and the number, cut off by a buffer of 32 bytes.\<close>

definition conn_label :: "char \<Rightarrow> string \<Rightarrow> nat \<Rightarrow> string" where
  "conn_label sep addr i = snprintf 32 (addr @ sep # dec_nat i)"

text \<open>\<^verbatim>\<open>++nextConnId_\<close> on an \<^verbatim>\<open>int\<close>.\<close>

definition next_id :: "nat \<Rightarrow> nat res" where
  "next_id i = (if Suc i < 2 ^ 31 then Inr (Suc i) else Inl Undefined)"

definition TcpClient_newConnection :: "sockaddr_in option \<Rightarrow> sockaddr_in option \<Rightarrow> tcp_client \<Rightarrow> tcp_client res" where
  "TcpClient_newConnection peer local c =
     bindE (getPeerAddr peer) (\<lambda>peerAddr.
     bindE (toIpPort peerAddr) (\<lambda>ipport.
     let i = cl_nextConnId c;
         buf = conn_label (CHR ''#'') ipport i
     in bindE (next_id i) (\<lambda>i'.
        bindE (getLocalAddr local) (\<lambda>localAddr.
        Inr (c\<lparr>cl_nextConnId := i', cl_connection := Some i, cl_names := cl_names c @ [(i, cl_name c @ buf)],
               cl_calls := cl_calls c @ [Conn_Established i]\<rparr>)))))"

definition TcpClient_removeConnection :: "co_env \<Rightarrow> nat \<Rightarrow> tcp_client \<Rightarrow> tcp_client res" where
  "TcpClient_removeConnection env conn c =
     assertE (cl_connection c = Some conn)
       (let c = c\<lparr>cl_connection := None, cl_calls := cl_calls c @ [Conn_Destroyed conn]\<rparr>
        in if cl_retry c \<and> cl_connect c
           then bindE (restart env (cl_connector c)) (\<lambda>w. Inr (c\<lparr>cl_connector := w\<rparr>))
           else Inr c)"

text \<open>
  The destructor: \<open>unique\<close> tells whether nobody else holds the connection. Without one, the
  connector is stopped and kept alive by a timer of one second.
\<close>

definition TcpClient_delete :: "co_env \<Rightarrow> bool \<Rightarrow> bool \<Rightarrow> tcp_client \<Rightarrow> tcp_client res" where
  "TcpClient_delete env in_loop unique c =
     (case cl_connection c of
        Some i \<Rightarrow> Inr (c\<lparr>cl_calls := cl_calls c @ [Conn_OrphanCallback i] @ (if unique then [Conn_ForceClose i] else [])\<rparr>)
      | None \<Rightarrow> bindE (stop env in_loop (cl_connector c)) (\<lambda>w. Inr (c\<lparr>cl_connector := w\<rparr>)))"

section \<open>Properties\<close>

text \<open>
  C30: The connector holds exactly one socket while it is connecting and none otherwise, whatever
  calls, events, functors and timers happen: it neither leaks a socket nor uses one after
  closing it or handing it over. The delay before a retry is between half a second and
  thirty seconds. It can fail only by its assertions, by the ends of process of the socket
  functions, and by \<^verbatim>\<open>shared_from_this\<close> as long as the inheritance is private.
\<close>

theorem connector_owns_one_socket:
  "case foldE (co_step env) es Connector_new of
     Inl f \<Rightarrow> f = Assert_Failed \<or> f = Exit_Failure \<or> f = Bad_Weak_Ptr \<and> \<not> ce_weak_set env
   | Inr w \<Rightarrow>
       (case co_open w of [] \<Rightarrow> co_state w \<noteq> Kconnecting
        | [fd] \<Rightarrow> co_state w = Kconnecting \<and> co_channel w = Some (fd, True) | _ \<Rightarrow> False)
       \<and> (\<forall>d \<in> set (co_delays w). 500 \<le> d \<and> d \<le> 30000)"
proof -
  have run: "case foldE (co_step env) es Connector_new of Inr w \<Rightarrow> co_inv w | Inl f \<Rightarrow> f \<in> co_fail env"
    by (rule co_machine.run_safe[OF co_inv_new]) simp
  show ?thesis
  proof (cases "foldE (co_step env) es Connector_new")
    case (Inl f)
    then show ?thesis using run by (auto simp: co_fail_def split: if_splits)
  next
    case (Inr w)
    then have "co_inv w" using run by simp
    then show ?thesis
      using Inr by (auto simp: co_inv_def co_base_def registered_def KInitRetryDelayMs_def KMaxRetryDelayMs_def
          split: option.splits bool.splits prod.splits)
  qed
qed

definition demo_pending :: co_env where
  "demo_pending = \<lparr>ce_weak_set = False, ce_socket = (\<lambda>_. 7), ce_connect = (\<lambda>_. co_EINPROGRESS), ce_close = (\<lambda>_. 0),
     ce_sockerr = (\<lambda>_. Inr 0), ce_local = (\<lambda>_. Some zero_addr), ce_peer = (\<lambda>_. None)\<rparr>"

theorem connector_owns_one_socket_witness:
  "\<exists>w. foldE (co_step demo_pending) [Co_Start True] Connector_new = Inr w \<and> co_open w = [7]
     \<and> co_state w = Kconnecting \<and> co_channel w = Some (7, True)"
proof -
  obtain w where "foldE (co_step demo_pending) [Co_Start True] Connector_new = Inr w" "co_open w = [7]"
    by (simp add: start_def startInLoop_def Connector_new_def co_connect_once_def createNonblockingOrDie_def
        demo_pending_def connecting_def co_setState_def Let_def)
  then show ?thesis using connector_owns_one_socket[of demo_pending "[Co_Start True]"] by simp
qed

definition co_refused :: "co_env \<Rightarrow> bool" where
  "co_refused env \<longleftrightarrow> (\<forall>n. 0 \<le> ce_socket env n \<and> 0 \<le> ce_close env n \<and> ce_connect env n = co_ECONNREFUSED)"

definition backoff :: "nat \<Rightarrow> int" where
  "backoff k = min (500 * 2 ^ k) 30000"

lemma backoff_Suc: "(if backoff k * 2 < KMaxRetryDelayMs then backoff k * 2 else KMaxRetryDelayMs) = backoff (Suc k)"
  by (auto simp: backoff_def KMaxRetryDelayMs_def min_def)

lemma refused_attempt:
  assumes "co_refused env" and "ce_weak_set env" and "co_state w = Kdisconnected" and "co_connect w"
    and "retryDelayMs w = backoff k"
  shows "\<exists>v. startInLoop env w = Inr v \<and> co_state v = Kdisconnected \<and> co_connect v
     \<and> co_delays v = co_delays w @ [backoff k] \<and> retryDelayMs v = backoff (Suc k)"
proof -
  note r = assms(1)[unfolded co_refused_def, rule_format]
  have "\<not> ce_socket env n < 0" "\<not> ce_close env n < 0" "ce_connect env n = co_ECONNREFUSED" for n using r[of n] by auto
  then show ?thesis
    using assms(2-5) backoff_Suc[of k]
    by (simp add: startInLoop_def co_connect_once_def createNonblockingOrDie_def retry_def co_close_def sockets_close_def
        shared_from_this_def co_setState_def co_ECONNREFUSED_def co_EINPROGRESS_def co_EISCONN_def Let_def
        split: if_splits)
qed

text \<open>
  The documented back-off, once the weak pointer is set: when every attempt is refused, the
  delays before the retries are 0.5 s, 1 s, 2 s, 4 s, 8 s, 16 s, and 30 s from then on.
\<close>

theorem connector_backoff:
  assumes "co_refused env" and "ce_weak_set env"
  shows "\<exists>w. foldE (co_step env) (Co_Start True # replicate n Co_Timer) Connector_new = Inr w
     \<and> co_delays w = map (\<lambda>k. min (500 * 2 ^ k) 30000) [0..<Suc n] \<and> co_state w = Kdisconnected"
proof -
  have timers: "\<exists>v. foldE (co_step env) (replicate n Co_Timer) w = Inr v \<and> co_delays v = co_delays w @ map backoff [k..<k + n]
      \<and> co_state v = Kdisconnected"
    if "co_state w = Kdisconnected" "co_connect w" "retryDelayMs w = backoff k" "co_delays w \<noteq> []" for n k w
    using that
  proof (induction n arbitrary: w k)
    case (Suc n)
    obtain v where v: "startInLoop env w = Inr v" "co_state v = Kdisconnected" "co_connect v"
        "co_delays v = co_delays w @ [backoff k]" "retryDelayMs v = backoff (Suc k)"
      using refused_attempt[OF assms Suc.prems(1-3)] by blast
    have "co_delays v \<noteq> []" using v(4) by simp
    from Suc.IH[OF v(2,3,5) this] show ?case
      using v(1,4) Suc.prems(4) by (auto simp: upt_conv_Cons[of k "Suc (k + n)"] simp del: upt_Suc)
  qed simp
  let ?w = "Connector_new\<lparr>co_connect := True\<rparr>"
  have "co_state ?w = Kdisconnected" "co_connect ?w" "retryDelayMs ?w = backoff 0"
    by (simp_all add: Connector_new_def backoff_def KInitRetryDelayMs_def)
  from refused_attempt[OF assms this] obtain v where v: "startInLoop env ?w = Inr v" "co_state v = Kdisconnected"
      "co_connect v" "co_delays v = [backoff 0]" "retryDelayMs v = backoff (Suc 0)"
    by (auto simp: Connector_new_def)
  have st: "co_step env (Co_Start True) Connector_new = Inr v"
    using v(1) by (simp add: start_def Connector_new_def Let_def)
  have e: "map (\<lambda>k. min (500 * 2 ^ k) 30000) [0..<Suc n] = backoff 0 # map backoff [Suc 0..<Suc 0 + n]"
    by (simp add: upt_conv_Cons backoff_def[abs_def] del: upt_Suc)
  show ?thesis unfolding e using st timers[OF v(2,3,5), of n] v(4) by auto
qed

definition demo_refused :: "bool \<Rightarrow> co_env" where
  "demo_refused weak = \<lparr>ce_weak_set = weak, ce_socket = (\<lambda>_. 7), ce_connect = (\<lambda>_. co_ECONNREFUSED), ce_close = (\<lambda>_. 0),
     ce_sockerr = (\<lambda>_. Inr 0), ce_local = (\<lambda>_. Some zero_addr), ce_peer = (\<lambda>_. None)\<rparr>"

theorem connector_backoff_witness:
  "\<exists>w. foldE (co_step (demo_refused True)) (Co_Start True # replicate 7 Co_Timer) Connector_new = Inr w
     \<and> co_delays w = [500, 1000, 2000, 4000, 8000, 16000, 30000, 30000]"
  using connector_backoff[of "demo_refused True" 7]
  by (auto simp: demo_refused_def co_refused_def upt_rec)



text \<open>
  Stopping and starting again on the loop thread while a connection is in progress fails the
  assertion \<^verbatim>\<open>!channel_\<close>: the channel is reset only by a functor that has not run yet.
\<close>

lemma stop_then_start_asserts:
  assumes "co_inv w" and "co_state w = Kconnecting" and "0 \<le> ce_close env (co_calls w)"
    and "0 \<le> ce_socket env (Suc (co_calls w))" and "ce_connect env (Suc (Suc (co_calls w))) = co_EINPROGRESS"
  shows "foldE (co_step env) [Co_Stop True, Co_Start True] w = Inl Assert_Failed"
proof -
  obtain fd where "co_channel w = Some (fd, True)" using assms(1,2) by (auto simp: co_inv_def registered_def)
  then show ?thesis
    using assms(2-5)
    by (simp add: stop_def stopInLoop_def removeAndResetChannel_def co_setState_def co_close_def sockets_close_def
        start_def startInLoop_def co_connect_once_def createNonblockingOrDie_def connecting_def Let_def)
qed

text \<open>A client that reconnects starts over with the shortest delay.\<close>

lemma client_reconnects:
  assumes "cl_retry c" and "cl_connect c" and "cl_connection c = Some i" and "co_channel (cl_connector c) = None"
    and "0 \<le> ce_socket env (co_calls (cl_connector c))" and "ce_connect env (Suc (co_calls (cl_connector c))) = co_EINPROGRESS"
  shows "\<exists>c'. TcpClient_removeConnection env i c = Inr c' \<and> cl_connection c' = None
     \<and> co_state (cl_connector c') = Kconnecting \<and> retryDelayMs (cl_connector c') = KInitRetryDelayMs"
  using assms
  by (simp add: TcpClient_removeConnection_def restart_def startInLoop_def co_connect_once_def createNonblockingOrDie_def
      connecting_def co_setState_def Let_def)

section \<open>Names of connections\<close>

lemma dec_nat_length_9: "n < 10 ^ 9 \<Longrightarrow> length (dec_nat n) \<le> 9"
  using length_dec_nat[of n 8] by simp

lemma conn_label_full: "length addr \<le> 21 \<Longrightarrow> i < 10 ^ 9 \<Longrightarrow> conn_label sep addr i = addr @ sep # dec_nat i"
  using dec_nat_length_9[of i] by (simp add: conn_label_def snprintf_def)

lemma toIpPort_length: "toIpPort a = Inr s \<Longrightarrow> length s \<le> 21"
proof -
  assume s: "toIpPort a = Inr s"
  have "unat (htons (sin_port a)) < 2 ^ 16" using unsigned_less[of "htons (sin_port a)", where 'a = nat] by simp
  then have "unat (htons (sin_port a)) < 10 ^ Suc 4" by simp
  then have "length (dec_nat (unat (htons (sin_port a)))) \<le> 5" using length_dec_nat by fastforce
  then show ?thesis using s length_inet_ntop[of "sin_addr a"] by (auto simp: toIpPort_text)
qed

lemma conn_label_inj:
  "length addr \<le> 21 \<Longrightarrow> i < 10 ^ 9 \<Longrightarrow> j < 10 ^ 9 \<Longrightarrow> conn_label sep addr i = conn_label sep addr j \<longleftrightarrow> i = j"
  by (simp add: conn_label_full dec_nat_inj)

text \<open>From the thousand-millionth connection on, the names of consecutive connections can coincide.\<close>

lemma conn_label_collision:
  "length addr = 21 \<Longrightarrow> conn_label sep addr 1000000000 = conn_label sep addr 1000000001"
  by (simp add: conn_label_def snprintf_def dec_nat_more dec_nat_1)

end
