(* ===== verification/Event_Loop.thy ===== *)
theory Event_Loop
  imports Channel_Poller Timer_Queue
begin

text \<open>
  The event loop, \<^verbatim>\<open>plugins/Muduo/muduo/net/EventLoop.{h,cpp}\<close>, as a system of interleaved
  steps: the loop thread goes through the control points of \<^verbatim>\<open>loop()\<close>, while other threads
  queue functors and request to quit. The lock of the pending list makes each access to it
  one step; between appending a functor and waking the loop another thread can be
  interrupted, so these are two steps. Atomic variables are read and written in single steps.
\<close>

section \<open>State\<close>

type_synonym task = nat

text \<open>
  Where the loop thread is: outside \<^verbatim>\<open>loop()\<close>, at the loop condition, in \<^verbatim>\<open>epoll_wait\<close>, handling
  the active channels (\<open>True\<close>: the wakeup channel is among those not handled yet), or
  running a batch of pending functors.
\<close>

datatype phase = Idle | Check | Polling | Handling bool | Running "task list"

record event_loop =
  looping :: bool
  quit :: bool
  started :: bool
  el_eventHandling :: bool
  callingPendingFunctors :: bool
  pendingFunctors :: "task list"
  activeChannels :: "chan_id list"
  currentActiveChannel :: "chan_id option"
  el_poller :: poller
  eventfd :: nat
  el_phase :: phase
  owed :: nat
  el_queued :: "task list"
  el_executed :: "task list"

text \<open>
  \<open>eventfd\<close> is the counter behind \<^verbatim>\<open>wakeupFd_\<close>. \<open>owed\<close> counts the other threads that have
  queued a functor or set \<^verbatim>\<open>quit_\<close> and have not yet called \<^verbatim>\<open>wakeup()\<close>. The last two fields log
  the functors queued and executed; no operation reads them.
\<close>

definition EventLoop_new :: "poller \<Rightarrow> bool \<Rightarrow> event_loop res" where
  "EventLoop_new p other_loop_in_thread =
     (if other_loop_in_thread then Inl Exit_Failure
      else Inr \<lparr>looping = False, quit = False, started = False, el_eventHandling = False,
                callingPendingFunctors = False, pendingFunctors = [], activeChannels = [],
                currentActiveChannel = None, el_poller = p, eventfd = 0, el_phase = Idle, owed = 0,
                el_queued = [], el_executed = []\<rparr>)"

section \<open>Operations\<close>

definition eventfd_max :: nat where
  "eventfd_max = 2 ^ 64 - 2"

definition wakeup :: "event_loop \<Rightarrow> event_loop res" where
  "wakeup s = (if eventfd s < eventfd_max then Inr (s\<lparr>eventfd := Suc (eventfd s)\<rparr>) else Inl Exit_Failure)"

definition el_handleRead :: "event_loop \<Rightarrow> event_loop res" where
  "el_handleRead s = (if 0 < eventfd s then Inr (s\<lparr>eventfd := 0\<rparr>) else Inl Exit_Failure)"

definition queueInLoop_push :: "task \<Rightarrow> event_loop \<Rightarrow> event_loop" where
  "queueInLoop_push cb s = s\<lparr>pendingFunctors := pendingFunctors s @ [cb], el_queued := el_queued s @ [cb]\<rparr>"

definition queueInLoop_wake :: "bool \<Rightarrow> event_loop \<Rightarrow> event_loop res" where
  "queueInLoop_wake in_loop s = (if \<not> in_loop \<or> callingPendingFunctors s then wakeup s else Inr s)"

definition queueInLoop :: "bool \<Rightarrow> task \<Rightarrow> event_loop \<Rightarrow> event_loop res" where
  "queueInLoop in_loop cb s = queueInLoop_wake in_loop (queueInLoop_push cb s)"

definition runInLoop :: "(task \<Rightarrow> event_loop \<Rightarrow> event_loop res) \<Rightarrow> bool \<Rightarrow> task \<Rightarrow> event_loop \<Rightarrow> event_loop res" where
  "runInLoop run in_loop cb s = (if in_loop then run cb s else queueInLoop in_loop cb s)"

definition quit_set :: "event_loop \<Rightarrow> event_loop" where
  "quit_set s = s\<lparr>quit := True\<rparr>"

definition EventLoop_quit :: "bool \<Rightarrow> event_loop \<Rightarrow> event_loop res" where
  "EventLoop_quit in_loop s = (let s = quit_set s in if \<not> in_loop then wakeup s else Inr s)"

definition loop_enter :: "event_loop \<Rightarrow> event_loop res" where
  "loop_enter s =
     assertE (\<not> looping s)
       (let s = s\<lparr>looping := True\<rparr>;
            s = (if started s then s\<lparr>quit := False\<rparr> else s)
        in Inr (s\<lparr>started := True, el_phase := Check\<rparr>))"

definition loop_check :: "event_loop \<Rightarrow> event_loop" where
  "loop_check s =
     (if quit s then s\<lparr>looping := False, el_phase := Idle\<rparr>
      else s\<lparr>activeChannels := [], el_phase := Polling\<rparr>)"

definition poll_return :: "bool \<Rightarrow> chan_id list \<Rightarrow> event_loop \<Rightarrow> event_loop" where
  "poll_return wake active s =
     s\<lparr>activeChannels := active, el_eventHandling := True, el_phase := Handling wake\<rparr>"

definition handling_done :: "event_loop \<Rightarrow> event_loop" where
  "handling_done s = s\<lparr>currentActiveChannel := None, el_eventHandling := False\<rparr>"

definition doPendingFunctors_swap :: "event_loop \<Rightarrow> event_loop" where
  "doPendingFunctors_swap s =
     s\<lparr>callingPendingFunctors := True, pendingFunctors := [], el_phase := Running (pendingFunctors s)\<rparr>"

definition doPendingFunctors_end :: "event_loop \<Rightarrow> event_loop" where
  "doPendingFunctors_end s = s\<lparr>callingPendingFunctors := False, el_phase := Check\<rparr>"

definition updateChanel :: "ctl_env \<Rightarrow> bool \<Rightarrow> chan_id \<Rightarrow> event_loop \<Rightarrow> event_loop res" where
  "updateChanel env in_loop k s =
     (if in_loop then bindE (updateChannel env k (el_poller s)) (\<lambda>p. Inr (s\<lparr>el_poller := p\<rparr>))
      else Inl Exit_Failure)"

definition loop_removeChannel :: "ctl_env \<Rightarrow> bool \<Rightarrow> chan_id \<Rightarrow> event_loop \<Rightarrow> event_loop res" where
  "loop_removeChannel env in_loop k s =
     (if in_loop
      then assertE (el_eventHandling s \<longrightarrow> currentActiveChannel s = Some k \<or> k \<notin> set (activeChannels s))
            (bindE (poller_removeChannel env k (el_poller s)) (\<lambda>p. Inr (s\<lparr>el_poller := p\<rparr>)))
      else Inl Exit_Failure)"

section \<open>Timers of the loop\<close>

definition runAt :: "tq_env \<Rightarrow> bool \<Rightarrow> addr \<Rightarrow> timestamp \<Rightarrow> nat \<Rightarrow> timer_queue \<Rightarrow> (timer_id \<times> timer_queue) res" where
  "runAt env in_loop a time cb q = addTimer env in_loop a cb time (Double 0 0) q"

definition runAfter :: "tq_env \<Rightarrow> bool \<Rightarrow> addr \<Rightarrow> double \<Rightarrow> nat \<Rightarrow> timer_queue \<Rightarrow> (timer_id \<times> timer_queue) res" where
  "runAfter env in_loop a delay cb q =
     bindE (tq_now env q) (\<lambda>(now, q). bindE (add_time now delay) (\<lambda>time. runAt env in_loop a time cb q))"

definition runEvery :: "tq_env \<Rightarrow> bool \<Rightarrow> addr \<Rightarrow> double \<Rightarrow> nat \<Rightarrow> timer_queue \<Rightarrow> (timer_id \<times> timer_queue) res" where
  "runEvery env in_loop a iv cb q =
     bindE (tq_now env q) (\<lambda>(now, q). bindE (add_time now iv) (\<lambda>time. addTimer env in_loop a cb time iv q))"

section \<open>Interleaved steps\<close>

text \<open>
  The code a channel handler or functor runs on the loop thread can queue functors and quit
  the loop. Other threads do the same in two steps. \<^verbatim>\<open>epoll_wait\<close> returns when the wakeup
  descriptor is readable, or for another event or its timeout.
\<close>

inductive el_step :: "event_loop \<Rightarrow> event_loop \<Rightarrow> bool" where
  Other_Push: "el_step s (queueInLoop_push cb s\<lparr>owed := Suc (owed s)\<rparr>)"
| Other_Quit: "el_step s (quit_set s\<lparr>owed := Suc (owed s)\<rparr>)"
| Other_Wake: "owed s = Suc n \<Longrightarrow> wakeup s = Inr s' \<Longrightarrow> el_step s (s'\<lparr>owed := n\<rparr>)"
| Loop_Enter: "el_phase s = Idle \<Longrightarrow> loop_enter s = Inr s' \<Longrightarrow> el_step s s'"
| Loop_Check: "el_phase s = Check \<Longrightarrow> el_step s (loop_check s)"
| Poll_Wake: "el_phase s = Polling \<Longrightarrow> 0 < eventfd s \<Longrightarrow> el_step s (poll_return True active s)"
| Poll_Other: "el_phase s = Polling \<Longrightarrow> el_step s (poll_return False active s)"
| Handle_Wakeup: "el_phase s = Handling True \<Longrightarrow> el_handleRead s = Inr s'
    \<Longrightarrow> el_step s (s'\<lparr>el_phase := Handling False\<rparr>)"
| Handle_Queue: "el_phase s = Handling w \<Longrightarrow> queueInLoop True cb s = Inr s' \<Longrightarrow> el_step s s'"
| Handle_Quit: "el_phase s = Handling w \<Longrightarrow> EventLoop_quit True s = Inr s' \<Longrightarrow> el_step s s'"
| Handle_Done: "el_phase s = Handling False \<Longrightarrow> el_step s (doPendingFunctors_swap (handling_done s))"
| Run_Next: "el_phase s = Running (f # fs)
    \<Longrightarrow> el_step s (s\<lparr>el_phase := Running fs, el_executed := el_executed s @ [f]\<rparr>)"
| Run_Queue: "el_phase s = Running fs \<Longrightarrow> queueInLoop True cb s = Inr s' \<Longrightarrow> el_step s s'"
| Run_Quit: "el_phase s = Running fs \<Longrightarrow> EventLoop_quit True s = Inr s' \<Longrightarrow> el_step s s'"
| Run_Done: "el_phase s = Running [] \<Longrightarrow> el_step s (doPendingFunctors_end s)"

inductive el_reach :: "event_loop \<Rightarrow> event_loop \<Rightarrow> bool" for s0 where
  el_refl: "el_reach s0 s0"
| el_trans: "el_reach s0 s \<Longrightarrow> el_step s s' \<Longrightarrow> el_reach s0 s'"

inductive_cases el_stepE: "el_step s s'"

section \<open>Invariant\<close>









lemma el_reach_trans: "el_reach s s' \<Longrightarrow> el_reach s0 s \<Longrightarrow> el_reach s0 s'"
  by (induction rule: el_reach.induct) (auto intro: el_trans)

lemma el_step_reach: "el_step s s' \<Longrightarrow> el_reach s' s'' \<Longrightarrow> el_reach s s''"
  using el_reach_trans el_trans[OF el_refl] by blast

text \<open>Running a batch executes it in order.\<close>

lemma run_batch:
  "el_phase s = Running fs \<Longrightarrow>
     el_reach s (s\<lparr>el_phase := Running [], el_executed := el_executed s @ fs\<rparr>)"
proof (induction fs arbitrary: s)
  case Nil
  then have "s\<lparr>el_phase := Running [], el_executed := el_executed s @ []\<rparr> = s" by (cases s) simp
  then show ?case using el_refl[of s] by simp
next
  case (Cons f fs)
  let ?s = "s\<lparr>el_phase := Running fs, el_executed := el_executed s @ [f]\<rparr>"
  have "el_step s ?s" by (rule Run_Next[OF Cons.prems])
  moreover have "el_reach ?s (?s\<lparr>el_phase := Running [], el_executed := el_executed ?s @ fs\<rparr>)"
    by (rule Cons.IH) simp
  ultimately have "el_reach s (?s\<lparr>el_phase := Running [], el_executed := el_executed ?s @ fs\<rparr>)"
    by (rule el_step_reach)
  then show ?case by simp
qed

section \<open>Properties\<close>


definition fresh_loop :: event_loop where
  "fresh_loop = projr (EventLoop_new empty_poller False)"



text \<open>
  A loop blocked with pending functors and a readable wakeup descriptor makes progress by its
  own steps, without the poll timeout and without other threads: it reads the counter and
  executes every pending functor within that iteration.
\<close>

theorem pending_functors_run:
  assumes "el_phase s = Polling" and "0 < eventfd s"
  shows "\<exists>s'. el_reach s s' \<and> el_phase s' = Check \<and> pendingFunctors s' = []
     \<and> el_executed s' = el_executed s @ pendingFunctors s \<and> eventfd s' = 0"
proof -
  let ?s1 = "poll_return True [] s"
  let ?s2 = "?s1\<lparr>eventfd := 0, el_phase := Handling False\<rparr>"
  let ?s3 = "doPendingFunctors_swap (handling_done ?s2)"
  let ?s4 = "?s3\<lparr>el_phase := Running [], el_executed := el_executed ?s3 @ pendingFunctors s\<rparr>"
  have a: "el_step s ?s1" by (rule Poll_Wake[OF assms])
  have b: "el_step ?s1 ?s2"
    using Handle_Wakeup[of ?s1 "?s1\<lparr>eventfd := 0\<rparr>"] assms(2) by (simp add: poll_return_def el_handleRead_def)
  have c: "el_step ?s2 ?s3" by (rule Handle_Done) simp
  have d: "el_reach ?s3 ?s4"
    by (rule run_batch) (simp add: doPendingFunctors_swap_def handling_done_def poll_return_def)
  have e: "el_step ?s4 (doPendingFunctors_end ?s4)" by (rule Run_Done) simp
  have "el_reach s (doPendingFunctors_end ?s4)"
    by (rule el_step_reach[OF a el_step_reach[OF b el_step_reach[OF c el_trans[OF d e]]]])
  then show ?thesis
    by (intro exI[of _ "doPendingFunctors_end ?s4"])
      (simp add: doPendingFunctors_end_def doPendingFunctors_swap_def handling_done_def poll_return_def)
qed

theorem pending_functors_run_witness:
  "\<exists>s'. el_reach (fresh_loop\<lparr>el_phase := Polling, eventfd := 1, pendingFunctors := [3, 4]\<rparr>) s'
     \<and> el_executed s' = [3, 4] \<and> pendingFunctors s' = []"
  using pending_functors_run[of "fresh_loop\<lparr>el_phase := Polling, eventfd := 1, pendingFunctors := [3, 4]\<rparr>"]
  by (auto simp: fresh_loop_def EventLoop_new_def)

text \<open>
  The exception to the previous statements: a functor queued by the loop thread itself before
  it enters \<^verbatim>\<open>loop()\<close> wakes nobody, and the loop then blocks in \<^verbatim>\<open>epoll_wait\<close> with the functor
  pending and the descriptor not readable, until another event or the timeout of ten
  seconds. The comment in \<^verbatim>\<open>queueInLoop\<close> names only event callbacks as the case without wakeup.
\<close>

theorem queue_before_loop_blocks:
  "\<exists>s1 s. queueInLoop True f fresh_loop = Inr s1 \<and> el_reach s1 s \<and> el_phase s = Polling
     \<and> pendingFunctors s = [f] \<and> eventfd s = 0 \<and> owed s = 0"
proof -
  let ?s1 = "queueInLoop_push f fresh_loop"
  let ?s2 = "?s1\<lparr>looping := True, started := True, el_phase := Check\<rparr>"
  have fr: "\<not> callingPendingFunctors fresh_loop" "\<not> looping fresh_loop" "\<not> started fresh_loop" "\<not> quit fresh_loop"
    "el_phase fresh_loop = Idle" "pendingFunctors fresh_loop = []" "eventfd fresh_loop = 0" "owed fresh_loop = 0"
    by (simp_all add: fresh_loop_def EventLoop_new_def)
  have a: "el_step ?s1 ?s2" by (rule Loop_Enter) (simp_all add: fr loop_enter_def queueInLoop_push_def Let_def)
  have b: "el_step ?s2 (loop_check ?s2)" by (rule Loop_Check) simp
  have "el_reach ?s1 (loop_check ?s2)" by (rule el_trans[OF el_trans[OF el_refl a] b])
  then show ?thesis
    by (intro exI[of _ ?s1] exI[of _ "loop_check ?s2"])
      (simp add: fr queueInLoop_def queueInLoop_wake_def loop_check_def queueInLoop_push_def)
qed

text \<open>
  A request to quit made before the first call of \<^verbatim>\<open>loop()\<close> is honoured: the loop leaves at
  its first check. Only a repeated call of \<^verbatim>\<open>loop()\<close> clears an earlier request.
\<close>

theorem quit_before_loop_honoured:
  assumes "EventLoop_quit in_loop s = Inr s1" and "\<not> looping s" and "\<not> started s"
  shows "\<exists>s2. loop_enter s1 = Inr s2 \<and> el_phase (loop_check s2) = Idle \<and> \<not> looping (loop_check s2)"
proof -
  have "quit s1" "\<not> looping s1" "\<not> started s1"
    using assms by (auto simp: EventLoop_quit_def quit_set_def wakeup_def Let_def split: if_splits)
  then show ?thesis by (simp add: loop_enter_def loop_check_def Let_def)
qed

theorem quit_before_loop_honoured_witness:
  "\<exists>s1 s2. EventLoop_quit False fresh_loop = Inr s1 \<and> loop_enter s1 = Inr s2 \<and> el_phase (loop_check s2) = Idle"
proof -
  obtain s1 where "EventLoop_quit False fresh_loop = Inr s1"
    by (simp add: EventLoop_quit_def wakeup_def quit_set_def fresh_loop_def EventLoop_new_def eventfd_max_def)
  then show ?thesis
    using quit_before_loop_honoured[of False fresh_loop s1] by (auto simp: fresh_loop_def EventLoop_new_def)
qed

end
