(* ===== verification/Loop_Threads.thy ===== *)
theory Loop_Threads
  imports Event_Loop "HOL-Library.Multiset"
begin

text \<open>
  The thread that owns an event loop and the pool of such threads,
  \<^verbatim>\<open>plugins/Muduo/muduo/net/{EventLoopThread,EventLoopThreadPool}\<close>: the hand-over of the loop's
  address, the destructor that ends the loop, and the round-robin choice of a loop for a
  new connection.
\<close>

section \<open>One loop thread\<close>

text \<open>
  Control points of \<^verbatim>\<open>threadFunc\<close> and of the destructor. The loop object lives on the stack of
  \<^verbatim>\<open>threadFunc\<close>: it exists until the thread has left that function.
\<close>

datatype thread_pc = T_Init | T_Published | T_Looping | T_Exited
datatype dtor_pc = D_None | D_Waiting | D_Joining | D_Done

record loop_thread =
  elt_loop :: "nat option"
  exiting :: bool
  elt_quit :: bool
  t_pc :: thread_pc
  d_pc :: dtor_pc

definition EventLoopThread_new :: loop_thread where
  "EventLoopThread_new = \<lparr>elt_loop = None, exiting = False, elt_quit = False, t_pc = T_Init, d_pc = D_None\<rparr>"

text \<open>\<^verbatim>\<open>startLoop\<close> waits while there is no loop: \<open>None\<close> is a caller that still waits.\<close>

definition startLoop :: "loop_thread \<Rightarrow> nat option" where
  "startLoop s = (case elt_loop s of None \<Rightarrow> None | Some l \<Rightarrow> Some l)"

datatype elt_event = Ev_Publish nat | Ev_Enter | Ev_Exit | Ev_Own_Quit | Ev_Dtor | Ev_Dtor_Quit | Ev_Join

text \<open>
  A thread that waits for the condition variable or joins does not move until what it waits
  for holds: a disabled event leaves the state as it is. \<open>Ev_Own_Quit\<close> is a call of \<^verbatim>\<open>quit()\<close> on
  the loop by anybody but the destructor.
\<close>

fun elt_step :: "elt_event \<Rightarrow> loop_thread \<Rightarrow> loop_thread res" where
  "elt_step (Ev_Publish l) s =
     Inr (if t_pc s = T_Init then s\<lparr>elt_loop := Some l, t_pc := T_Published\<rparr> else s)"
| "elt_step Ev_Enter s = Inr (if t_pc s = T_Published then s\<lparr>t_pc := T_Looping\<rparr> else s)"
| "elt_step Ev_Exit s = Inr (if t_pc s = T_Looping \<and> elt_quit s then s\<lparr>t_pc := T_Exited\<rparr> else s)"
| "elt_step Ev_Own_Quit s =
     (if elt_loop s = None then Inr s
      else if t_pc s = T_Exited then Inl Use_After_Free else Inr (s\<lparr>elt_quit := True\<rparr>))"
| "elt_step Ev_Dtor s = Inr (if d_pc s = D_None then s\<lparr>exiting := True, d_pc := D_Waiting\<rparr> else s)"
| "elt_step Ev_Dtor_Quit s =
     (if d_pc s = D_Waiting \<and> elt_loop s \<noteq> None
      then if t_pc s = T_Exited then Inl Use_After_Free
           else Inr (s\<lparr>elt_quit := True, d_pc := D_Joining\<rparr>)
      else Inr s)"
| "elt_step Ev_Join s = Inr (if d_pc s = D_Joining \<and> t_pc s = T_Exited then s\<lparr>d_pc := D_Done\<rparr> else s)"

definition elt_inv :: "loop_thread \<Rightarrow> bool" where
  "elt_inv s \<longleftrightarrow> (elt_loop s = None \<longleftrightarrow> t_pc s = T_Init) \<and> (elt_quit s \<longrightarrow> d_pc s \<in> {D_Joining, D_Done})
     \<and> (d_pc s \<in> {D_Joining, D_Done} \<longrightarrow> elt_quit s) \<and> (t_pc s = T_Exited \<longrightarrow> elt_quit s)
     \<and> (d_pc s = D_Done \<longrightarrow> t_pc s = T_Exited)"

definition not_own_quit :: "elt_event \<Rightarrow> bool" where
  "not_own_quit e \<longleftrightarrow> e \<noteq> Ev_Own_Quit"

interpretation elt: event_machine elt_inv not_own_quit "{}" elt_step
proof
  fix s e s' f assume i: "elt_inv s" and g: "not_own_quit e"
  show "elt_step e s = Inr s' \<Longrightarrow> elt_inv s'" and "elt_step e s = Inl f \<Longrightarrow> f \<in> {}"
    using i g by (cases e; auto simp: elt_inv_def not_own_quit_def split: if_splits)+
qed

lemma elt_inv_new: "elt_inv EventLoopThread_new"
  by (simp add: elt_inv_def EventLoopThread_new_def)

definition finish :: "elt_event list" where
  "finish = [Ev_Publish 1, Ev_Dtor, Ev_Dtor_Quit, Ev_Enter, Ev_Exit, Ev_Join]"

lemma elt_finish:
  assumes "elt_inv s"
  shows "\<exists>s'. foldE elt_step finish s = Inr s' \<and> d_pc s' = D_Done"
  using assms by (cases "t_pc s"; cases "d_pc s") (auto simp: finish_def elt_inv_def)

section \<open>The pool\<close>

record loop_pool =
  baseLoop :: nat
  pool_started :: bool
  numThread :: int
  pool_next :: size_t
  pool_loops :: "nat list"

definition EventLoopThreadPool_new :: "nat \<Rightarrow> loop_pool" where
  "EventLoopThreadPool_new base =
     \<lparr>baseLoop = base, pool_started = False, numThread = 0, pool_next = 0, pool_loops = []\<rparr>"

definition setThreadNum :: "int \<Rightarrow> loop_pool \<Rightarrow> loop_pool" where
  "setThreadNum n p = p\<lparr>numThread := n\<rparr>"

text \<open>
  \<open>new_loop i\<close> is the loop the \<open>i\<close>-th started thread publishes. The result also tells on
  which loops the initialisation callback runs.
\<close>

definition pool_start :: "bool \<Rightarrow> bool \<Rightarrow> (nat \<Rightarrow> nat) \<Rightarrow> loop_pool \<Rightarrow> (nat list \<times> loop_pool) res" where
  "pool_start in_loop has_cb new_loop p =
     assertE (\<not> pool_started p)
       (if \<not> in_loop then Inl Exit_Failure
        else let ls = map new_loop [0..<nat (numThread p)];
                 p = p\<lparr>pool_started := True, pool_loops := pool_loops p @ ls\<rparr>
             in Inr ((if has_cb then ls else []) @ (if numThread p = 0 \<and> has_cb then [baseLoop p] else []), p))"

definition getNextLoop :: "bool \<Rightarrow> loop_pool \<Rightarrow> (nat \<times> loop_pool) res" where
  "getNextLoop in_loop p =
     (if \<not> in_loop then Inl Exit_Failure
      else if pool_loops p = [] then Inr (baseLoop p, p)
      else if length (pool_loops p) \<le> pool_next p then Inl Out_Of_Bounds
      else let l = pool_loops p ! pool_next p;
               n = sz_add (pool_next p) 1
           in Inr (l, p\<lparr>pool_next := if n \<ge> length (pool_loops p) then 0 else n\<rparr>))"

fun getNextLoops :: "nat \<Rightarrow> loop_pool \<Rightarrow> (nat list \<times> loop_pool) res" where
  "getNextLoops 0 p = Inr ([], p)"
| "getNextLoops (Suc k) p =
     bindE (getNextLoop True p) (\<lambda>(l, p). bindE (getNextLoops k p) (\<lambda>(ls, p). Inr (l # ls, p)))"

lemma getNextLoop_ok:
  assumes "pool_loops p \<noteq> []" and "pool_next p < length (pool_loops p)" and "length (pool_loops p) \<le> max_alloc"
  shows "getNextLoop True p = Inr (pool_loops p ! pool_next p,
           p\<lparr>pool_next := Suc (pool_next p) mod length (pool_loops p)\<rparr>)"
proof -
  have "sz_add (pool_next p) 1 = Suc (pool_next p)"
    using assms by (subst sz_add_small) (auto simp: max_alloc_def)
  then show ?thesis using assms by (auto simp: getNextLoop_def Let_def mod_Suc)
qed

lemma getNextLoops_ok:
  assumes "pool_loops p \<noteq> []" and "pool_next p < length (pool_loops p)" and "length (pool_loops p) \<le> max_alloc"
  shows "getNextLoops k p = Inr
      (map (\<lambda>i. pool_loops p ! ((pool_next p + i) mod length (pool_loops p))) [0..<k],
       p\<lparr>pool_next := (pool_next p + k) mod length (pool_loops p)\<rparr>)"
  using assms
proof (induction k arbitrary: p)
  case 0
  then show ?case by simp
next
  case (Suc k)
  let ?n = "length (pool_loops p)"
  let ?p = "p\<lparr>pool_next := Suc (pool_next p) mod ?n\<rparr>"
  have r: "getNextLoops k ?p = Inr
      (map (\<lambda>i. pool_loops ?p ! ((pool_next ?p + i) mod length (pool_loops ?p))) [0..<k],
       ?p\<lparr>pool_next := (pool_next ?p + k) mod length (pool_loops ?p)\<rparr>)"
    using Suc.prems by (intro Suc.IH) auto
  have e: "[0..<Suc k] = 0 # map Suc [0..<k]" by (simp add: upt_conv_Cons map_Suc_upt)
  have m: "(Suc (pool_next p) mod ?n + i) mod ?n = (pool_next p + Suc i) mod ?n" for i
    by (simp add: mod_add_left_eq)
  show ?case unfolding e
    using getNextLoop_ok[OF Suc.prems] r Suc.prems(2) by (simp add: m comp_def del: upt_Suc)
qed

section \<open>Properties\<close>

text \<open>
  Connections are spread evenly: consecutive calls of \<^verbatim>\<open>getNextLoop\<close> go through the loops
  round robin, starting where the last call stopped, and in any window of as many calls as
  there are loops every loop is chosen exactly once; without threads the base loop serves.
\<close>

theorem round_robin:
  assumes "pool_next p < length (pool_loops p)" and "length (pool_loops p) \<le> max_alloc"
  shows "\<exists>ls p'. getNextLoops (length (pool_loops p)) p = Inr (ls, p')
     \<and> ls = drop (pool_next p) (pool_loops p) @ take (pool_next p) (pool_loops p)
     \<and> pool_next p' = pool_next p \<and> mset ls = mset (pool_loops p)"
proof -
  let ?n = "length (pool_loops p)" and ?s = "pool_next p"
  have ne: "pool_loops p \<noteq> []" using assms(1) by auto
  have "map (\<lambda>i. pool_loops p ! ((?s + i) mod ?n)) [0..<?n] = rotate ?s (pool_loops p)"
    by (rule nth_equalityI) (simp_all add: nth_rotate add.commute)
  also have "\<dots> = drop ?s (pool_loops p) @ take ?s (pool_loops p)"
    using assms(1) by (simp add: rotate_drop_take)
  finally have l: "map (\<lambda>i. pool_loops p ! ((?s + i) mod ?n)) [0..<?n]
      = drop ?s (pool_loops p) @ take ?s (pool_loops p)" .
  have "mset (drop ?s (pool_loops p) @ take ?s (pool_loops p)) = mset (pool_loops p)"
    by (metis append_take_drop_id mset_append union_commute)
  then show ?thesis using getNextLoops_ok[OF ne assms, of ?n] l assms(1) by simp
qed

theorem round_robin_witness:
  "\<exists>p'. getNextLoops 3 \<lparr>baseLoop = 0, pool_started = True, numThread = 3, pool_next = 1, pool_loops = [10, 11, 12]\<rparr>
     = Inr ([11, 12, 10], p')"
  using round_robin[of "\<lparr>baseLoop = 0, pool_started = True, numThread = 3, pool_next = 1, pool_loops = [10, 11, 12]\<rparr>"]
  by (auto simp: max_alloc_def numeral_3_eq_3 simp del: getNextLoops.simps)

text \<open>
  As long as only the destructor ends the loop, destroying a loop thread is safe and can always
  complete, in every interleaving with the start of the thread: no step touches a dead loop,
  and from every state reached the thread can publish, be told to quit, leave and be joined.
\<close>

theorem loop_thread_shutdown:
  assumes "\<forall>e \<in> set events. e \<noteq> Ev_Own_Quit"
  shows "\<exists>s s'. foldE elt_step events EventLoopThread_new = Inr s
     \<and> foldE elt_step finish s = Inr s' \<and> d_pc s' = D_Done"
proof -
  have "\<forall>e \<in> set events. not_own_quit e" using assms by (simp add: not_own_quit_def)
  from elt.run_total[OF elt_inv_new this refl] show ?thesis using elt_finish by blast
qed

theorem loop_thread_shutdown_witness:
  "\<exists>s s'. foldE elt_step [Ev_Dtor, Ev_Join, Ev_Publish 1, Ev_Dtor_Quit] EventLoopThread_new = Inr s
     \<and> foldE elt_step finish s = Inr s' \<and> d_pc s' = D_Done"
  by (rule loop_thread_shutdown) simp

text \<open>
  If the loop is ended in another way before the destructor runs, the destructor uses a dead
  object: the published address is never reset when \<^verbatim>\<open>threadFunc\<close> returns, so \<^verbatim>\<open>quit()\<close> is called
  on a loop whose stack frame is gone.
\<close>

theorem loop_thread_dangling:
  "foldE elt_step [Ev_Publish l, Ev_Enter, Ev_Own_Quit, Ev_Exit, Ev_Dtor, Ev_Dtor_Quit] EventLoopThread_new
   = Inl Use_After_Free"
  by (simp add: EventLoopThread_new_def)

end
