(* ===== verification/Tcp_Server.thy ===== *)
theory Tcp_Server
  imports Tcp_Client Loop_Threads "HOL-Library.AList"
begin

text \<open>
  The passive side, \<^verbatim>\<open>plugins/Muduo/muduo/net/TcpServer.{h,cpp}\<close>: connections are spread over the
  loops of the pool, kept in a map by name, and removed from it when they close.
  \<^verbatim>\<open>connections_\<close> is an association list with one entry per key; the order of its entries is of
  no consequence. \<open>ts_calls\<close> logs the functors given to the loops.
\<close>

section \<open>The server\<close>

record server_conn =
  sc_id :: nat
  sc_name :: string
  sc_fd :: fd
  sc_loop :: nat

record tcp_server =
  ts_hostport :: string
  ts_name :: string
  ts_started :: bool
  ts_listening :: bool
  ts_nextConnId :: nat
  connections :: "(string \<times> server_conn) list"
  ts_pool :: loop_pool
  ts_calls :: "(nat \<times> conn_call) list"

definition TcpServer_new :: "nat \<Rightarrow> sockaddr_in \<Rightarrow> string \<Rightarrow> tcp_server res" where
  "TcpServer_new loop listenAddr nameArg =
     bindE (toIpPort listenAddr) (\<lambda>hostport.
     Inr \<lparr>ts_hostport = hostport, ts_name = nameArg, ts_started = False, ts_listening = False, ts_nextConnId = 1,
          connections = [], ts_pool = EventLoopThreadPool_new loop, ts_calls = []\<rparr>)"

definition TcpServer_setThreadNum :: "int \<Rightarrow> tcp_server \<Rightarrow> tcp_server res" where
  "TcpServer_setThreadNum n s = assertE (0 \<le> n) (Inr (s\<lparr>ts_pool := setThreadNum n (ts_pool s)\<rparr>))"

definition TcpServer_start :: "bool \<Rightarrow> bool \<Rightarrow> (nat \<Rightarrow> nat) \<Rightarrow> tcp_server \<Rightarrow> tcp_server res" where
  "TcpServer_start in_loop has_cb new_loop s =
     bindE (if \<not> ts_started s
            then bindE (pool_start in_loop has_cb new_loop (ts_pool s)) (\<lambda>(_, p).
                 Inr (s\<lparr>ts_started := True, ts_pool := p\<rparr>))
            else Inr s) (\<lambda>s.
     Inr (if \<not> ts_listening s then s\<lparr>ts_listening := True\<rparr> else s))"

definition TcpServer_newConnection :: "sockaddr_in option \<Rightarrow> fd \<Rightarrow> tcp_server \<Rightarrow> (server_conn \<times> tcp_server) res" where
  "TcpServer_newConnection local sockfd s =
     bindE (getNextLoop True (ts_pool s)) (\<lambda>(ioLoop, p).
     let i = ts_nextConnId s;
         buf = conn_label (CHR '':'') (ts_hostport s) i
     in bindE (next_id i) (\<lambda>i'.
        let connName = ts_name s @ buf
        in bindE (getLocalAddr local) (\<lambda>localAddr.
           let conn = \<lparr>sc_id = i, sc_name = connName, sc_fd = sockfd, sc_loop = ioLoop\<rparr>
           in Inr (conn, s\<lparr>ts_pool := p, ts_nextConnId := i', connections := AList.update connName conn (connections s),
                           ts_calls := ts_calls s @ [(ioLoop, Conn_Established i)]\<rparr>))))"

definition removeConnectionInLoop :: "server_conn \<Rightarrow> tcp_server \<Rightarrow> tcp_server res" where
  "removeConnectionInLoop conn s =
     (let n = length (filter (\<lambda>e. fst e = sc_name conn) (connections s));
          s = s\<lparr>connections := AList.delete (sc_name conn) (connections s)\<rparr>
      in assertE (n = 1) (Inr (s\<lparr>ts_calls := ts_calls s @ [(sc_loop conn, Conn_Destroyed (sc_id conn))]\<rparr>)))"

definition TcpServer_delete :: "tcp_server \<Rightarrow> tcp_server" where
  "TcpServer_delete s =
     s\<lparr>connections := [], ts_calls := ts_calls s @ map (\<lambda>(_, c). (sc_loop c, Conn_Destroyed (sc_id c))) (connections s)\<rparr>"

text \<open>
  The server and the connections that are open. A connection leaves the list when its close
  callback runs, which happens once.
\<close>

datatype server_event = Srv_New fd | Srv_Close nat

fun srv_step :: "sockaddr_in \<Rightarrow> server_event \<Rightarrow> server_conn list \<times> tcp_server \<Rightarrow> (server_conn list \<times> tcp_server) res" where
  "srv_step local (Srv_New fd) (live, s) =
     bindE (TcpServer_newConnection (Some local) fd s) (\<lambda>(c, s). Inr (live @ [c], s))"
| "srv_step local (Srv_Close i) (live, s) =
     (case find (\<lambda>c. sc_id c = i) live of
        None \<Rightarrow> Inr (live, s)
      | Some c \<Rightarrow> bindE (removeConnectionInLoop c s) (\<lambda>s. Inr (remove1 c live, s)))"

section \<open>Every open connection has its own entry\<close>

definition pool_ok :: "loop_pool \<Rightarrow> bool" where
  "pool_ok p \<longleftrightarrow> length (pool_loops p) \<le> max_alloc \<and> (pool_loops p = [] \<or> pool_next p < length (pool_loops p))"

definition srv_inv :: "server_conn list \<times> tcp_server \<Rightarrow> bool" where
  "srv_inv ls = (case ls of (live, s) \<Rightarrow>
     pool_ok (ts_pool s) \<and> length (ts_hostport s) \<le> 21
     \<and> distinct (map sc_id live) \<and> (\<forall>c \<in> set live. sc_id c < ts_nextConnId s
         \<and> sc_name c = ts_name s @ conn_label (CHR '':'') (ts_hostport s) (sc_id c))
     \<and> connections s = map (\<lambda>c. (sc_name c, c)) live)"

lemma getNextLoop_pool_ok: "pool_ok p \<Longrightarrow> \<exists>l p'. getNextLoop True p = Inr (l, p') \<and> pool_ok p'"
  using getNextLoop_ok[of p] by (cases "pool_loops p = []") (auto simp: pool_ok_def getNextLoop_def)

lemma AList_update_new: "k \<notin> fst ` set al \<Longrightarrow> AList.update k v al = al @ [(k, v)]"
  by (induction al) auto

lemma srv_names_distinct:
  assumes "srv_inv (live, s)" and "ts_nextConnId s \<le> 10 ^ 9" and "c \<in> set live" and "d \<in> set live" and "sc_name c = sc_name d"
  shows "c = d"
proof -
  have "sc_id c < 10 ^ 9" "sc_id d < 10 ^ 9" using assms by (auto simp: srv_inv_def)
  then have "sc_id c = sc_id d" using assms by (auto simp: srv_inv_def conn_label_inj)
  then show ?thesis using assms(1,3,4) by (auto simp: srv_inv_def distinct_map inj_on_def)
qed

lemma srv_new_ok:
  assumes inv: "srv_inv (live, s)" and small: "ts_nextConnId s < 10 ^ 9"
  shows "\<exists>c s'. srv_step local (Srv_New fd) (live, s) = Inr (live @ [c], s') \<and> srv_inv (live @ [c], s')
     \<and> ts_nextConnId s' = Suc (ts_nextConnId s) \<and> sc_id c = ts_nextConnId s \<and> sc_fd c = fd"
proof -
  let ?i = "ts_nextConnId s"
  let ?n = "ts_name s @ conn_label (CHR '':'') (ts_hostport s) ?i"
  obtain l p where p: "getNextLoop True (ts_pool s) = Inr (l, p)" "pool_ok p"
    using getNextLoop_pool_ok[of "ts_pool s"] inv by (auto simp: srv_inv_def)
  let ?c = "\<lparr>sc_id = ?i, sc_name = ?n, sc_fd = fd, sc_loop = l\<rparr>"
  have new: "?n \<notin> fst ` set (connections s)"
  proof
    assume "?n \<in> fst ` set (connections s)"
    then obtain d where d: "d \<in> set live" "sc_name d = ?n" using inv by (auto simp: srv_inv_def)
    then have "sc_id d < ?i" "conn_label (CHR '':'') (ts_hostport s) (sc_id d) = conn_label (CHR '':'') (ts_hostport s) ?i"
      using inv by (auto simp: srv_inv_def)
    then show False using small inv conn_label_inj[of "ts_hostport s" "sc_id d" ?i] by (simp add: srv_inv_def)
  qed
  let ?s = "s\<lparr>ts_pool := p, ts_nextConnId := Suc ?i, connections := connections s @ [(?n, ?c)],
              ts_calls := ts_calls s @ [(l, Conn_Established ?i)]\<rparr>"
  have "srv_step local (Srv_New fd) (live, s) = Inr (live @ [?c], ?s)"
    using p(1) new small
    by (simp add: TcpServer_newConnection_def getLocalAddr_def next_id_def AList_update_new Let_def)
  moreover have "srv_inv (live @ [?c], ?s)" using inv p(2) by (auto simp: srv_inv_def)
  ultimately show ?thesis by auto
qed

lemma srv_close_ok:
  assumes inv: "srv_inv (live, s)" and small: "ts_nextConnId s \<le> 10 ^ 9"
  shows "\<exists>s'. srv_step local (Srv_Close i) (live, s) = Inr (filter (\<lambda>c. sc_id c \<noteq> i) live, s')
     \<and> srv_inv (filter (\<lambda>c. sc_id c \<noteq> i) live, s') \<and> ts_nextConnId s' = ts_nextConnId s"
proof (cases "find (\<lambda>c. sc_id c = i) live")
  case None
  then have "filter (\<lambda>c. sc_id c \<noteq> i) live = live" by (simp add: find_None_iff filter_id_conv)
  then show ?thesis using None inv by simp
next
  case (Some c)
  then have c: "c \<in> set live" "sc_id c = i" by (auto simp: find_Some_iff)
  have dist: "distinct live" using inv by (auto simp: srv_inv_def distinct_map)
  have eq: "sc_name d = sc_name c \<longleftrightarrow> d = c" "sc_id d = i \<longleftrightarrow> d = c" if "d \<in> set live" for d
    using srv_names_distinct[OF inv small that c(1)] inv c that by (auto simp: srv_inv_def distinct_map inj_on_def)
  have r: "remove1 c live = filter (\<lambda>d. d \<noteq> c) live" using dist by (auto simp: distinct_remove1_removeAll removeAll_filter_not_eq intro: filter_cong)
  have f: "filter (\<lambda>d. d \<noteq> c) live = filter (\<lambda>c. sc_id c \<noteq> i) live" using eq by (auto intro: filter_cong)
  have del: "AList.delete (sc_name c) (connections s) = map (\<lambda>c. (sc_name c, c)) (filter (\<lambda>d. d \<noteq> c) live)"
  proof -
    have "filter (\<lambda>d. sc_name c \<noteq> sc_name d) live = filter (\<lambda>d. d \<noteq> c) live"
      by (rule filter_cong[OF refl]) (use eq(1) in metis)
    then show ?thesis using inv by (simp add: srv_inv_def AList.delete_eq filter_map comp_def)
  qed
  have "filter (\<lambda>d. d = c) live = [c]" using dist c(1) by (induction live) (auto simp: filter_empty_conv)
  moreover have "filter (\<lambda>d. sc_name d = sc_name c) live = filter (\<lambda>d. d = c) live" using eq(1) by (auto intro: filter_cong)
  ultimately have one: "length (filter (\<lambda>e. fst e = sc_name c) (connections s)) = 1"
    using inv by (simp add: srv_inv_def filter_map comp_def)
  let ?s = "s\<lparr>connections := map (\<lambda>c. (sc_name c, c)) (filter (\<lambda>d. d \<noteq> c) live),
              ts_calls := ts_calls s @ [(sc_loop c, Conn_Destroyed (sc_id c))]\<rparr>"
  have "srv_step local (Srv_Close i) (live, s) = Inr (filter (\<lambda>c. sc_id c \<noteq> i) live, ?s)"
    using Some one del r f by (simp add: removeConnectionInLoop_def Let_def)
  moreover have "srv_inv (filter (\<lambda>c. sc_id c \<noteq> i) live, ?s)"
    using inv f by (auto simp: srv_inv_def distinct_map_filter)
  ultimately show ?thesis by auto
qed


text \<open>What the server promises: the numbers of the open connections, counted from one.\<close>

fun srv_spec :: "server_event list \<Rightarrow> nat \<Rightarrow> nat list \<Rightarrow> nat list" where
  "srv_spec [] n ids = ids"
| "srv_spec (Srv_New fd # es) n ids = srv_spec es (Suc n) (ids @ [n])"
| "srv_spec (Srv_Close i # es) n ids = srv_spec es n (filter (\<lambda>j. j \<noteq> i) ids)"

fun srv_news :: "server_event list \<Rightarrow> nat" where
  "srv_news [] = 0"
| "srv_news (Srv_New fd # es) = Suc (srv_news es)"
| "srv_news (Srv_Close i # es) = srv_news es"

lemma srv_run_ok:
  "srv_inv (live, s) \<Longrightarrow> ts_nextConnId s + srv_news es \<le> 10 ^ 9 \<Longrightarrow>
   \<exists>live' s'. foldE (srv_step local) es (live, s) = Inr (live', s') \<and> srv_inv (live', s')
     \<and> map sc_id live' = srv_spec es (ts_nextConnId s) (map sc_id live) \<and> ts_nextConnId s' \<le> 10 ^ 9"
proof (induction es arbitrary: live s)
  case (Cons e es)
  show ?case
  proof (cases e)
    case (Srv_New fd)
    then have "ts_nextConnId s < 10 ^ 9" using Cons.prems(2) by simp
    then obtain c s' where c: "srv_step local e (live, s) = Inr (live @ [c], s')" "srv_inv (live @ [c], s')"
        "ts_nextConnId s' = Suc (ts_nextConnId s)" "sc_id c = ts_nextConnId s"
      using srv_new_ok[OF Cons.prems(1)] Srv_New by metis
    have "ts_nextConnId s' + srv_news es \<le> 10 ^ 9" using Cons.prems(2) Srv_New c(3) by simp
    from Cons.IH[OF c(2) this] show ?thesis using c Srv_New by auto
  next
    case (Srv_Close i)
    have "ts_nextConnId s \<le> 10 ^ 9" using Cons.prems(2) by simp
    then obtain s' where c: "srv_step local e (live, s) = Inr (filter (\<lambda>c. sc_id c \<noteq> i) live, s')"
        "srv_inv (filter (\<lambda>c. sc_id c \<noteq> i) live, s')" "ts_nextConnId s' = ts_nextConnId s"
      using srv_close_ok[OF Cons.prems(1)] Srv_Close by metis
    have m: "map sc_id (filter (\<lambda>c. sc_id c \<noteq> i) live) = filter (\<lambda>j. j \<noteq> i) (map sc_id live)"
      by (simp add: filter_map comp_def)
    have "ts_nextConnId s' + srv_news es \<le> 10 ^ 9" using Cons.prems(2) Srv_Close c(3) by simp
    from Cons.IH[OF c(2) this] show ?thesis using c Srv_Close m by auto
  qed
qed auto

lemma server_ready:
  assumes "TcpServer_new loop addr name = Inr s0" and "0 \<le> n" and "nat n \<le> max_alloc"
  shows "\<exists>s. bindE (TcpServer_setThreadNum n s0) (TcpServer_start True cb new_loop) = Inr s \<and> srv_inv ([], s)
     \<and> ts_nextConnId s = 1"
proof -
  obtain h where h: "toIpPort addr = Inr h" "length h \<le> 21"
    using toIpPort_text[of addr] toIpPort_length by blast
  then have "s0 = \<lparr>ts_hostport = h, ts_name = name, ts_started = False, ts_listening = False, ts_nextConnId = 1,
      connections = [], ts_pool = EventLoopThreadPool_new loop, ts_calls = []\<rparr>"
    using assms(1) by (simp add: TcpServer_new_def)
  then show ?thesis
    using assms(2,3) h(2)
    by (simp add: TcpServer_setThreadNum_def TcpServer_start_def pool_start_def
        EventLoopThreadPool_new_def setThreadNum_def srv_inv_def pool_ok_def Let_def) linarith
qed

section \<open>Properties\<close>

text \<open>
  C9: The server's map is exactly its open connections. For fewer than a thousand million
  connections, in any order of connections coming and going, over any number of loops,
  every open connection has one entry under its own name, a closing connection finds its
  entry (the assertion \<^verbatim>\<open>n == 1\<close> holds) and removes no other.
\<close>

theorem server_tracks_connections:
  assumes "TcpServer_new loop addr name = Inr s0" and "0 \<le> n" and "nat n \<le> max_alloc" and "srv_news es < 10 ^ 9"
  shows "\<exists>s1 live s. bindE (TcpServer_setThreadNum n s0) (TcpServer_start True cb new_loop) = Inr s1
     \<and> foldE (srv_step local) es ([], s1) = Inr (live, s)
     \<and> connections s = map (\<lambda>c. (sc_name c, c)) live \<and> distinct (map sc_name live)
     \<and> map sc_id live = srv_spec es 1 []"
proof -
  obtain s1 where s1: "bindE (TcpServer_setThreadNum n s0) (TcpServer_start True cb new_loop) = Inr s1" "srv_inv ([], s1)"
      "ts_nextConnId s1 = 1"
    using server_ready[OF assms(1-3)] by blast
  have "ts_nextConnId s1 + srv_news es \<le> 10 ^ 9" using assms(4) s1(3) by simp
  from srv_run_ok[OF s1(2) this, of local] obtain live s where run: "foldE (srv_step local) es ([], s1) = Inr (live, s)"
      "srv_inv (live, s)" "map sc_id live = srv_spec es 1 []" "ts_nextConnId s \<le> 10 ^ 9"
    using s1(3) by auto
  have "distinct live" using run(2) by (auto simp: srv_inv_def distinct_map)
  then have "distinct (map sc_name live)"
    using srv_names_distinct[OF run(2,4)] by (auto simp: distinct_map inj_on_def)
  then show ?thesis using s1(1) run by (auto simp: srv_inv_def)
qed

theorem server_tracks_connections_witness:
  "\<exists>s0 s1 live s. TcpServer_new 0 (InetAddress_port 2021) ''ftp'' = Inr s0
     \<and> bindE (TcpServer_setThreadNum 3 s0) (TcpServer_start True False (\<lambda>i. Suc i)) = Inr s1
     \<and> foldE (srv_step zero_addr) [Srv_New 7, Srv_New 8, Srv_Close 1, Srv_New 9] ([], s1) = Inr (live, s)
     \<and> connections s = map (\<lambda>c. (sc_name c, c)) live \<and> map sc_id live = [2, 3]"
proof -
  obtain s0 where s0: "TcpServer_new 0 (InetAddress_port 2021) ''ftp'' = Inr s0"
    by (simp add: TcpServer_new_def toIpPort_text)
  show ?thesis
    using server_tracks_connections[OF s0, of 3 "[Srv_New 7, Srv_New 8, Srv_Close 1, Srv_New 9]" False "\<lambda>i. Suc i" zero_addr] s0
    by (auto simp: max_alloc_def)
qed

end
