(* ===== verification/Ftp_Session.thy ===== *)
theory Ftp_Session
  imports Tcp_Connection String_Utils Inet_Address
begin

text \<open>
  The FTP session, \<^verbatim>\<open>example/miniftpd/src/ftp_session.{h,cpp}\<close>: commands on the control connection,
  the passive data connection, and transfers whose disk work is done by a thread pool.

  A session lives on one loop thread, so its handlers run one after the other; what happens is a
  sequence of events: input on the control connection, a data connection coming up or going
  down, a completed write on it, a disk task finishing in any order, a queued functor, the timer.

  \<^item> \<open>ftp_world\<close> extends the session by its surroundings: the data connections by number, the
    replies sent, the disk tasks in flight, the functors queued to the loop, the paths given
    to the system, and the descriptors it holds open.
  \<^item> The file system, the pool's decision to take a task and the addresses are an environment.
  \<^item> Numbers stand for data servers and data connections; a \<^verbatim>\<open>DIR*\<close> is the list of the names
    not yet read.
\<close>

section \<open>Listing lines\<close>

record ftp_stat =
  st_mode :: "32 word"
  st_nlink :: nat
  st_uid :: nat
  st_gid :: nat
  st_size :: nat
  st_time :: string

definition S_IFMT :: "32 word" where "S_IFMT = 0xF000"
definition S_IFDIR :: "32 word" where "S_IFDIR = 0x4000"
definition S_IFREG :: "32 word" where "S_IFREG = 0x8000"

definition S_ISDIR :: "32 word \<Rightarrow> bool" where "S_ISDIR m \<longleftrightarrow> m AND S_IFMT = S_IFDIR"
definition S_ISREG :: "32 word \<Rightarrow> bool" where "S_ISREG m \<longleftrightarrow> m AND S_IFMT = S_IFREG"

text \<open>The permission bits from the owner's read bit down to the others' execute bit.\<close>

definition mode_bit :: "32 word \<Rightarrow> nat \<Rightarrow> char \<Rightarrow> char" where
  "mode_bit m i c = (if bit m (8 - i) then c else CHR ''-'')"

definition mode_string :: "32 word \<Rightarrow> string" where
  "mode_string m = (if S_ISDIR m then CHR ''d'' else CHR ''-'')
     # map (\<lambda>i. mode_bit m i (''rwxrwxrwx'' ! i)) [0..<9]"

definition pad_left :: "nat \<Rightarrow> string \<Rightarrow> string" where
  "pad_left n s = replicate (n - length s) (CHR '' '') @ s"

definition pad_right :: "nat \<Rightarrow> string \<Rightarrow> string" where
  "pad_right n s = s @ replicate (n - length s) (CHR '' '')"

definition unixListLine :: "ftp_stat \<Rightarrow> string \<Rightarrow> string" where
  "unixListLine st name =
     snprintf 512 (mode_string (st_mode st) @ '' '' @ pad_left 3 (dec_nat (st_nlink st)) @ '' ''
       @ pad_right 8 (dec_nat (st_uid st)) @ '' '' @ pad_right 8 (dec_nat (st_gid st)) @ '' ''
       @ pad_left 8 (dec_nat (st_size st)) @ '' '' @ st_time st @ '' '' @ c_str name)"

section \<open>State\<close>

datatype State = kNeedUser | kNeedPass | kLoggedIn

datatype Xfer = kNone | kList | kRetr

text \<open>A data connection: the server it came from, its state, the bytes given to it, and the writes not yet reported complete.\<close>

record dconn =
  dc_server :: nat
  dc_state :: StateE
  dc_sent :: "char list"
  dc_owed :: nat
  dc_wc :: bool

datatype disk_task = Task_Pread nat int nat | Task_List nat string "string list" bool

datatype ftp_functor = Fn_ChunkReady nat "char list" bool bool | Fn_WriteComplete | Fn_CloseDataServer
  | Fn_DeleteServer nat | Fn_ForceClose nat | Fn_ForceCloseCtrl

record ftp_session =
  fs_state :: State
  cwd :: string
  dataServer :: "nat option"
  dataConn :: "nat option"
  xfer :: Xfer
  longNameList :: bool
  xferFile :: string
  xferFd :: int
  nextReadOffset :: nat
  xferDone :: bool
  xferGen :: nat
  xferDir :: "string list option"
  pasvTimerId :: nat

record ftp_world = ftp_session +
  ctrl :: StateE
  conns :: "nat \<Rightarrow> dconn option"
  nconns :: nat
  servers :: nat
  alive :: "nat list"
  timers :: "nat list"
  ntimers :: nat
  replies :: "string list"
  disk :: "disk_task list"
  functors :: "ftp_functor list"
  paths :: "string list"
  open_files :: "int list"
  f_calls :: nat

record ftp_env =
  fe_open :: "nat \<Rightarrow> string \<Rightarrow> int"
  fe_opendir :: "nat \<Rightarrow> string \<Rightarrow> string list option"
  fe_stat :: "string \<Rightarrow> ftp_stat option"
  fe_pread :: "nat \<Rightarrow> int \<Rightarrow> nat \<Rightarrow> nat \<Rightarrow> int + char list"
  fe_accepts :: "nat \<Rightarrow> bool"
  fe_ip :: "32 word"
  fe_port :: "nat \<Rightarrow> 16 word"

definition kCRLF :: string where "kCRLF = [CHR 0x0D, CHR 0x0A]"
definition kFtpRoot :: string where "kFtpRoot = ''.''"
definition kReadChunkSize :: nat where "kReadChunkSize = 64 * 1024"
definition kListBatchEntries :: nat where "kListBatchEntries = 64"

definition FtpSession_new :: ftp_world where
  "FtpSession_new =
     \<lparr>fs_state = kNeedUser, cwd = ''/'', dataServer = None, dataConn = None, xfer = kNone, longNameList = True,
      xferFile = [], xferFd = - 1, nextReadOffset = 0, xferDone = False, xferGen = 0, xferDir = None, pasvTimerId = 0,
      ctrl = KConnected, conns = Map.empty, nconns = 0, servers = 0, alive = [], timers = [], ntimers = 1, replies = [],
      disk = [], functors = [], paths = [], open_files = [], f_calls = 0\<rparr>"

definition reply :: "string \<Rightarrow> ftp_world \<Rightarrow> ftp_world" where
  "reply text w = (if ctrl w = KConnected then w\<lparr>replies := replies w @ [text @ kCRLF]\<rparr> else w)"

definition session_start :: "ftp_world \<Rightarrow> ftp_world" where
  "session_start w = reply ''220 miniftpd ready'' w"

abbreviation ftp_queue :: "ftp_functor \<Rightarrow> ftp_world \<Rightarrow> ftp_world" where
  "ftp_queue f w \<equiv> w\<lparr>functors := functors w @ [f]\<rparr>"

text \<open>What the session does with a data connection.\<close>

definition upd_conn :: "nat \<Rightarrow> (dconn \<Rightarrow> dconn) \<Rightarrow> ftp_world \<Rightarrow> ftp_world" where
  "upd_conn k f w = w\<lparr>conns := (conns w)(k := map_option f (conns w k))\<rparr>"

definition conn_connected :: "ftp_world \<Rightarrow> nat \<Rightarrow> bool" where
  "conn_connected w k \<longleftrightarrow> (case conns w k of None \<Rightarrow> False | Some c \<Rightarrow> dc_state c = KConnected)"

definition data_connected :: "ftp_world \<Rightarrow> bool" where
  "data_connected w \<longleftrightarrow> (case dataConn w of None \<Rightarrow> False | Some k \<Rightarrow> conn_connected w k)"

definition data_send :: "char list \<Rightarrow> nat \<Rightarrow> ftp_world \<Rightarrow> ftp_world" where
  "data_send m k = upd_conn k (\<lambda>c. if dc_state c = KConnected
     then c\<lparr>dc_sent := dc_sent c @ m, dc_owed := dc_owed c + (if m = [] then 0 else 1)\<rparr> else c)"

definition data_shutdown :: "nat \<Rightarrow> ftp_world \<Rightarrow> ftp_world" where
  "data_shutdown k = upd_conn k (\<lambda>c. if dc_state c = KConnected then c\<lparr>dc_state := KDisconnecting\<rparr> else c)"

definition data_forceClose :: "nat \<Rightarrow> ftp_world \<Rightarrow> ftp_world" where
  "data_forceClose k w =
     (case conns w k of
        None \<Rightarrow> w
      | Some c \<Rightarrow> if dc_state c = KConnected \<or> dc_state c = KDisconnecting
                  then ftp_queue (Fn_ForceClose k) (upd_conn k (\<lambda>c. c\<lparr>dc_state := KDisconnecting\<rparr>) w) else w)"

definition cancel_pasv :: "ftp_world \<Rightarrow> ftp_world" where
  "cancel_pasv w = w\<lparr>timers := remove1 (pasvTimerId w) (timers w)\<rparr>"

section \<open>Transfers\<close>

definition abortTransfer :: "ftp_world \<Rightarrow> ftp_world" where
  "abortTransfer w =
     (let w = w\<lparr>xfer := kNone, xferFile := [], nextReadOffset := 0, xferDone := False, xferGen := (xferGen w + 1) mod size_mod\<rparr>;
          w = (if 0 \<le> xferFd w then w\<lparr>xferFd := - 1, open_files := remove1 (xferFd w) (open_files w)\<rparr> else w);
          w = w\<lparr>xferDir := None\<rparr>
      in case dataConn w of None \<Rightarrow> w | Some k \<Rightarrow> upd_conn k (\<lambda>c. c\<lparr>dc_wc := False\<rparr>) w)"

definition closeDataServer :: "ftp_world \<Rightarrow> ftp_world" where
  "closeDataServer w =
     (let w = w\<lparr>dataConn := None\<rparr>
      in case dataServer w of None \<Rightarrow> w | Some i \<Rightarrow> ftp_queue (Fn_DeleteServer i) (w\<lparr>dataServer := None\<rparr>))"

definition force_data_conn :: "ftp_world \<Rightarrow> ftp_world" where
  "force_data_conn w = (case dataConn w of None \<Rightarrow> w | Some k \<Rightarrow> data_forceClose k w)"

definition transferRejected :: "ftp_world \<Rightarrow> ftp_world" where
  "transferRejected w =
     ftp_queue Fn_CloseDataServer (force_data_conn (abortTransfer (reply ''451 local error in processing'' w)))"

definition sendChunkReady :: "nat \<Rightarrow> char list \<Rightarrow> bool \<Rightarrow> bool \<Rightarrow> ftp_world \<Rightarrow> ftp_world res" where
  "sendChunkReady gen chunk atEof ioError w =
     (if gen \<noteq> xferGen w \<or> xfer w = kNone then Inr w
      else if ioError
      then let w = (if xfer w = kRetr then reply ''550 read error during transfer'' w
                    else reply ''550 failed to list directory'' w)
           in Inr (ftp_queue Fn_CloseDataServer (force_data_conn (abortTransfer w)))
      else if chunk = [] \<and> atEof
      then let w = w\<lparr>xferDone := True\<rparr>
           in case dataConn w of None \<Rightarrow> Inl Null_Deref | Some k \<Rightarrow> Inr (data_shutdown k w)
      else if \<not> data_connected w then Inr w
      else case dataConn w of
             None \<Rightarrow> Inr w
           | Some k \<Rightarrow>
               let w = data_send chunk k w
               in Inr (if atEof then data_shutdown k (w\<lparr>xferDone := True\<rparr>) else w))"

definition requestNextChunk :: "ftp_env \<Rightarrow> ftp_world \<Rightarrow> ftp_world res" where
  "requestNextChunk env w =
     (if xfer w = kNone \<or> \<not> data_connected w then Inr w
      else let gen = xferGen w
      in if xfer w = kRetr
         then let offset = nextReadOffset w;
                  w = w\<lparr>nextReadOffset := offset + kReadChunkSize, f_calls := Suc (f_calls w)\<rparr>
              in if fe_accepts env (f_calls w) then Inr (w\<lparr>disk := disk w @ [Task_Pread gen (xferFd w) offset]\<rparr>)
                 else Inr (transferRejected w)
         else case xferDir w of
                None \<Rightarrow> Inl Null_Deref
              | Some entries \<Rightarrow>
                  let names = take kListBatchEntries entries;
                      w = w\<lparr>xferDir := Some (drop kListBatchEntries entries)\<rparr>
                  in if names = [] then sendChunkReady gen [] True False w
                     else let w = w\<lparr>f_calls := Suc (f_calls w)\<rparr>
                          in if fe_accepts env (f_calls w)
                             then Inr (w\<lparr>disk := disk w @ [Task_List gen (kFtpRoot @ cwd w) names (longNameList w)]\<rparr>)
                             else Inr (transferRejected w))"

definition tryStartTransfer :: "ftp_env \<Rightarrow> ftp_world \<Rightarrow> ftp_world res" where
  "tryStartTransfer env w =
     (if \<not> data_connected w \<or> xfer w = kNone then Inr w
      else let w = w\<lparr>f_calls := Suc (f_calls w)\<rparr>
      in if xfer w = kRetr
         then let path = c_str (xferFile w);
                  fd = fe_open env (f_calls w) path;
                  w = w\<lparr>xferFd := fd, paths := paths w @ [path]\<rparr>
              in if fd < 0
                 then Inr (ftp_queue Fn_CloseDataServer (force_data_conn (reply ''550 failed to open file'' w)))
                 else requestNextChunk env (w\<lparr>open_files := open_files w @ [fd]\<rparr>)
         else let path = c_str (kFtpRoot @ cwd w);
                  dir = fe_opendir env (f_calls w) path;
                  w = w\<lparr>xferDir := dir, paths := paths w @ [path]\<rparr>
              in if dir = None
                 then Inr (ftp_queue Fn_CloseDataServer (force_data_conn (reply ''550 failed to list directory'' w)))
                 else requestNextChunk env w)"

definition sendDataEndReply :: "ftp_world \<Rightarrow> ftp_world" where
  "sendDataEndReply w =
     (let w = (case xfer w of kList \<Rightarrow> reply ''226 list transfer complete'' w
               | kRetr \<Rightarrow> reply ''226 transfer complete'' w | kNone \<Rightarrow> w)
      in abortTransfer (cancel_pasv w))"

text \<open>The connection callback of the data server: \<open>k\<close> has come up, or is down.\<close>

definition handleDataConnected :: "ftp_env \<Rightarrow> nat \<Rightarrow> ftp_world \<Rightarrow> ftp_world res" where
  "handleDataConnected env k w =
     (if conn_connected w k
      then if dataConn w \<noteq> None then Inr (data_forceClose k w)
           else tryStartTransfer env (upd_conn k (\<lambda>c. c\<lparr>dc_wc := True\<rparr>) (w\<lparr>dataConn := Some k\<rparr>))
      else let w = (if xfer w \<noteq> kNone \<and> \<not> xferDone w
                    then reply ''426 connection closed; transfer aborted'' (abortTransfer w)
                    else sendDataEndReply w)
           in Inr (ftp_queue Fn_CloseDataServer w))"

section \<open>Commands\<close>

definition requireLogin :: "ftp_world \<Rightarrow> bool \<times> ftp_world" where
  "requireLogin w =
     (if fs_state w = kLoggedIn then (True, w) else (False, reply ''530 please login with USER and PASS'' w))"

definition cmdUser :: "ftp_world \<Rightarrow> ftp_world" where
  "cmdUser w = reply ''331 password required'' (w\<lparr>fs_state := kNeedPass\<rparr>)"

definition cmdPass :: "ftp_world \<Rightarrow> ftp_world" where
  "cmdPass w =
     (if fs_state w \<noteq> kNeedPass then reply ''503 login with USER first'' w
      else reply ''230 login successful'' (w\<lparr>fs_state := kLoggedIn\<rparr>))"

definition cmdSyst :: "ftp_world \<Rightarrow> ftp_world" where
  "cmdSyst w = reply ''215 UNIX Type: L8'' w"

definition cmdPwd :: "ftp_world \<Rightarrow> ftp_world" where
  "cmdPwd w = (let (ok, w) = requireLogin w
     in if ok then reply (''257 '' @ [CHR 0x22] @ cwd w @ [CHR 0x22] @ '' is the current directory'') w else w)"

definition cmdType :: "ftp_world \<Rightarrow> ftp_world" where
  "cmdType w = (let (ok, w) = requireLogin w in if ok then reply ''200 type set to I'' w else w)"

fun join_commas :: "nat list \<Rightarrow> string" where
  "join_commas [] = []"
| "join_commas [n] = dec_nat n"
| "join_commas (n # ns) = dec_nat n @ CHR '','' # join_commas ns"

definition pasvReply :: "32 word \<Rightarrow> 16 word \<Rightarrow> string" where
  "pasvReply ip port =
     snprintf 64 (''227 Entering Passive Mode ('' @ join_commas (map of_char (le_bytes 4 (unat ip) @ le_bytes 2 (unat port))) @ '')'')"

definition cmdPasv :: "ftp_env \<Rightarrow> ftp_world \<Rightarrow> ftp_world" where
  "cmdPasv env w =
     (let (ok, w) = requireLogin w
      in if \<not> ok then w
         else let w = (if dataServer w \<noteq> None then closeDataServer w else w);
                  i = servers w;
                  t = ntimers w;
                  w = w\<lparr>dataServer := Some i, pasvTimerId := t, servers := Suc i, alive := i # alive w,
                         timers := t # timers w, ntimers := Suc t\<rparr>
              in reply (pasvReply (fe_ip env) (fe_port env i)) w)"

definition pasv_timeout :: "ftp_world \<Rightarrow> ftp_world" where
  "pasv_timeout w =
     (if dataServer w \<noteq> None \<and> xfer w = kNone \<and> dataConn w = None
      then closeDataServer (reply ''425 passive mode timed out'' w) else w)"

definition cmdList :: "ftp_env \<Rightarrow> bool \<Rightarrow> ftp_world \<Rightarrow> ftp_world res" where
  "cmdList env longNames w =
     (let (ok, w) = requireLogin w
      in if \<not> ok then Inr w
         else if dataServer w = None then Inr (reply ''425 use PASV first'' w)
         else tryStartTransfer env (reply ''150 here comes the directory listing''
                (cancel_pasv (w\<lparr>xfer := kList, longNameList := longNames, xferGen := (xferGen w + 1) mod size_mod\<rparr>))))"

definition cmdRetr :: "ftp_env \<Rightarrow> string \<Rightarrow> ftp_world \<Rightarrow> ftp_world res" where
  "cmdRetr env arg w =
     (let (ok, w) = requireLogin w
      in if \<not> ok then Inr w
         else if dataServer w = None then Inr (reply ''425 use PASV first'' w)
         else if arg = [] then Inr (reply ''501 no file name given'' w)
         else if find_sub ''..'' arg \<noteq> None \<or> hd arg = CHR ''/'' then Inr (reply ''550 invalid path'' w)
         else let fullPath = kFtpRoot @ ''/'' @ arg
         in let w = w\<lparr>paths := paths w @ [c_str fullPath]\<rparr>
         in case fe_stat env (c_str fullPath) of
              None \<Rightarrow> Inr (reply ''550 no such file'' w)
            | Some st \<Rightarrow>
                if \<not> S_ISREG (st_mode st) then Inr (reply ''550 no such file'' w)
                else tryStartTransfer env (reply ''150 opening BINARY mode data connection''
                  (cancel_pasv (w\<lparr>xfer := kRetr, xferFile := fullPath, nextReadOffset := 0, xferDone := False,
                     xferGen := (xferGen w + 1) mod size_mod\<rparr>))))"

definition cmdQuit :: "ftp_world \<Rightarrow> ftp_world" where
  "cmdQuit w =
     (let w = reply ''221 bye'' w in if ctrl w = KConnected then w\<lparr>ctrl := KDisconnecting\<rparr> else w)"

definition split_command :: "string \<Rightarrow> string \<times> string" where
  "split_command line =
     (case find_sub '' '' line of
        None \<Rightarrow> (map to_upper_ascii line, [])
      | Some sp \<Rightarrow> (map to_upper_ascii (take sp line), drop (sp + 1) line))"

definition handleCommand :: "ftp_env \<Rightarrow> string \<Rightarrow> ftp_world \<Rightarrow> ftp_world res" where
  "handleCommand env line w =
     (let (cmd, arg) = split_command line
      in if cmd = ''USER'' then Inr (cmdUser w)
         else if cmd = ''PASS'' then Inr (cmdPass w)
         else if cmd = ''SYST'' then Inr (cmdSyst w)
         else if cmd = ''PWD'' \<or> cmd = ''XPWD'' then Inr (cmdPwd w)
         else if cmd = ''TYPE'' then Inr (cmdType w)
         else if cmd = ''PASV'' then Inr (cmdPasv env w)
         else if cmd = ''LIST'' then cmdList env True w
         else if cmd = ''NLST'' then cmdList env False w
         else if cmd = ''RETR'' then cmdRetr env arg w
         else if cmd = ''QUIT'' then Inr (cmdQuit w)
         else Inr (reply ''502 command not implemented'' w))"

section \<open>Input of the control connection\<close>

definition ctrl_forceClose :: "ftp_world \<Rightarrow> ftp_world" where
  "ctrl_forceClose w =
     (if ctrl w = KConnected \<or> ctrl w = KDisconnecting
      then ftp_queue Fn_ForceCloseCtrl (w\<lparr>ctrl := KDisconnecting\<rparr>) else w)"

text \<open>Every turn of the loop takes at least the two bytes of the line end from the buffer.\<close>

lemma int_sz_sub: "int (sz_sub a b) = (int a - int b) mod int size_mod"
proof -
  have "b mod size_mod \<le> size_mod"
    by (simp add: size_mod_def)
  then have "int (sz_sub a b) = (int a + (int size_mod - int b mod int size_mod)) mod int size_mod"
    by (simp add: sz_sub_def zmod_int of_nat_diff add_diff_eq)
  also have "\<dots> = (int a - int b mod int size_mod + int size_mod) mod int size_mod"
    by (simp add: algebra_simps)
  also have "\<dots> = (int a - int b) mod int size_mod"
    by (simp add: mod_diff_right_eq)
  finally show ?thesis .
qed

lemma retrieveUntil_less:
  assumes "findCRLF b = Some p" and "retrieveUntil (p + 2) b = Inr b'"
  shows "readableBytes b' < readableBytes b"
proof -
  define len where "len = p + 2 - readerIndex b"
  have "readerIndex b \<le> p"
    using assms(1) by (auto simp: findCRLF_def search_CRLF_def peek_def Let_def split: option.splits if_splits)
  then have pos: "0 < len"
    by (simp add: len_def)
  have ret: "retrieve len b = Inr b'"
    using assms(2) by (auto simp: retrieveUntil_def peek_def beginWrite_def len_def assertE_def split: if_splits)
  then have le: "len \<le> readableBytes b"
    by (auto simp: retrieve_def assertE_def split: if_splits)
  show ?thesis
  proof (cases "len < readableBytes b")
    case True
    then have b': "b' = b\<lparr>readerIndex := sz_add (readerIndex b) len\<rparr>"
      using ret by (simp add: retrieve_def assertE_def split: if_splits)
    have "int (readableBytes b') = (int (writeIndex b) - (int (readerIndex b) + int len) mod int size_mod) mod int size_mod"
      by (simp add: b' readableBytes_def int_sz_sub sz_add_def zmod_int)
    also have "\<dots> = ((int (writeIndex b) - int (readerIndex b)) mod int size_mod - int len) mod int size_mod"
      by (simp add: mod_simps algebra_simps)
    also have "\<dots> = (int (readableBytes b) - int len) mod int size_mod"
      by (simp add: readableBytes_def int_sz_sub)
    also have "\<dots> \<le> int (readableBytes b) - int len"
      using True by (simp add: zmod_le_nonneg_dividend)
    finally show ?thesis
      using pos True by linarith
  next
    case False
    then have "b' = retrieveAll b"
      using ret le by (simp add: retrieve_def assertE_def)
    then have "readableBytes b' = 0"
      by (simp add: readableBytes_def retrieveAll_def sz_sub_def kCheapprepend_def size_mod_def)
    then show ?thesis
      using pos le by simp
  qed
qed

function onMessage :: "ftp_env \<Rightarrow> buffer \<Rightarrow> ftp_world \<Rightarrow> (buffer \<times> ftp_world) res" where
  "onMessage env b w =
     (if 0 < readableBytes b
      then case findCRLF b of
             None \<Rightarrow> if 4096 < readableBytes b then Inr (b, ctrl_forceClose w) else Inr (b, w)
           | Some crlf \<Rightarrow>
               bindE (read_at (peek b) (crlf - peek b) (buf_vec b)) (\<lambda>line.
               bindE (retrieveUntil (crlf + 2) b) (\<lambda>b.
               bindE (handleCommand env line w) (\<lambda>w.
               onMessage env b w)))
      else Inr (b, w))"
  by pat_completeness auto
termination
  by (relation "measure (\<lambda>(env, b, w). readableBytes b)") (auto dest: retrieveUntil_less)

text \<open>The callbacks \<^verbatim>\<open>main\<close> installs: a control connection carries its session as its context.\<close>

definition main_onConnection :: "bool \<Rightarrow> ftp_world option" where
  "main_onConnection up = (if up then Some (session_start FtpSession_new) else None)"

definition main_onMessage :: "ftp_env \<Rightarrow> buffer \<Rightarrow> ftp_world option \<Rightarrow> (buffer \<times> ftp_world option) res" where
  "main_onMessage env b ctx =
     (case ctx of
        None \<Rightarrow> Inr (b, None)
      | Some w \<Rightarrow> bindE (onMessage env b w) (\<lambda>(b, w). Inr (b, Some w)))"

section \<open>The pool thread, the data connections and the loop\<close>

text \<open>What a disk task hands back to the loop; it runs on a pool thread and touches no session state.\<close>

definition list_chunk :: "ftp_env \<Rightarrow> string \<Rightarrow> bool \<Rightarrow> string list \<Rightarrow> string" where
  "list_chunk env dirPath longList names =
     (if \<not> longList then concat (map (\<lambda>name. name @ kCRLF) names)
      else concat (map (\<lambda>name. case fe_stat env (c_str (dirPath @ ''/'' @ name)) of
             None \<Rightarrow> [] | Some st \<Rightarrow> unixListLine st name @ kCRLF) names))"

definition run_task :: "ftp_env \<Rightarrow> nat \<Rightarrow> disk_task \<Rightarrow> ftp_functor" where
  "run_task env n t =
     (case t of
        Task_Pread gen fd offset \<Rightarrow>
          (case fe_pread env n fd kReadChunkSize offset of
             Inl err \<Rightarrow> Fn_ChunkReady gen [] False True
           | Inr chunk \<Rightarrow> Fn_ChunkReady gen chunk (chunk = []) False)
      | Task_List gen dirPath names longList \<Rightarrow> Fn_ChunkReady gen (list_chunk env dirPath longList names) False False)"

text \<open>\<^verbatim>\<open>TcpConnection::handleClose\<close> on a data connection, and \<^verbatim>\<open>connnectDestroyed\<close> for each connection of a deleted server.\<close>

definition data_handleClose :: "ftp_env \<Rightarrow> nat \<Rightarrow> ftp_world \<Rightarrow> ftp_world res" where
  "data_handleClose env k w = handleDataConnected env k (upd_conn k (\<lambda>c. c\<lparr>dc_state := KDisconnected\<rparr>) w)"

definition data_connnectDestroyed :: "ftp_env \<Rightarrow> nat \<Rightarrow> ftp_world \<Rightarrow> ftp_world res" where
  "data_connnectDestroyed env k w =
     (case conns w k of
        None \<Rightarrow> Inr w
      | Some c \<Rightarrow> if dc_state c = KConnected then data_handleClose env k w
                  else if dc_state c = KDisconnecting then Inl Assert_Failed
                  else Inr w)"

definition server_conns :: "nat \<Rightarrow> ftp_world \<Rightarrow> nat list" where
  "server_conns i w = filter (\<lambda>k. case conns w k of None \<Rightarrow> False | Some c \<Rightarrow> dc_server c = i) [0..<nconns w]"

definition delete_server :: "ftp_env \<Rightarrow> nat \<Rightarrow> ftp_world \<Rightarrow> ftp_world res" where
  "delete_server env i w = foldE (data_connnectDestroyed env) (server_conns i w) (w\<lparr>alive := remove1 i (alive w)\<rparr>)"

definition ftp_run_functor :: "ftp_env \<Rightarrow> ftp_functor \<Rightarrow> ftp_world \<Rightarrow> ftp_world res" where
  "ftp_run_functor env f w =
     (case f of
        Fn_ChunkReady gen chunk atEof ioError \<Rightarrow> sendChunkReady gen chunk atEof ioError w
      | Fn_WriteComplete \<Rightarrow> if xfer w \<noteq> kNone then requestNextChunk env w else Inr w
      | Fn_CloseDataServer \<Rightarrow> Inr (closeDataServer w)
      | Fn_DeleteServer i \<Rightarrow> delete_server env i w
      | Fn_ForceClose k \<Rightarrow>
          (case conns w k of
             None \<Rightarrow> Inr w
           | Some c \<Rightarrow> if dc_state c = KConnected \<or> dc_state c = KDisconnecting then data_handleClose env k w else Inr w)
      | Fn_ForceCloseCtrl \<Rightarrow> Inr (w\<lparr>ctrl := KDisconnected\<rparr>))"

definition handleDataMessage :: "buffer \<Rightarrow> buffer" where
  "handleDataMessage b = retrieveAll b"

definition FtpSession_delete :: "ftp_world \<Rightarrow> ftp_world" where
  "FtpSession_delete w =
     (let w = (if 0 \<le> xferFd w then w\<lparr>open_files := remove1 (xferFd w) (open_files w)\<rparr> else w);
          w = (if xferDir w \<noteq> None then w\<lparr>xferDir := None\<rparr> else w)
      in closeDataServer w)"

text \<open>
  The events of a session. One that the surroundings cannot produce leaves the world as it is:
  a connection on a server that is gone, a second end of a connection, a completed write with
  none owed. \<open>Ev_written k n\<close>: the output buffer of connection \<open>k\<close> has drained, which completes \<open>n\<close> sends at once.
\<close>

datatype ftp_event = Ev_line string | Ev_ctrl_down | Ev_data_up nat | Ev_data_down nat | Ev_written nat nat
  | Ev_disk nat | Ev_functor | Ev_timer nat

definition data_up :: "ftp_env \<Rightarrow> nat \<Rightarrow> ftp_world \<Rightarrow> ftp_world res" where
  "data_up env i w =
     (if i \<in> set (alive w)
      then let k = nconns w
           in handleDataConnected env k
                (w\<lparr>conns := (conns w)(k \<mapsto> \<lparr>dc_server = i, dc_state = KConnected, dc_sent = [], dc_owed = 0, dc_wc = False\<rparr>),
                   nconns := Suc k\<rparr>)
      else Inr w)"

definition data_down :: "ftp_env \<Rightarrow> nat \<Rightarrow> ftp_world \<Rightarrow> ftp_world res" where
  "data_down env k w =
     (case conns w k of
        None \<Rightarrow> Inr w
      | Some c \<Rightarrow> if dc_state c = KDisconnected then Inr w else data_handleClose env k w)"

definition data_written :: "nat \<Rightarrow> nat \<Rightarrow> ftp_world \<Rightarrow> ftp_world" where
  "data_written k n w =
     (case conns w k of
        None \<Rightarrow> w
      | Some c \<Rightarrow> if 0 < n \<and> n \<le> dc_owed c \<and> dc_state c \<noteq> KDisconnected
                  then let w = upd_conn k (\<lambda>c. c\<lparr>dc_owed := dc_owed c - n\<rparr>) w
                       in if dc_wc c then ftp_queue Fn_WriteComplete w else w
                  else w)"

definition ftp_step :: "ftp_env \<Rightarrow> ftp_event \<Rightarrow> ftp_world \<Rightarrow> ftp_world res" where
  "ftp_step env e w =
     (case e of
        Ev_line line \<Rightarrow> if ctrl w = KDisconnected then Inr w else handleCommand env line w
      | Ev_ctrl_down \<Rightarrow> Inr (w\<lparr>ctrl := KDisconnected\<rparr>)
      | Ev_data_up i \<Rightarrow> data_up env i w
      | Ev_data_down k \<Rightarrow> data_down env k w
      | Ev_written k n \<Rightarrow> Inr (data_written k n w)
      | Ev_disk i \<Rightarrow>
          if i < length (disk w)
          then let n = Suc (f_calls w)
               in Inr (w\<lparr>disk := take i (disk w) @ drop (Suc i) (disk w),
                         functors := functors w @ [run_task env n (disk w ! i)], f_calls := n\<rparr>)
          else Inr w
      | Ev_functor \<Rightarrow>
          (case functors w of [] \<Rightarrow> Inr w | f # fs \<Rightarrow> ftp_run_functor env f (w\<lparr>functors := fs\<rparr>))
      | Ev_timer t \<Rightarrow> Inr (if t \<in> set (timers w) then pasv_timeout (w\<lparr>timers := remove1 t (timers w)\<rparr>) else w))"

abbreviation ftp_run :: "ftp_env \<Rightarrow> ftp_event list \<Rightarrow> ftp_world \<Rightarrow> ftp_world res" where
  "ftp_run env \<equiv> foldE (ftp_step env)"

end
