(* ===== verification/Ftp_Safety.thy ===== *)
theory Ftp_Safety
  imports Ftp_Session "HOL-Library.Sublist"
begin

text \<open>
  What holds of every FTP session: the paths it uses stay below its root, nothing happens before
  the login, and the ways in which a session may fail.
\<close>

section \<open>Only paths below the root\<close>

text \<open>How a path without symbolic links is followed: \<open>None\<close> when it climbs above where it started.\<close>

fun path_components :: "string \<Rightarrow> string list" where
  "path_components [] = [[]]"
| "path_components (c # cs) =
     (if c = CHR ''/'' then [] # path_components cs
      else case path_components cs of [] \<Rightarrow> [[c]] | p # ps \<Rightarrow> (c # p) # ps)"

fun resolve :: "string list \<Rightarrow> string list \<Rightarrow> string list option" where
  "resolve [] st = Some st"
| "resolve (c # cs) st =
     (if c = [] \<or> c = ''.'' then resolve cs st
      else if c = ''..'' then (case st of [] \<Rightarrow> None | d # ds \<Rightarrow> resolve cs ds)
      else resolve cs (c # st))"

definition inside_root :: "string \<Rightarrow> bool" where
  "inside_root p \<longleftrightarrow> p \<noteq> [] \<and> hd p \<noteq> CHR ''/'' \<and> resolve (path_components p) [] \<noteq> None"

lemma path_components_hd_prefix: "\<exists>q qs. path_components s = q # qs \<and> prefix q s"
  by (induction s) (auto split: list.splits)

lemma path_components_sublist: "q \<in> set (path_components s) \<Longrightarrow> sublist q s"
proof (induction s arbitrary: q)
  case (Cons c cs)
  obtain p ps where p: "path_components cs = p # ps" "prefix p cs"
    using path_components_hd_prefix[of cs] by blast
  show ?case
  proof (cases "c = CHR ''/''")
    case True
    then show ?thesis using Cons by (auto intro: sublist_Cons_right[THEN iffD2])
  next
    case False
    then have "q = c # p \<or> q \<in> set ps" using Cons.prems p by simp
    then show ?thesis
    proof
      assume "q = c # p"
      then have "prefix q (c # cs)" using p(2) by simp
      then show ?thesis by (rule prefix_imp_sublist)
    next
      assume "q \<in> set ps"
      then have "sublist q cs" using Cons.IH p(1) by simp
      then show ?thesis by (simp add: sublist_Cons_right)
    qed
  qed
qed simp

lemma find_sub_None_sublist: "find_sub pat xs = None \<Longrightarrow> \<not> sublist pat xs"
proof (induction xs)
  case (Cons x xs)
  then have "take (length pat) (x # xs) \<noteq> pat" and "\<not> sublist pat xs"
    by (auto split: if_splits)
  then have "\<not> prefix pat (x # xs)"
    by (metis append_eq_conv_conj prefix_def)
  then show ?case
    using \<open>\<not> sublist pat xs\<close> by (simp add: sublist_Cons_right)
qed (auto split: if_splits)

lemma resolve_no_parent: "''..'' \<notin> set cs \<Longrightarrow> resolve cs st \<noteq> None"
  by (induction cs st rule: resolve.induct) auto

lemma retr_path_inside:
  assumes "find_sub ''..'' arg = None"
  shows "inside_root (c_str (kFtpRoot @ ''/'' @ arg))"
proof -
  have eq: "c_str (kFtpRoot @ ''/'' @ arg) = ''./'' @ c_str arg"
    by (simp add: c_str_def kFtpRoot_def)
  have "prefix (c_str arg) arg"
    by (simp add: c_str_def takeWhile_is_prefix)
  then have "sublist (c_str arg) arg" by (rule prefix_imp_sublist)
  then have "''..'' \<notin> set (path_components (c_str arg))"
    using find_sub_None_sublist[OF assms] path_components_sublist sublist_order.order_trans by blast
  then show ?thesis
    unfolding eq inside_root_def by (simp add: resolve_no_parent)
qed

lemma root_inside: "inside_root (c_str (kFtpRoot @ ''/''))"
  by (simp add: inside_root_def c_str_def kFtpRoot_def)

definition paths_inv :: "ftp_world \<Rightarrow> bool" where
  "paths_inv w \<longleftrightarrow> cwd w = ''/'' \<and> (\<forall>p \<in> set (paths w). inside_root p)
     \<and> (xfer w = kRetr \<longrightarrow> inside_root (c_str (xferFile w)))"

lemma paths_frame [simp]:
  "paths_inv (w\<lparr>functors := a\<rparr>) = paths_inv w" "paths_inv (w\<lparr>xferDone := b\<rparr>) = paths_inv w"
  "paths_inv (w\<lparr>nextReadOffset := c\<rparr>) = paths_inv w" "paths_inv (w\<lparr>f_calls := d\<rparr>) = paths_inv w"
  "paths_inv (w\<lparr>xferDir := e\<rparr>) = paths_inv w" "paths_inv (w\<lparr>disk := f\<rparr>) = paths_inv w"
  "paths_inv (w\<lparr>open_files := g\<rparr>) = paths_inv w" "paths_inv (w\<lparr>dataConn := h\<rparr>) = paths_inv w"
  "paths_inv (w\<lparr>fs_state := i\<rparr>) = paths_inv w" "paths_inv (w\<lparr>ctrl := j\<rparr>) = paths_inv w"
  "paths_inv (w\<lparr>timers := k\<rparr>) = paths_inv w" "paths_inv (w\<lparr>alive := l\<rparr>) = paths_inv w"
  by (simp_all add: paths_inv_def)

lemma paths_none: "paths_inv w \<Longrightarrow> paths_inv (w\<lparr>xfer := kNone, xferFile := [], nextReadOffset := 0, xferDone := False, xferGen := g\<rparr>)"
  by (simp add: paths_inv_def)

lemma paths_basic [simp]:
  "paths_inv (reply t w) = paths_inv w" "paths_inv (upd_conn k f w) = paths_inv w" "paths_inv (cancel_pasv w) = paths_inv w"
  "paths_inv (data_send m k w) = paths_inv w" "paths_inv (data_shutdown k w) = paths_inv w"
  "paths_inv (w\<lparr>xferFd := a\<rparr>) = paths_inv w" "paths_inv (w\<lparr>dataServer := d\<rparr>) = paths_inv w"
  by (simp_all add: paths_inv_def reply_def upd_conn_def cancel_pasv_def data_send_def data_shutdown_def)

lemma paths_forceClose [simp]:
  "paths_inv (data_forceClose k w) = paths_inv w" "paths_inv (force_data_conn w) = paths_inv w"
  "paths_inv (closeDataServer w) = paths_inv w"
  by (simp_all add: data_forceClose_def force_data_conn_def closeDataServer_def Let_def split: option.splits)

lemma paths_abortTransfer: "paths_inv w \<Longrightarrow> paths_inv (abortTransfer w)"
  using paths_none[of w "(xferGen w + 1) mod size_mod"] by (simp add: abortTransfer_def Let_def split: option.splits)

lemma paths_abort2: "paths_inv w \<Longrightarrow> paths_inv (transferRejected w)" "paths_inv w \<Longrightarrow> paths_inv (sendDataEndReply w)"
  by (simp_all add: transferRejected_def sendDataEndReply_def Let_def paths_abortTransfer split: Xfer.splits)

lemmas paths_small = paths_abortTransfer paths_abort2

lemma paths_sendChunkReady:
  assumes "paths_inv w" and "sendChunkReady gen chunk eof err w = Inr w'"
  shows "paths_inv w'"
  using assms by (auto simp: sendChunkReady_def Let_def paths_small split: if_splits option.splits)

lemma paths_requestNextChunk:
  assumes "paths_inv w" and "requestNextChunk env w = Inr w'"
  shows "paths_inv w'"
  using assms by (auto simp: requestNextChunk_def Let_def paths_small split: if_splits option.splits
      elim!: paths_sendChunkReady[rotated])

lemma paths_tryStartTransfer:
  assumes "paths_inv w" and "tryStartTransfer env w = Inr w'"
  shows "paths_inv w'"
proof -
  have a: "paths_inv (w\<lparr>xferFd := fd, paths := paths w @ [c_str (xferFile w)], f_calls := n\<rparr>)" if "xfer w = kRetr" for fd n
    using assms(1) that by (simp add: paths_inv_def)
  have b: "paths_inv (w\<lparr>xferDir := d, paths := paths w @ [c_str (kFtpRoot @ cwd w)], f_calls := n\<rparr>)" for d n
    using assms(1) root_inside by (simp add: paths_inv_def)
  have d: "w\<lparr>f_calls := n, xferFd := fd, paths := p\<rparr> = w\<lparr>xferFd := fd, paths := p, f_calls := n\<rparr>" 
    "w\<lparr>f_calls := n, xferDir := e, paths := p\<rparr> = w\<lparr>xferDir := e, paths := p, f_calls := n\<rparr>" for n fd p e by simp_all
  show ?thesis
    using assms a b
    by (auto simp: tryStartTransfer_def Let_def paths_small d split: if_splits elim!: paths_requestNextChunk[rotated])
qed

lemma paths_handleDataConnected:
  assumes "paths_inv w" and "handleDataConnected env k w = Inr w'"
  shows "paths_inv w'"
  using assms by (auto simp: handleDataConnected_def Let_def paths_small split: if_splits elim!: paths_tryStartTransfer[rotated])

lemma paths_cmdPasv: "paths_inv w \<Longrightarrow> paths_inv (cmdPasv env w)"
proof -
  assume w: "paths_inv w"
  have up: "paths_inv (v\<lparr>dataServer := Some i, pasvTimerId := t, servers := i', alive := l, timers := ts, ntimers := t'\<rparr>)"
    if "paths_inv v" for v i t i' l ts t'
    using that by (simp add: paths_inv_def)
  show ?thesis
    using w by (auto simp: cmdPasv_def requireLogin_def Let_def paths_small up)
qed

lemma paths_cmdList:
  assumes "paths_inv w" and "cmdList env long w = Inr w'"
  shows "paths_inv w'"
proof -
  have "paths_inv (w\<lparr>xfer := kList, longNameList := l, xferGen := g\<rparr>)" for l g
    using assms(1) by (simp add: paths_inv_def)
  then show ?thesis
    using assms by (auto simp: cmdList_def requireLogin_def Let_def paths_small split: if_splits elim!: paths_tryStartTransfer[rotated])
qed

lemma paths_cmdRetr:
  assumes "paths_inv w" and "cmdRetr env arg w = Inr w'"
  shows "paths_inv w'"
proof -
  have a: "paths_inv (w\<lparr>paths := paths w @ [c_str (kFtpRoot @ ''/'' @ arg)]\<rparr>)" if "find_sub ''..'' arg = None"
    using assms(1) retr_path_inside[OF that] by (simp add: paths_inv_def)
  have b: "paths_inv (w\<lparr>paths := ps, xfer := kRetr, xferFile := kFtpRoot @ ''/'' @ arg, nextReadOffset := 0, xferDone := False, xferGen := g\<rparr>)"
    if "find_sub ''..'' arg = None" and "paths_inv (w\<lparr>paths := ps\<rparr>)" for g ps
    using that retr_path_inside[OF that(1)] by (simp add: paths_inv_def)
  show ?thesis
    using assms a b
    by (auto simp: cmdRetr_def requireLogin_def Let_def paths_small simp del: append_Cons append_Nil
        split: if_splits option.splits elim!: paths_tryStartTransfer[rotated])
qed

lemma if_eqE: "(if P then a else b) = c \<Longrightarrow> (P \<Longrightarrow> a = c \<Longrightarrow> R) \<Longrightarrow> (\<not> P \<Longrightarrow> b = c \<Longrightarrow> R) \<Longrightarrow> R"
  by (cases P) simp_all

lemma handleCommand_cases:
  assumes "handleCommand env line w = Inr w'"
  obtains (user) "fst (split_command line) = ''USER''" "w' = cmdUser w"
  | (pass) "fst (split_command line) = ''PASS''" "w' = cmdPass w"
  | (syst) "w' = cmdSyst w" | (pwd) "w' = cmdPwd w" | (type) "w' = cmdType w"
  | (pasv) "fst (split_command line) = ''PASV''" "w' = cmdPasv env w"
  | (list) long where "fst (split_command line) \<in> {''LIST'', ''NLST''}" "cmdList env long w = Inr w'"
  | (retr) arg where "fst (split_command line) = ''RETR''" "cmdRetr env arg w = Inr w'"
  | (quit) "w' = cmdQuit w" | (other) t where "w' = reply t w"
  using assms unfolding handleCommand_def Let_def prod.case_eq_if
  apply (elim if_eqE)
  apply (drule sum.inject(2)[THEN iffD1], erule user, erule sym)
  apply (drule sum.inject(2)[THEN iffD1], erule pass, erule sym)
  apply (drule sum.inject(2)[THEN iffD1], rule syst, erule sym)
  apply (drule sum.inject(2)[THEN iffD1], rule pwd, erule sym)
  apply (drule sum.inject(2)[THEN iffD1], rule type, erule sym)
  apply (drule sum.inject(2)[THEN iffD1], erule pasv, erule sym)
  apply (rule list, erule ssubst, rule insertI1, assumption)
  apply (rule list, erule ssubst, rule insertI2, rule insertI1, assumption)
  apply (erule retr, assumption)
  apply (drule sum.inject(2)[THEN iffD1], rule quit, erule sym)
  apply (drule sum.inject(2)[THEN iffD1], rule other, erule sym)
  done

lemma paths_handleCommand:
  assumes "paths_inv w" and "handleCommand env line w = Inr w'"
  shows "paths_inv w'"
  using assms(2)
proof (cases rule: handleCommand_cases)
  case (list long)
  then show ?thesis using assms(1) paths_cmdList by blast
next
  case (retr arg)
  then show ?thesis using assms(1) paths_cmdRetr by blast
qed (use assms(1) paths_cmdPasv in \<open>simp_all add: cmdUser_def cmdPass_def cmdSyst_def cmdPwd_def cmdType_def cmdQuit_def
    requireLogin_def Let_def\<close>)

lemma paths_data_handleClose: "paths_inv w \<Longrightarrow> data_handleClose env k w = Inr w' \<Longrightarrow> paths_inv w'"
  unfolding data_handleClose_def by (rule paths_handleDataConnected) simp_all

lemma paths_connnectDestroyed: "paths_inv w \<Longrightarrow> data_connnectDestroyed env k w = Inr w' \<Longrightarrow> paths_inv w'"
  by (auto simp: data_connnectDestroyed_def split: option.splits if_splits elim: paths_data_handleClose)

lemma paths_delete_server:
  assumes "paths_inv w" and "delete_server env i w = Inr w'"
  shows "paths_inv w'"
proof -
  have "paths_inv v'" if "foldE (data_connnectDestroyed env) ks v = Inr v'" "paths_inv v" for ks v v'
    using that by (induction ks arbitrary: v) (auto simp: bindE_Inr_iff dest: paths_connnectDestroyed)
  then show ?thesis
    using assms by (simp add: delete_server_def)
qed

lemma paths_run_functor:
  assumes "paths_inv w" and "ftp_run_functor env f w = Inr w'"
  shows "paths_inv w'"
  using assms
  by (cases f) (auto simp: ftp_run_functor_def split: option.splits if_splits
      elim: paths_data_handleClose paths_sendChunkReady paths_requestNextChunk paths_delete_server)

lemma paths_data_up:
  assumes "paths_inv w" and "data_up env i w = Inr w'"
  shows "paths_inv w'"
proof -
  have "paths_inv (w\<lparr>conns := c, nconns := n\<rparr>)" for c n
    using assms(1) by (simp add: paths_inv_def)
  then show ?thesis
    using assms by (auto simp: data_up_def Let_def split: if_splits elim: paths_handleDataConnected[rotated])
qed

lemma paths_ftp_step:
  assumes "paths_inv w" and "ftp_step env e w = Inr w'"
  shows "paths_inv w'"
proof (cases e)
  case (Ev_line l)
  then show ?thesis using assms by (auto simp: ftp_step_def split: if_splits elim: paths_handleCommand)
next
  case (Ev_data_up i)
  then show ?thesis using assms by (auto simp: ftp_step_def elim: paths_data_up)
next
  case (Ev_data_down k)
  then show ?thesis
    using assms by (auto simp: ftp_step_def data_down_def split: option.splits if_splits elim: paths_data_handleClose)
next
  case (Ev_written k n)
  then show ?thesis
    using assms by (auto simp: ftp_step_def data_written_def Let_def split: option.splits)
next
  case Ev_functor
  then show ?thesis
    using assms by (auto simp: ftp_step_def split: list.splits elim: paths_run_functor[rotated])
qed (use assms in \<open>auto simp: ftp_step_def pasv_timeout_def Let_def split: if_splits\<close>)

section \<open>How a session may fail\<close>

lemma sendChunkReady_fail: "sendChunkReady gen chunk eof err w = Inl f \<Longrightarrow> f = Null_Deref"
  by (auto simp: sendChunkReady_def Let_def split: if_splits option.splits)

lemma requestNextChunk_fail: "requestNextChunk env w = Inl f \<Longrightarrow> f = Null_Deref"
  by (auto simp: requestNextChunk_def Let_def split: if_splits option.splits dest: sendChunkReady_fail)

lemma tryStartTransfer_fail: "tryStartTransfer env w = Inl f \<Longrightarrow> f = Null_Deref"
  by (auto simp: tryStartTransfer_def Let_def split: if_splits option.splits dest: requestNextChunk_fail)

lemma handleDataConnected_fail: "handleDataConnected env k w = Inl f \<Longrightarrow> f = Null_Deref"
  by (auto simp: handleDataConnected_def Let_def split: if_splits dest: tryStartTransfer_fail)

lemma handleCommand_fail: 
  assumes "handleCommand env line w = Inl f"
  shows "f = Null_Deref"
proof -
  have l: "cmdList env long w = Inl f \<Longrightarrow> f = Null_Deref" for long
    by (auto simp: cmdList_def Let_def requireLogin_def split: if_splits dest: tryStartTransfer_fail)
  have r: "cmdRetr env arg w = Inl f \<Longrightarrow> f = Null_Deref" for arg
    by (auto simp: cmdRetr_def Let_def requireLogin_def split: if_splits option.splits dest: tryStartTransfer_fail)
  show ?thesis
    using assms unfolding handleCommand_def Let_def prod.case_eq_if
    by (elim if_eqE) (erule notE[OF sum.distinct(2)] l r)+
qed

lemma handleCommand_fail_command:
  assumes "handleCommand env line w = Inl f"
  shows "fst (split_command line) \<in> {''LIST'', ''NLST'', ''RETR''}"
  using assms unfolding handleCommand_def Let_def prod.case_eq_if
  by (elim if_eqE) (erule notE[OF sum.distinct(2)] | erule ssubst, blast)+

lemma connnectDestroyed_fail: "data_connnectDestroyed env k w = Inl f \<Longrightarrow> f \<in> {Null_Deref, Assert_Failed}"
  by (auto simp: data_connnectDestroyed_def data_handleClose_def split: option.splits if_splits dest: handleDataConnected_fail)

lemma delete_server_fail: 
  assumes "delete_server env i w = Inl f"
  shows "f \<in> {Null_Deref, Assert_Failed}"
proof -
  have "f \<in> {Null_Deref, Assert_Failed}" if "foldE (data_connnectDestroyed env) ks v = Inl f" for ks v
    using that by (induction ks arbitrary: v) (auto simp: bindE_Inl_iff dest: connnectDestroyed_fail)
  then show ?thesis
    using assms by (simp add: delete_server_def)
qed

lemma run_functor_fail: "ftp_run_functor env g w = Inl f \<Longrightarrow> f \<in> {Null_Deref, Assert_Failed}"
  by (cases g) (auto simp: ftp_run_functor_def data_handleClose_def split: option.splits if_splits
      dest: sendChunkReady_fail requestNextChunk_fail delete_server_fail handleDataConnected_fail)

lemma ftp_step_fail: 
  assumes "ftp_step env e w = Inl f"
  shows "f \<in> {Null_Deref, Assert_Failed}"
proof (cases e)
  case (Ev_line l)
  then show ?thesis using assms by (auto simp: ftp_step_def split: if_splits dest: handleCommand_fail)
next
  case (Ev_data_up i)
  then show ?thesis using assms by (auto simp: ftp_step_def data_up_def Let_def split: if_splits dest: handleDataConnected_fail)
next
  case (Ev_data_down k)
  then show ?thesis
    using assms by (auto simp: ftp_step_def data_down_def data_handleClose_def split: option.splits if_splits
        dest: handleDataConnected_fail)
next
  case Ev_functor
  then show ?thesis
    using assms by (auto simp: ftp_step_def split: list.splits dest: run_functor_fail)
qed (use assms in \<open>auto simp: ftp_step_def Let_def split: if_splits\<close>)

interpretation ftp_machine: event_machine paths_inv "\<lambda>_. True" "{Null_Deref, Assert_Failed}" "ftp_step env" for env
  by unfold_locales (use paths_ftp_step ftp_step_fail in blast)+

abbreviation ftp_start :: ftp_world where
  "ftp_start \<equiv> session_start FtpSession_new"

lemma paths_start: "paths_inv ftp_start"
  by (simp add: session_start_def) (simp add: paths_inv_def FtpSession_new_def)

section \<open>Nothing happens before the login\<close>

fun commands :: "ftp_event list \<Rightarrow> string list" where
  "commands [] = []"
| "commands (Ev_line l # es) = fst (split_command l) # commands es"
| "commands (_ # es) = commands es"

definition pristine :: "ftp_world \<Rightarrow> bool" where
  "pristine w \<longleftrightarrow> fs_state w \<noteq> kLoggedIn \<and> dataServer w = None \<and> dataConn w = None \<and> xfer w = kNone \<and> conns w = Map.empty
     \<and> servers w = 0 \<and> alive w = [] \<and> timers w = [] \<and> disk w = [] \<and> functors w = [] \<and> paths w = []"

lemma pristine_reply [simp]: "pristine (reply t w) = pristine w" "fs_state (reply t w) = fs_state w"
  by (simp_all add: reply_def pristine_def)

lemma pristine_handleCommand_total:
  assumes "pristine w"
  shows "\<exists>w'. handleCommand env line w = Inr w'"
proof -
  have l: "cmdList env long w = Inl f \<Longrightarrow> False" and r: "cmdRetr env arg w = Inl f \<Longrightarrow> False" for long arg f
    using assms by (simp_all add: cmdList_def cmdRetr_def requireLogin_def pristine_def)
  have "handleCommand env line w = Inl f \<Longrightarrow> False" for f
    unfolding handleCommand_def Let_def prod.case_eq_if by (elim if_eqE) (erule notE[OF sum.distinct(2)] l r)+
  then show ?thesis
    by (cases "handleCommand env line w") blast+
qed

lemma pristine_handleCommand:
  assumes "pristine w" and "handleCommand env line w = Inr w'"
    and "fs_state w = kNeedPass \<longrightarrow> fst (split_command line) \<noteq> ''PASS''"
  shows "pristine w' \<and> (fst (split_command line) = ''USER'' \<or> fs_state w' = fs_state w)"
  using assms(2)
proof (cases rule: handleCommand_cases)
  case user
  then show ?thesis using assms(1) by (simp add: cmdUser_def) (simp add: pristine_def)
next
  case pass
  then have "fs_state w \<noteq> kNeedPass" using assms(3) by (simp only:) simp
  then have "w' = reply ''503 login with USER first'' w" using pass by (simp add: cmdPass_def)
  then show ?thesis using assms(1) by simp
next
  case (list long)
  then have "w' = reply ''530 please login with USER and PASS'' w"
    using assms(1) by (simp add: cmdList_def requireLogin_def pristine_def)
  then show ?thesis using assms(1) by simp
next
  case (retr arg)
  then have "w' = reply ''530 please login with USER and PASS'' w"
    using assms(1) by (simp add: cmdRetr_def requireLogin_def pristine_def)
  then show ?thesis using assms(1) by simp
next
  case pasv
  then have "w' = reply ''530 please login with USER and PASS'' w"
    using assms(1) by (simp add: cmdPasv_def requireLogin_def pristine_def)
  then show ?thesis using assms(1) by simp
next
  case quit
  then have "w' = reply ''221 bye'' w \<or> w' = (reply ''221 bye'' w)\<lparr>ctrl := KDisconnecting\<rparr>"
    by (simp add: cmdQuit_def Let_def)
  moreover have "pristine (v\<lparr>ctrl := c\<rparr>) = pristine v" for v c by (simp add: pristine_def)
  ultimately show ?thesis using assms(1) by auto
qed (use assms(1) in \<open>simp_all add: cmdSyst_def cmdPwd_def cmdType_def requireLogin_def Let_def\<close>)

lemma pristine_step:
  assumes "pristine w" and "fs_state w = kNeedPass \<longrightarrow> ''PASS'' \<notin> set (commands [e])"
  shows "\<exists>w'. ftp_step env e w = Inr w' \<and> pristine w' \<and> (''USER'' \<in> set (commands [e]) \<or> fs_state w' = fs_state w)"
proof (cases e)
  case (Ev_line l)
  obtain w' where w': "handleCommand env l w = Inr w'"
    using pristine_handleCommand_total[OF assms(1)] by blast
  have "fs_state w = kNeedPass \<longrightarrow> fst (split_command l) \<noteq> ''PASS''"
    using assms(2) Ev_line by (simp only: commands.simps) auto
  from pristine_handleCommand[OF assms(1) w' this] show ?thesis
    using w' Ev_line assms(1) by (auto simp: ftp_step_def simp del: pristine_reply)
qed (use assms in \<open>auto simp: ftp_step_def pristine_def data_up_def data_down_def data_written_def\<close>)

lemma pristine_no_pass:
  assumes "pristine w" and "''PASS'' \<notin> set (commands es)"
  shows "\<exists>w'. ftp_run env es w = Inr w' \<and> pristine w'"
  using assms
proof (induction es arbitrary: w)
  case (Cons e es)
  have c: "set (commands (e # es)) = set (commands [e]) \<union> set (commands es)"
    by (cases e) simp_all
  obtain w1 where "ftp_step env e w = Inr w1" "pristine w1"
    using pristine_step[of w e env] Cons.prems c by blast
  with Cons.IH[of w1] Cons.prems c show ?case by simp
qed simp

lemma pristine_no_login:
  assumes "pristine w" and "fs_state w = kNeedUser" and "\<not> subseq [''USER'', ''PASS''] (commands es)"
  shows "\<exists>w'. ftp_run env es w = Inr w' \<and> pristine w'"
  using assms
proof (induction es arbitrary: w)
  case (Cons e es)
  obtain w1 where w1: "ftp_step env e w = Inr w1" "pristine w1" "''USER'' \<in> set (commands [e]) \<or> fs_state w1 = fs_state w"
    using pristine_step[of w e env] Cons.prems(1,2) by auto
  show ?case
  proof (cases "''USER'' \<in> set (commands [e])")
    case True
    then have "commands (e # es) = ''USER'' # commands es"
      by (cases e) simp_all
    then have "''PASS'' \<notin> set (commands es)"
      using Cons.prems(3) by (simp add: subseq_singleton_left)
    from pristine_no_pass[OF w1(2) this] w1(1) show ?thesis by simp
  next
    case False
    have "subseq (commands es) (commands (e # es))"
      by (cases e) (simp_all add: list_emb_Cons)
    then have "\<not> subseq [''USER'', ''PASS''] (commands es)"
      using Cons.prems(3) subseq_order.order_trans by blast
    with Cons.IH[OF w1(2)] False w1 Cons.prems(2) show ?thesis by simp
  qed
qed simp

lemma pristine_start: "pristine ftp_start" "fs_state ftp_start = kNeedUser"
  by (simp_all add: session_start_def) (simp_all add: pristine_def FtpSession_new_def)

end
