(* ===== verification/Ftp_Download.thy ===== *)
theory Ftp_Download
  imports Ftp_Safety
begin

text \<open>
  A download seen as a relay of one move at a time: the stages of \<^verbatim>\<open>requestNextChunk\<close>, the disk task,
  \<^verbatim>\<open>sendChunkReady\<close> and the completed write, which every event that leaves the transfer alone keeps or advances.
\<close>

section \<open>A download\<close>

text \<open>
  The stages of a download that has sent the first \<open>n\<close> bytes: a read is with the pool, its
  result is queued, the chunk is sent and its write not complete, the completed write is
  queued; or all is sent and the connection shut down. At each stage one party holds the next move.
\<close>

datatype stage = Reading nat | Ready nat | Sent nat | Drained nat | Finished

fun stage_tasks :: "nat \<Rightarrow> int \<Rightarrow> stage \<Rightarrow> disk_task list" where
  "stage_tasks g fd (Reading n) = [Task_Pread g fd n]"
| "stage_tasks g fd _ = []"

fun stage_functors :: "nat \<Rightarrow> char list \<Rightarrow> stage \<Rightarrow> ftp_functor list" where
  "stage_functors g file (Ready n) =
     [Fn_ChunkReady g (take kReadChunkSize (drop n file)) (take kReadChunkSize (drop n file) = []) False]"
| "stage_functors g file (Drained n) = [Fn_WriteComplete]"
| "stage_functors g file _ = []"

fun stage_sent :: "char list \<Rightarrow> stage \<Rightarrow> char list" where
  "stage_sent file (Reading n) = take n file"
| "stage_sent file (Ready n) = take n file"
| "stage_sent file (Sent n) = take n file"
| "stage_sent file (Drained n) = take n file"
| "stage_sent file Finished = file"

fun stage_offset :: "stage \<Rightarrow> nat \<Rightarrow> bool" where
  "stage_offset (Reading n) m \<longleftrightarrow> m = n + kReadChunkSize"
| "stage_offset (Ready n) m \<longleftrightarrow> m = n + kReadChunkSize"
| "stage_offset (Sent n) m \<longleftrightarrow> m = n"
| "stage_offset (Drained n) m \<longleftrightarrow> m = n"
| "stage_offset Finished m \<longleftrightarrow> True"

fun task_gen :: "disk_task \<Rightarrow> nat" where
  "task_gen (Task_Pread g fd n) = g"
| "task_gen (Task_List g p names long) = g"

fun live_functor :: "nat \<Rightarrow> ftp_functor \<Rightarrow> bool" where
  "live_functor g (Fn_ChunkReady g' c e f) \<longleftrightarrow> g' = g"
| "live_functor g Fn_ForceCloseCtrl \<longleftrightarrow> False"
| "live_functor g _ \<longleftrightarrow> True"

fun stage_next :: "char list \<Rightarrow> stage \<Rightarrow> stage" where
  "stage_next file (Reading n) = Ready n"
| "stage_next file (Ready n) = (if drop n file = [] then Finished else Sent (n + kReadChunkSize))"
| "stage_next file (Sent n) = Drained n"
| "stage_next file (Drained n) = Reading n"
| "stage_next file Finished = Finished"

text \<open>The file does not change while it is read, a read is short only at its end, and the pool has room.\<close>

definition reads_file :: "ftp_env \<Rightarrow> int \<Rightarrow> char list \<Rightarrow> bool" where
  "reads_file env fd file \<longleftrightarrow>
     (\<forall>n m off. fe_pread env n fd m off = Inr (take m (drop off file))) \<and> (\<forall>n. fe_accepts env n)"

definition others_down :: "nat \<Rightarrow> ftp_world \<Rightarrow> bool" where
  "others_down k w \<longleftrightarrow> (\<forall>k' c. k' \<noteq> k \<longrightarrow> conns w k' = Some c \<longrightarrow> dc_state c = KDisconnected)"

definition stage_conn :: "char list \<Rightarrow> stage \<Rightarrow> dconn \<Rightarrow> bool" where
  "stage_conn file s c \<longleftrightarrow> dc_sent c = stage_sent file s \<and> dc_wc c
     \<and> dc_state c = (if s = Finished then KDisconnecting else KConnected)
     \<and> dc_owed c = (case s of Sent _ \<Rightarrow> 1 | _ \<Rightarrow> 0)"

definition at_stage :: "char list \<Rightarrow> int \<Rightarrow> nat \<Rightarrow> stage \<Rightarrow> ftp_world \<Rightarrow> bool" where
  "at_stage file fd k s w \<longleftrightarrow>
     xfer w = kRetr \<and> xferFd w = fd \<and> dataConn w = Some k \<and> xferDone w = (s = Finished) \<and> others_down k w
     \<and> stage_offset s (nextReadOffset w)
     \<and> (\<exists>c. conns w k = Some c \<and> stage_conn file s c)
     \<and> filter (\<lambda>t. task_gen t = xferGen w) (disk w) = stage_tasks (xferGen w) fd s
     \<and> filter (live_functor (xferGen w)) (functors w) = stage_functors (xferGen w) file s"

text \<open>The events that leave a transfer alone: none ends or replaces it, no other data connection comes up.\<close>

fun calm :: "nat \<Rightarrow> ftp_event \<Rightarrow> bool" where
  "calm k (Ev_line l) \<longleftrightarrow> fst (split_command l) \<notin> {''PASV'', ''LIST'', ''NLST'', ''RETR''}"
| "calm k (Ev_data_up i) \<longleftrightarrow> False"
| "calm k (Ev_data_down k') \<longleftrightarrow> k' \<noteq> k"
| "calm k _ \<longleftrightarrow> True"

lemma filter_singleton_nth:
  assumes "filter P xs = ys" and "i < length xs" and "length ys \<le> 1"
  shows "if P (xs ! i) then ys = [xs ! i] \<and> filter P (take i xs @ drop (Suc i) xs) = []
         else filter P (take i xs @ drop (Suc i) xs) = ys"
proof -
  have split: "filter P xs = filter P (take i xs) @ (if P (xs ! i) then [xs ! i] else []) @ filter P (drop (Suc i) xs)"
    using arg_cong[OF id_take_nth_drop[OF assms(2)], of "filter P"] by simp
  show ?thesis
    using split assms(1,3) by (cases "filter P (take i xs)"; cases "filter P (drop (Suc i) xs)") auto
qed

lemma stage_lengths: "length (stage_tasks g fd s) \<le> 1" "length (stage_functors g file s) \<le> 1"
  by (cases s; simp)+

lemma stage_disk_at:
  assumes "at_stage file fd k s w" and "reads_file env fd file" and "i < length (disk w)" and "t = disk w ! i"
    and "ftp_step env (Ev_disk i) w = Inr w'"
  shows "at_stage file fd k (if task_gen t = xferGen w then stage_next file s else s) w'"
proof -
  have w': "w' = w\<lparr>disk := take i (disk w) @ drop (Suc i) (disk w),
      functors := functors w @ [run_task env (Suc (f_calls w)) t], f_calls := Suc (f_calls w)\<rparr>"
    using assms(3-5) by (simp add: ftp_step_def)
  note f = filter_singleton_nth[OF _ assms(3) stage_lengths(1), of "\<lambda>t. task_gen t = xferGen w" "xferGen w" fd s, folded assms(4)]
  have tasks: "filter (\<lambda>t. task_gen t = xferGen w) (disk w) = stage_tasks (xferGen w) fd s"
    using assms(1) by (simp add: at_stage_def)
  show ?thesis
  proof (cases "task_gen t = xferGen w")
    case True
    then have st: "stage_tasks (xferGen w) fd s = [t]"
      "filter (\<lambda>t. task_gen t = xferGen w) (take i (disk w) @ drop (Suc i) (disk w)) = []"
      using f[OF tasks] by simp_all
    then obtain n where "s = Reading n" "t = Task_Pread (xferGen w) fd n"
      by (cases s) auto
    then show ?thesis
      using assms(1,2) st(2) by (auto simp: w' at_stage_def others_down_def run_task_def reads_file_def stage_conn_def)
  next
    case False
    then have "filter (\<lambda>t. task_gen t = xferGen w) (take i (disk w) @ drop (Suc i) (disk w)) = stage_tasks (xferGen w) fd s"
      using f[OF tasks] by simp
    moreover have "\<not> live_functor (xferGen w) (run_task env n t)" for n
      using False by (cases t) (auto simp: run_task_def split: sum.splits)
    ultimately show ?thesis
      using assms(1) False by (simp add: w' at_stage_def others_down_def)
  qed
qed

lemma stage_disk:
  assumes "at_stage file fd k s w" and "reads_file env fd file" and "ftp_step env (Ev_disk i) w = Inr w'"
  shows "at_stage file fd k s w' \<or> at_stage file fd k (stage_next file s) w'"
proof (cases "i < length (disk w)")
  case True
  then show ?thesis using stage_disk_at[OF assms(1,2) _ refl assms(3)] by (auto split: if_splits)
next
  case False
  then show ?thesis using assms by (simp add: ftp_step_def)
qed

lemma chunk_empty [simp]: "take kReadChunkSize xs = [] \<longleftrightarrow> xs = []" "0 < kReadChunkSize" "kReadChunkSize \<noteq> 0"
  by (simp_all add: kReadChunkSize_def)

lemma data_connected_functors [simp]: "data_connected (w\<lparr>functors := fs\<rparr>) = data_connected w"
  by (simp add: data_connected_def conn_connected_def split: option.split)

lemma connected_at_stage:
  assumes "at_stage file fd k s w"
  shows "data_connected w \<longleftrightarrow> s \<noteq> Finished"
  using assms by (auto simp: at_stage_def stage_conn_def data_connected_def conn_connected_def)

lemma stage_ready:
  assumes "at_stage file fd k (Ready n) w" and "v = w\<lparr>functors := fs\<rparr>" and "filter (live_functor (xferGen w)) fs = []"
    and "sendChunkReady (xferGen w) (take kReadChunkSize (drop n file)) (drop n file = []) False v = Inr w'"
  shows "at_stage file fd k (stage_next file (Ready n)) w'"
proof -
  obtain c where c: "conns w k = Some c" "stage_conn file (Ready n) c"
    using assms(1) by (auto simp: at_stage_def)
  have con: "data_connected v"
    using connected_at_stage[OF assms(1)] by (simp add: assms(2))
  have f: "xfer v = kRetr" "dataConn v = Some k" "xferGen v = xferGen w" "conns v = conns w"
    using assms(1,2) by (simp_all add: at_stage_def)
  show ?thesis
  proof (cases "drop n file = []")
    case True
    then have "w' = data_shutdown k (v\<lparr>xferDone := True\<rparr>)"
      using assms(4) f by (simp add: sendChunkReady_def)
    moreover have "take n file = file"
      using True by simp
    ultimately show ?thesis
      using assms(1,3) True c by (auto simp: assms(2) at_stage_def data_shutdown_def upd_conn_def stage_conn_def others_down_def)
  next
    case False
    then have "w' = data_send (take kReadChunkSize (drop n file)) k v"
      using assms(4) f con by (simp add: sendChunkReady_def)
    moreover have "take n file @ take kReadChunkSize (drop n file) = take (n + kReadChunkSize) file"
      by (simp add: take_add)
    ultimately show ?thesis
      using assms(1,3) False c by (auto simp: assms(2) at_stage_def data_send_def upd_conn_def stage_conn_def others_down_def)
  qed
qed

lemma stage_frame:
  assumes "at_stage file fd k s w"
  shows "at_stage file fd k s (reply t w)" "at_stage file fd k s (w\<lparr>fs_state := st\<rparr>)" "at_stage file fd k s (w\<lparr>ctrl := c\<rparr>)"
    "at_stage file fd k s (w\<lparr>timers := ts\<rparr>)"
  using assms by (simp_all add: at_stage_def reply_def others_down_def)

lemma stage_drop_functor:
  assumes "at_stage file fd k s w" and "filter (live_functor (xferGen w)) fs = filter (live_functor (xferGen w)) (functors w)"
  shows "at_stage file fd k s (w\<lparr>functors := fs\<rparr>)"
  using assms by (simp add: at_stage_def others_down_def)

lemma stage_functor_at:
  assumes "at_stage file fd k s w" and "reads_file env fd file" and Cons: "functors w = f # fs"
    and "ftp_step env Ev_functor w = Inr w'"
  shows "if live_functor (xferGen w) f then at_stage file fd k (stage_next file s) w' else at_stage file fd k s w' \<and> functors w' = fs"
proof -
  define v where "v = w\<lparr>functors := fs\<rparr>"
  have run: "ftp_run_functor env f v = Inr w'"
    using assms(4) Cons by (simp add: ftp_step_def v_def)
  have fl: "filter (live_functor (xferGen w)) (f # fs) = stage_functors (xferGen w) file s"
    using assms(1) Cons by (simp add: at_stage_def)
  show ?thesis
  proof (cases "live_functor (xferGen w) f")
    case True
    then have eq: "stage_functors (xferGen w) file s = f # filter (live_functor (xferGen w)) fs"
      using fl by simp
    then have sf2: "filter (live_functor (xferGen w)) fs = []"
      using stage_lengths(2)[of "xferGen w" "file" s] by (metis One_nat_def Suc_le_mono le_zero_eq length_0_conv length_Cons)
    then have sf: "stage_functors (xferGen w) file s = [f]"
      using eq by metis
    then consider n where "s = Ready n" | n where "s = Drained n"
      by (cases s) auto
    then show ?thesis
    proof cases
      case 1
      then show ?thesis
        using stage_ready[OF assms(1)[unfolded 1] v_def sf2] run sf True by (auto simp: ftp_run_functor_def)
    next
      case 2
      have "data_connected v"
        using connected_at_stage[OF assms(1)] 2 by (simp add: v_def)
      then show ?thesis
        using assms(1,2) run sf sf2 2 True
        by (auto simp: ftp_run_functor_def requestNextChunk_def Let_def v_def at_stage_def reads_file_def others_down_def stage_conn_def)
    qed
  next
    case False
    then have "w' = v \<or> w' = v\<lparr>ctrl := KDisconnected\<rparr>"
      using run by (cases f) (auto simp: ftp_run_functor_def sendChunkReady_def v_def)
    moreover have "at_stage file fd k s v"
      unfolding v_def by (rule stage_drop_functor[OF assms(1)]) (simp add: Cons False)
    ultimately show ?thesis
      using stage_frame(3)[of "file" fd k s v] False by (auto simp: v_def)
  qed
qed

lemma stage_functor:
  assumes "at_stage file fd k s w" and "reads_file env fd file" and "ftp_step env Ev_functor w = Inr w'"
  shows "at_stage file fd k s w' \<or> at_stage file fd k (stage_next file s) w'"
proof (cases "functors w")
  case (Cons f fs)
  then show ?thesis using stage_functor_at[OF assms(1,2) Cons assms(3)] by (auto split: if_splits)
qed (use assms in \<open>simp add: ftp_step_def\<close>)

lemma stage_written:
  assumes "at_stage file fd k s w"
  shows "at_stage file fd k s (data_written k' n w) \<or> at_stage file fd k (stage_next file s) (data_written k' n w)"
proof (cases "k' = k")
  case False
  then have "data_written k' n w = w"
    using assms by (auto simp: data_written_def at_stage_def others_down_def split: option.splits)
  then show ?thesis using assms by simp
next
  case True
  obtain c where c: "conns w k = Some c" "stage_conn file s c"
    using assms by (auto simp: at_stage_def)
  show ?thesis
  proof (cases "\<exists>m. s = Sent m")
    case s: True
    then show ?thesis
      using assms True c
      by (auto simp: data_written_def at_stage_def others_down_def upd_conn_def stage_conn_def Let_def)
  next
    case False
    then have "dc_owed c = 0"
      using c(2) by (cases s) (auto simp: stage_conn_def)
    then have "data_written k' n w = w"
      using True c(1) by (auto simp: data_written_def)
    then show ?thesis using assms by simp
  qed
qed

lemma stage_command:
  assumes "at_stage file fd k s w" and "calm k (Ev_line l)" and "handleCommand env l w = Inr w'"
  shows "at_stage file fd k s w'"
  using assms(3)
proof (cases rule: handleCommand_cases)
  case pasv
  then show ?thesis using assms(2) by simp
next
  case (list long)
  then show ?thesis using assms(2) by auto
next
  case (retr arg)
  then show ?thesis using assms(2) by simp
qed (use stage_frame[OF assms(1)] stage_frame[OF stage_frame(2)[OF assms(1)]] stage_frame[OF stage_frame(1)[OF assms(1)]] in
    \<open>simp_all add: cmdUser_def cmdPass_def cmdSyst_def cmdPwd_def cmdType_def cmdQuit_def requireLogin_def Let_def\<close>)

lemma stage_step:
  assumes "at_stage file fd k s w" and "reads_file env fd file" and "calm k e" and "ftp_step env e w = Inr w'"
  shows "\<exists>s'. at_stage file fd k s' w' \<and> s' \<in> {s, stage_next file s}"
proof (cases e)
  case (Ev_line l)
  then have "w' = w \<or> handleCommand env l w = Inr w'"
    using assms(4) by (simp add: ftp_step_def split: if_splits)
  then show ?thesis using assms(1,3) stage_command Ev_line by blast
next
  case Ev_ctrl_down
  then show ?thesis using assms stage_frame(3)[OF assms(1)] by (auto simp: ftp_step_def)
next
  case (Ev_data_down k')
  then have "k' \<noteq> k" using assms(3) by simp
  then have "data_down env k' w = Inr w"
    using assms(1) by (auto simp: data_down_def at_stage_def others_down_def split: option.splits)
  then show ?thesis using assms Ev_data_down by (auto simp: ftp_step_def)
next
  case (Ev_written k' n)
  then show ?thesis using stage_written[OF assms(1)] assms(4) by (auto simp: ftp_step_def)
next
  case (Ev_disk i)
  then show ?thesis using stage_disk[OF assms(1,2)] assms(4) by blast
next
  case Ev_functor
  then show ?thesis using stage_functor[OF assms(1,2)] assms(4) by blast
next
  case (Ev_timer t)
  have "xfer w = kRetr" using assms(1) by (simp add: at_stage_def)
  then have "w' = w \<or> w' = w\<lparr>timers := remove1 t (timers w)\<rparr>"
    using assms(4) Ev_timer by (auto simp: ftp_step_def pasv_timeout_def split: if_splits)
  then show ?thesis using assms(1) stage_frame(4)[OF assms(1)] by blast
qed (use assms in simp)

lemma stage_functor_total:
  assumes "at_stage file fd k s w" and "reads_file env fd file"
  shows "ftp_step env Ev_functor w \<noteq> Inl f"
proof (cases "functors w")
  case (Cons g gs)
  have w: "xfer w = kRetr" "dataConn w = Some k" "\<forall>n. fe_accepts env n"
    using assms by (simp_all add: at_stage_def reads_file_def)
  have "ftp_run_functor env g (w\<lparr>functors := gs\<rparr>) \<noteq> Inl f"
  proof (cases "live_functor (xferGen w) g")
    case True
    then have "g \<in> set (stage_functors (xferGen w) file s)"
      using assms(1) Cons by (auto simp: at_stage_def dest: sym)
    then show ?thesis
      using w by (cases s) (auto simp: ftp_run_functor_def sendChunkReady_def requestNextChunk_def Let_def)
  next
    case False
    then show ?thesis by (cases g) (auto simp: ftp_run_functor_def sendChunkReady_def)
  qed
  then show ?thesis using Cons by (simp add: ftp_step_def)
qed (simp add: ftp_step_def)

lemma stage_step_total:
  assumes "at_stage file fd k s w" and "reads_file env fd file" and "calm k e"
  shows "ftp_step env e w \<noteq> Inl f"
proof (cases e)
  case (Ev_line l)
  then have "fst (split_command l) \<notin> {''LIST'', ''NLST'', ''RETR''}"
    using assms(3) by simp
  then show ?thesis
    using handleCommand_fail_command Ev_line by (auto simp: ftp_step_def split: if_splits)
next
  case (Ev_data_down k')
  then have "k' \<noteq> k" using assms(3) by simp
  then have "data_down env k' w = Inr w"
    using assms(1) by (auto simp: data_down_def at_stage_def others_down_def split: option.splits)
  then show ?thesis using Ev_data_down by (simp add: ftp_step_def)
next
  case Ev_functor
  then show ?thesis using stage_functor_total[OF assms(1,2)] by simp
qed (use assms(3) in \<open>auto simp: ftp_step_def Let_def\<close>)

definition downloading :: "ftp_env \<Rightarrow> char list \<Rightarrow> int \<Rightarrow> nat \<Rightarrow> ftp_world \<Rightarrow> bool" where
  "downloading env file fd k w \<longleftrightarrow> reads_file env fd file \<and> (\<exists>s. at_stage file fd k s w)"

interpretation download: event_machine "downloading env file fd k" "calm k" "{}" "ftp_step env" for env "file" fd k
proof unfold_locales
  fix w e w'
  assume "downloading env file fd k w" "calm k e" "ftp_step env e w = Inr w'"
  then show "downloading env file fd k w'"
    using stage_step unfolding downloading_def by blast
next
  fix w e f
  assume "downloading env file fd k w" "calm k e" "ftp_step env e w = Inl f"
  then show "f \<in> {}"
    using stage_step_total unfolding downloading_def by blast
qed

text \<open>A session that is logged in and has its data connection, with nothing of its own under way; results of earlier transfers may still come in.\<close>

definition idle :: "nat \<Rightarrow> ftp_world \<Rightarrow> bool" where
  "idle k w \<longleftrightarrow> ctrl w \<noteq> KDisconnected \<and> fs_state w = kLoggedIn \<and> dataServer w \<noteq> None \<and> dataConn w = Some k \<and> others_down k w
     \<and> (case conns w k of None \<Rightarrow> False
        | Some c \<Rightarrow> dc_state c = KConnected \<and> dc_sent c = [] \<and> dc_owed c = 0 \<and> dc_wc c)
     \<and> filter (\<lambda>t. task_gen t = (xferGen w + 1) mod size_mod) (disk w) = []
     \<and> filter (live_functor ((xferGen w + 1) mod size_mod)) (functors w) = []"

text \<open>A path that names a regular file below the root, which opens as \<open>fd\<close>.\<close>

definition downloadable :: "ftp_env \<Rightarrow> string \<Rightarrow> int \<Rightarrow> bool" where
  "downloadable env name fd \<longleftrightarrow> name \<noteq> [] \<and> find_sub ''..'' name = None \<and> hd name \<noteq> CHR ''/''
     \<and> (case fe_stat env (c_str (kFtpRoot @ ''/'' @ name)) of None \<Rightarrow> False | Some st \<Rightarrow> S_ISREG (st_mode st))
     \<and> 0 \<le> fd \<and> (\<forall>n. fe_open env n (c_str (kFtpRoot @ ''/'' @ name)) = fd)"

lemma split_retr: "split_command (''RETR '' @ name) = (''RETR'', name)"
  by (simp add: split_command_def) (code_simp)

lemma handleCommand_retr: "handleCommand env (''RETR '' @ name) w = cmdRetr env name w"
  unfolding handleCommand_def split_retr Let_def prod.case by simp

lemma retr_starts:
  assumes "idle k w" and "downloadable env name fd" and "reads_file env fd file"
  shows "\<exists>w'. ftp_step env (Ev_line (''RETR '' @ name)) w = Inr w' \<and> at_stage file fd k (Reading 0) w'"
proof -
  obtain c where c: "conns w k = Some c" "dc_state c = KConnected" "dc_sent c = []" "dc_owed c = 0" "dc_wc c"
    using assms(1) by (auto simp: idle_def split: option.splits)
  obtain st where st: "fe_stat env (c_str (kFtpRoot @ ''/'' @ name)) = Some st" "S_ISREG (st_mode st)"
    using assms(2) by (auto simp: downloadable_def split: option.splits)
  have acc: "\<forall>n. fe_accepts env n" using assms(3) by (simp add: reads_file_def)
  show ?thesis
    using assms(1,2) c st acc
    by (auto simp: ftp_step_def handleCommand_retr cmdRetr_def requireLogin_def idle_def downloadable_def Let_def
        tryStartTransfer_def requestNextChunk_def reply_def cancel_pasv_def data_connected_def conn_connected_def
        at_stage_def others_down_def stage_conn_def simp del: append_Cons)
qed

end
