(* ===== verification/Ftp_Correctness.thy ===== *)
theory Ftp_Correctness
  imports Ftp_Download
begin

text \<open>
  The properties of the FTP session: downloads, confinement, the login, the command loop, and two defects.
\<close>

fun rank :: "char list \<Rightarrow> stage \<Rightarrow> nat" where
  "rank file (Sent n) = 4 * (length file - n) + 5"
| "rank file (Drained n) = 4 * (length file - n) + 4"
| "rank file (Reading n) = 4 * (length file - n) + 3"
| "rank file (Ready n) = 4 * (length file - n) + 2"
| "rank file Finished = 0"

lemma rank_next: "s \<noteq> Finished \<Longrightarrow> rank file (stage_next file s) < rank file s"
  by (cases s) (auto simp: kReadChunkSize_def)

text \<open>Somebody always has a move: it advances the download, or takes a stale result from the queue.\<close>

lemma stage_progress:
  assumes "at_stage file fd k s w" and "reads_file env fd file" and "s \<noteq> Finished"
  shows "\<exists>e w'. calm k e \<and> ftp_step env e w = Inr w'
    \<and> (at_stage file fd k (stage_next file s) w' \<or> at_stage file fd k s w' \<and> length (functors w') < length (functors w))"
proof -
  have total: "\<exists>w'. ftp_step env e w = Inr w'" if "calm k e" for e
    using stage_step_total[OF assms(1,2) that] by (cases "ftp_step env e w") auto
  have pop: ?thesis if ne: "functors w \<noteq> []"
  proof -
    obtain f fs where f: "functors w = f # fs" using ne by (cases "functors w") auto
    obtain w' where w': "ftp_step env Ev_functor w = Inr w'" using total[of Ev_functor] by auto
    from stage_functor_at[OF assms(1,2) f w'] have
      "at_stage file fd k (stage_next file s) w' \<or> at_stage file fd k s w' \<and> length (functors w') < length (functors w)"
      using f by (auto split: if_splits)
    then show ?thesis using w' by (intro exI[of _ Ev_functor] exI[of _ w']) simp
  qed
  show ?thesis
  proof (cases s)
    case (Reading n)
    then have "Task_Pread (xferGen w) fd n \<in> set (disk w)"
      using assms(1) by (auto simp: at_stage_def filter_eq_Cons_iff)
    then obtain i where i: "i < length (disk w)" "disk w ! i = Task_Pread (xferGen w) fd n"
      by (auto simp: in_set_conv_nth)
    obtain w' where w': "ftp_step env (Ev_disk i) w = Inr w'" using total[of "Ev_disk i"] by auto
    have "at_stage file fd k (stage_next file s) w'"
      using stage_disk_at[OF assms(1,2) i(1) i(2)[symmetric] w'] by simp
    then show ?thesis using w' by (intro exI[of _ "Ev_disk i"] exI[of _ w']) simp
  next
    case (Sent n)
    then obtain c where c: "conns w k = Some c" "stage_conn file s c" using assms(1) by (auto simp: at_stage_def)
    have "at_stage file fd k (stage_next file s) (data_written k 1 w)"
      using assms(1) c Sent
      by (auto simp: data_written_def at_stage_def others_down_def upd_conn_def stage_conn_def Let_def)
    then show ?thesis by (intro exI[of _ "Ev_written k 1"] exI[of _ "data_written k 1 w"]) (simp add: ftp_step_def)
  next
    case (Ready n)
    then have "functors w \<noteq> []" using assms(1) by (auto simp: at_stage_def)
    then show ?thesis by (rule pop)
  next
    case (Drained n)
    then have "functors w \<noteq> []" using assms(1) by (auto simp: at_stage_def)
    then show ?thesis by (rule pop)
  qed (use assms(3) in simp)
qed

lemma stage_completes:
  assumes "at_stage file fd k s w" and "reads_file env fd file"
  shows "\<exists>es w'. (\<forall>e \<in> set es. calm k e) \<and> ftp_run env es w = Inr w' \<and> at_stage file fd k Finished w'"
  using assms(1)
proof (induction "(rank file s, length (functors w))" arbitrary: s w rule: wf_induct_rule[OF wf_lex_prod[OF wf_less_than wf_less_than]])
  case less: 1
  show ?case
  proof (cases "s = Finished")
    case True
    then show ?thesis using less.prems by (intro exI[of _ "[]"]) simp
  next
    case False
    obtain e w1 where e: "calm k e" "ftp_step env e w = Inr w1"
      and next1: "at_stage file fd k (stage_next file s) w1 \<or> at_stage file fd k s w1 \<and> length (functors w1) < length (functors w)"
      using stage_progress[OF less.prems assms(2) False] by blast
    obtain es w' where es: "\<forall>e \<in> set es. calm k e" "ftp_run env es w1 = Inr w'" "at_stage file fd k Finished w'"
      using next1
    proof
      assume a: "at_stage file fd k (stage_next file s) w1"
      show thesis
        using less.hyps[OF _ a] rank_next[OF False, of "file"] that by auto
    next
      assume a: "at_stage file fd k s w1 \<and> length (functors w1) < length (functors w)"
      then show thesis
        using less.hyps[of s w1] that by auto
    qed
    then show ?thesis using e by (intro exI[of _ "e # es"] exI[of _ w']) simp
  qed
qed

lemma at_stage_sent:
  assumes "at_stage file fd k s w"
  shows "\<exists>c. conns w k = Some c \<and> prefix (dc_sent c) file
    \<and> (if xferDone w then dc_sent c = file \<and> dc_state c = KDisconnecting else dc_state c = KConnected)"
  using assms by (cases s) (auto simp: at_stage_def stage_conn_def take_is_prefix)

text \<open>
  C4: A download delivers the file and nothing else. Let a session be logged in with its data
  connection up, and let \<^verbatim>\<open>RETR\<close> name a regular file below the root whose reads are short only at
  the end. Whatever follows that does not end the transfer (disk results in any
  order, late results of earlier transfers, drained buffers, other commands, timers, the end of the control
  connection), nothing fails, the bytes given to the data connection are a prefix of the file in order,
  and once the session takes the transfer for done they are the file and the connection is shutting down.
\<close>
theorem download_delivers_the_file:
  assumes "idle k w" and "downloadable env name fd" and "reads_file env fd file" and "\<forall>e \<in> set es. calm k e"
  shows "\<exists>w' c. ftp_run env (Ev_line (''RETR '' @ name) # es) w = Inr w' \<and> conns w' k = Some c \<and> prefix (dc_sent c) file
    \<and> (if xferDone w' then dc_sent c = file \<and> dc_state c = KDisconnecting else dc_state c = KConnected)"
proof -
  obtain w1 where w1: "ftp_step env (Ev_line (''RETR '' @ name)) w = Inr w1" "at_stage file fd k (Reading 0) w1"
    using retr_starts[OF assms(1-3)] by blast
  then have "downloading env file fd k w1" using assms(3) by (auto simp: downloading_def)
  from download.run_total[OF this assms(4)] obtain w' where "ftp_run env es w1 = Inr w'" "downloading env file fd k w'"
    by auto
  then show ?thesis
    using w1(1) at_stage_sent unfolding downloading_def foldE.simps by fastforce
qed

text \<open>
  C15: A download always gets to its end: from whatever point it has reached, a finite number of further
  moves, each enabled in its turn, brings the whole file to the data connection and shuts it down.
\<close>
theorem download_completes:
  assumes "idle k w" and "downloadable env name fd" and "reads_file env fd file" and "\<forall>e \<in> set es. calm k e"
  shows "\<exists>es' w' c. (\<forall>e \<in> set es'. calm k e) \<and> ftp_run env (Ev_line (''RETR '' @ name) # es @ es') w = Inr w'
    \<and> xferDone w' \<and> conns w' k = Some c \<and> dc_sent c = file"
proof -
  obtain w1 where w1: "ftp_step env (Ev_line (''RETR '' @ name)) w = Inr w1" "at_stage file fd k (Reading 0) w1"
    using retr_starts[OF assms(1-3)] by blast
  then have "downloading env file fd k w1" using assms(3) by (auto simp: downloading_def)
  from download.run_total[OF this assms(4)] obtain w2 s where w2: "ftp_run env es w1 = Inr w2" "at_stage file fd k s w2"
    unfolding downloading_def by auto
  obtain es' w' where es': "\<forall>e \<in> set es'. calm k e" "ftp_run env es' w2 = Inr w'" "at_stage file fd k Finished w'"
    using stage_completes[OF w2(2) assms(3)] by blast
  have "xferDone w'" using es'(3) by (simp add: at_stage_def)
  moreover obtain c where "conns w' k = Some c" "dc_sent c = file"
    using at_stage_sent[OF es'(3)] \<open>xferDone w'\<close> by auto
  moreover have "ftp_run env (Ev_line (''RETR '' @ name) # es @ es') w = Inr w'"
    using w1(1) w2(1) es'(2) by (simp only: foldE.simps bindE.simps foldE_append)
  ultimately show ?thesis using es'(1) by blast
qed

text \<open>A small file system with one file, and a session that is ready to serve it.\<close>

definition demo_env :: ftp_env where
  "demo_env =
     \<lparr>fe_open = \<lambda>_ _. 3, fe_opendir = \<lambda>_ _. Some [''.'', ''..'', ''a''],
      fe_stat = \<lambda>p. Some \<lparr>st_mode = 0x81A4, st_nlink = 1, st_uid = 0, st_gid = 0, st_size = 2, st_time = ''Jan 01 00:00''\<rparr>,
      fe_pread = \<lambda>_ _ m off. Inr (take m (drop off ''hi'')), fe_accepts = \<lambda>_. True,
      fe_ip = 0x0100007F, fe_port = \<lambda>_. 0x901F\<rparr>"

definition demo_ready :: ftp_world where
  "demo_ready = FtpSession_new
     \<lparr>fs_state := kLoggedIn, dataServer := Some 0, dataConn := Some 0,
      conns := [0 \<mapsto> \<lparr>dc_server = 0, dc_state = KConnected, dc_sent = [], dc_owed = 0, dc_wc = True\<rparr>],
      nconns := 1, servers := 1, alive := [0]\<rparr>"

lemma demo_idle: "idle 0 demo_ready"
  by (simp add: idle_def demo_ready_def FtpSession_new_def others_down_def)

lemma demo_downloadable: "downloadable demo_env ''a'' 3"
  by (simp add: downloadable_def demo_env_def S_ISREG_def S_IFMT_def S_IFREG_def)

lemma demo_reads: "reads_file demo_env 3 ''hi''"
  by (simp add: reads_file_def demo_env_def)

theorem download_delivers_the_file_witness:
  "\<exists>w' c. ftp_run demo_env [Ev_line (''RETR '' @ ''a''), Ev_disk 0, Ev_functor, Ev_line ''PWD'', Ev_written 0 1] demo_ready = Inr w'
    \<and> conns w' 0 = Some c \<and> prefix (dc_sent c) ''hi''"
  using download_delivers_the_file[OF demo_idle demo_downloadable demo_reads,
      of "[Ev_disk 0, Ev_functor, Ev_line ''PWD'', Ev_written 0 1]"]
  by (simp add: split_command_def to_upper_ascii_def del: foldE.simps) blast

theorem download_completes_witness:
  "\<exists>es' w' c. ftp_run demo_env (Ev_line (''RETR '' @ ''a'') # [Ev_disk 0] @ es') demo_ready = Inr w'
    \<and> xferDone w' \<and> conns w' 0 = Some c \<and> dc_sent c = ''hi''"
  using download_completes[OF demo_idle demo_downloadable demo_reads, of "[Ev_disk 0]"]
  by (simp del: foldE.simps append_Cons) blast



text \<open>
  C23: Nothing happens for a client that has not logged in. As long as no \<^verbatim>\<open>PASS\<close> follows a \<^verbatim>\<open>USER\<close>, whatever else
  the client sends and whatever happens around the session, it opens no listening socket, gives no path to
  the system and no work to the pool, starts no transfer, and cannot be made to fail.
\<close>
theorem ftp_login_required:
  assumes "\<not> subseq [''USER'', ''PASS''] (commands es)"
  shows "\<exists>w. ftp_run env es ftp_start = Inr w \<and> paths w = [] \<and> servers w = 0 \<and> alive w = [] \<and> disk w = [] \<and> xfer w = kNone"
  using pristine_no_login[OF pristine_start assms] by (auto simp: pristine_def)

theorem ftp_login_required_witness:
  "\<not> subseq [''USER'', ''PASS''] (commands [Ev_line ''PASS x'', Ev_line ''PASV'', Ev_line ''user me'', Ev_line ''RETR a''])
   \<and> (\<exists>w. ftp_run demo_env [Ev_line ''PASS x'', Ev_line ''PASV'', Ev_line ''user me'', Ev_line ''RETR a''] ftp_start = Inr w
     \<and> paths w = [] \<and> servers w = 0)"
proof -
  have n: "\<not> subseq [''USER'', ''PASS''] (commands [Ev_line ''PASS x'', Ev_line ''PASV'', Ev_line ''user me'', Ev_line ''RETR a''])"
    by (simp add: split_command_def to_upper_ascii_def)
  then show ?thesis using ftp_login_required[OF n] by blast
qed

section \<open>Lines\<close>

lemma find_CRLF_bound: "find_sub KCRLF s = Some k \<Longrightarrow> k + 2 \<le> length s"
  using find_sub_SomeD[of KCRLF s k] occurs_at_bound[of KCRLF s k] by (simp add: KCRLF_def)

text \<open>What a stream of bytes holds: the lines that are complete, and the rest.\<close>

function crlf_lines :: "char list \<Rightarrow> string list \<times> char list" where
  "crlf_lines s =
     (case find_sub KCRLF s of
        None \<Rightarrow> ([], s)
      | Some k \<Rightarrow> (case crlf_lines (drop (k + 2) s) of (ls, r) \<Rightarrow> (take k s # ls, r)))"
  by pat_completeness auto
termination
  by (relation "measure length") (auto dest: find_CRLF_bound)

declare crlf_lines.simps [simp del] onMessage.simps [simp del]

lemma find_sub_append: "find_sub pat s = Some k \<Longrightarrow> find_sub pat (s @ t) = Some k"
proof (induction pat s arbitrary: k rule: find_sub.induct)
  case (1 pat)
  then show ?case by (cases t) (auto split: if_splits)
next
  case (2 pat x xs)
  show ?case
  proof (cases "take (length pat) (x # xs) = pat")
    case True
    then have "length pat \<le> length (x # xs)" by (metis length_take min.cobounded1)
    then have "take (length pat) (x # xs @ t) = pat"
      using True take_append[of "length pat" "x # xs" t] by simp
    then show ?thesis using 2 True by simp
  next
    case False
    then obtain j where j: "find_sub pat xs = Some j" "k = Suc j" using 2(2) by (auto simp del: take_Suc_Cons)
    from find_sub_SomeD[OF j(1)] have "occurs_at pat xs j" by blast
    then have "length pat \<le> length xs" using occurs_at_bound by fastforce
    then have "take (length pat) (x # xs @ t) = take (length pat) (x # xs)"
      using take_append[of "length pat" "x # xs" t] by simp
    then show ?thesis using 2(1)[OF False j(1)] j(2) False by simp
  qed
qed

lemma crlf_lines_append:
  "crlf_lines (s @ t) = (case crlf_lines s of (ls, r) \<Rightarrow> case crlf_lines (r @ t) of (ls', r') \<Rightarrow> (ls @ ls', r'))"
proof (induction s rule: crlf_lines.induct)
  case (1 s)
  show ?case
  proof (cases "find_sub KCRLF s")
    case None
    then have "crlf_lines s = ([], s)" by (simp add: crlf_lines.simps[of s])
    then show ?thesis by (simp add: split_beta)
  next
    case (Some k)
    have k: "k + 2 \<le> length s" using find_CRLF_bound[OF Some] .
    have "crlf_lines (s @ t) = (case crlf_lines (drop (k + 2) s @ t) of (ls, r) \<Rightarrow> (take k s # ls, r))"
      using k by (simp add: crlf_lines.simps[of "s @ t"] find_sub_append[OF Some])
    moreover have "crlf_lines s = (case crlf_lines (drop (k + 2) s) of (ls, r) \<Rightarrow> (take k s # ls, r))"
      using Some by (simp add: crlf_lines.simps[of s])
    ultimately show ?thesis using 1[OF Some] by (simp add: split_beta)
  qed
qed

lemma onMessage_lines:
  assumes "buf_inv b"
  shows "\<exists>b'. buf_inv b' \<and> contents b' = snd (crlf_lines (contents b))
    \<and> onMessage env b w = bindE (foldE (handleCommand env) (fst (crlf_lines (contents b))) w)
        (\<lambda>w'. Inr (b', if 4096 < length (contents b') then ctrl_forceClose w' else w'))"
  using assms
proof (induction "length (contents b)" arbitrary: b w rule: less_induct)
  case less
  show ?case
  proof (cases "find_sub KCRLF (contents b)")
    case None
    then show ?thesis
      using less.prems findCRLF_contents[OF less.prems]
      by (intro exI[of _ b]) (auto simp: onMessage.simps[of env b] crlf_lines.simps[of "contents b"] readableBytes_contents)
  next
    case (Some k)
    have k: "k + 2 \<le> length (contents b)" using find_CRLF_bound[OF Some] .
    have "readerIndex b + (k + 2) \<le> writeIndex b" "writeIndex b \<le> length (buf_vec b)"
      using k less.prems by (simp_all add: buf_inv_def)
    obtain b1 where b1: "retrieveUntil (readerIndex b + k + 2) b = Inr b1" "buf_inv b1" "contents b1 = drop (k + 2) (contents b)"
      using retrieveUntil_ok[OF less.prems, of "readerIndex b + k + 2"] \<open>readerIndex b + (k + 2) \<le> writeIndex b\<close> by auto
    have line: "read_at (peek b) (readerIndex b + k - peek b) (buf_vec b) = Inr (take k (contents b))"
      using \<open>readerIndex b + (k + 2) \<le> writeIndex b\<close> \<open>writeIndex b \<le> length (buf_vec b)\<close>
      by (simp add: read_at_def peek_def contents_def slice_def)
    have "0 < readableBytes b" using k readableBytes_contents[OF less.prems] by linarith
    then have on: "onMessage env b w = bindE (handleCommand env (take k (contents b)) w) (onMessage env b1)"
      using findCRLF_contents[OF less.prems] Some line b1(1)
      by (simp add: onMessage.simps[of env b])
    have lt: "length (contents b1) < length (contents b)" using b1(3) k by simp
    have lines: "crlf_lines (contents b) = (take k (contents b) # fst (crlf_lines (contents b1)), snd (crlf_lines (contents b1)))"
      using Some b1(3) by (simp add: crlf_lines.simps[of "contents b"] split_beta)
    show ?thesis
    proof (cases "handleCommand env (take k (contents b)) w")
      case (Inl f)
      then show ?thesis using less.hyps[OF lt b1(2), of w] on lines by auto
    next
      case (Inr w1)
      then show ?thesis using less.hyps[OF lt b1(2), of w1] on lines by auto
    qed
  qed
qed

text \<open>
  C24: The command loop ends on every input, and what it handles does not depend on how the bytes were cut into
  segments. On a well-formed buffer it hands over each complete line once and in order, stops where a command
  fails, keeps the unfinished rest in the buffer and closes the connection when that is longer than 4096 bytes;
  and the lines of a stream are those of its first part followed by those of the kept rest with the second part.
\<close>
theorem onMessage_handles_lines:
  assumes "buf_inv b"
  shows "\<exists>b'. buf_inv b' \<and> contents b' = snd (crlf_lines (contents b))
    \<and> onMessage env b w = bindE (foldE (handleCommand env) (fst (crlf_lines (contents b))) w)
        (\<lambda>w'. Inr (b', if 4096 < length (contents b') then ctrl_forceClose w' else w'))
    \<and> crlf_lines (contents b @ t)
        = (fst (crlf_lines (contents b)) @ fst (crlf_lines (contents b' @ t)), snd (crlf_lines (contents b' @ t)))"
proof -
  obtain b' where "buf_inv b'" "contents b' = snd (crlf_lines (contents b))"
    "onMessage env b w = bindE (foldE (handleCommand env) (fst (crlf_lines (contents b))) w)
        (\<lambda>w'. Inr (b', if 4096 < length (contents b') then ctrl_forceClose w' else w'))"
    using onMessage_lines[OF assms, of env w] by blast
  then show ?thesis
    using crlf_lines_append[of "contents b" t] by (intro exI[of _ b']) (simp add: split_beta)
qed

definition demo_buffer :: buffer where
  "demo_buffer = \<lparr>buf_vec = replicate 8 (CHR 0x00) @ ''NOOP'' @ kCRLF @ ''US'', readerIndex = 8, writeIndex = 16\<rparr>"

lemma demo_buffer_inv: "buf_inv demo_buffer"
  by (simp add: buf_inv_def demo_buffer_def kCRLF_def kCheapprepend_def max_alloc_def)

theorem onMessage_handles_lines_witness:
  "\<exists>b'. buf_inv b' \<and> contents b' = snd (crlf_lines (contents demo_buffer))
    \<and> onMessage demo_env demo_buffer demo_ready
      = bindE (foldE (handleCommand demo_env) (fst (crlf_lines (contents demo_buffer))) demo_ready)
        (\<lambda>w'. Inr (b', if 4096 < length (contents b') then ctrl_forceClose w' else w'))"
  using onMessage_handles_lines[OF demo_buffer_inv] by blast

section \<open>Two ways a transfer goes wrong\<close>

lemma handleCommand_pasv: "handleCommand env ''PASV'' w = Inr (cmdPasv env w)"
proof -
  have "split_command ''PASV'' = (''PASV'', [])"
    by (simp add: split_command_def to_upper_ascii_def)
  then show ?thesis unfolding handleCommand_def Let_def by simp
qed

lemma destroy_closing:
  assumes "others_down k w" and "conns w k = Some c" and "dc_state c = KDisconnecting" and "k \<in> set ks"
  shows "foldE (data_connnectDestroyed env) ks w = Inl Assert_Failed"
  using assms(4)
proof (induction ks)
  case (Cons j ks)
  show ?case
  proof (cases "j = k")
    case True
    then show ?thesis using assms(2,3) by (simp add: data_connnectDestroyed_def)
  next
    case False
    then have "data_connnectDestroyed env j w = Inr w"
      using assms(1) by (auto simp: data_connnectDestroyed_def others_down_def split: option.splits)
    then show ?thesis using Cons False by simp
  qed
qed simp

text \<open>
  C32: A client can end the server. While the data connection is shutting down (a transfer has been sent and the peer
  has not closed yet), a further \<^verbatim>\<open>PASV\<close> deletes the data server, which destroys that connection in the state in
  which its channel is still registered: the assertion of \<^verbatim>\<open>Channel::remove\<close> fails and the process aborts.
\<close>
theorem pasv_while_closing_aborts:
  assumes "ctrl w \<noteq> KDisconnected" and "fs_state w = kLoggedIn" and "dataServer w = Some i" and "functors w = []"
    and "conns w k = Some c" and "dc_server c = i" and "dc_state c = KDisconnecting" and "k < nconns w" and "others_down k w"
  shows "ftp_run env [Ev_line ''PASV'', Ev_functor] w = Inl Assert_Failed"
proof -
  define v where "v = cmdPasv env w"
  have v: "functors v = [Fn_DeleteServer i]" "conns v = conns w" "nconns v = nconns w"
    using assms(2-4) by (simp_all add: v_def cmdPasv_def requireLogin_def closeDataServer_def reply_def Let_def)
  have "k \<in> set (server_conns i (v\<lparr>functors := []\<rparr>))"
    using assms(5,6,8) v by (simp add: server_conns_def)
  moreover have "others_down k (v\<lparr>functors := [], alive := a\<rparr>)" for a
    using assms(9) v by (simp add: others_down_def)
  ultimately have "delete_server env i (v\<lparr>functors := []\<rparr>) = Inl Assert_Failed"
    unfolding delete_server_def using assms(5,7) v by (intro destroy_closing) simp_all
  then show ?thesis
    using assms(1) v(1) by (simp add: ftp_step_def handleCommand_pasv v_def[symmetric] ftp_run_functor_def)
qed

definition demo_closing :: ftp_world where
  "demo_closing = data_shutdown 0 (demo_ready\<lparr>xfer := kRetr, xferDone := True\<rparr>)"

theorem pasv_while_closing_aborts_witness:
  "ftp_run demo_env [Ev_line ''PASV'', Ev_functor] demo_closing = Inl Assert_Failed"
  by (rule pasv_while_closing_aborts[where i = 0 and k = 0 and c = "the (conns demo_closing 0)"])
    (simp_all add: demo_closing_def data_shutdown_def upd_conn_def demo_ready_def FtpSession_new_def others_down_def)

lemma abort_facts:
  "xfer (abortTransfer w) = kNone" "xferGen (abortTransfer w) = (xferGen w + 1) mod size_mod"
  "ctrl (abortTransfer w) = ctrl w" "replies (abortTransfer w) = replies w"
  "xfer (reply t w) = xfer w" "xferGen (reply t w) = xferGen w"
  "replies (reply t w) = (if ctrl w = KConnected then replies w @ [t @ kCRLF] else replies w)"
  by (simp_all add: abortTransfer_def Let_def upd_conn_def reply_def split: option.split)

text \<open>
  C33: A second connection to the passive port is turned away, and takes the running transfer with it: its end runs the same
  callback as the end of the transfer's own connection, which aborts the transfer and reports 426.
\<close>
theorem second_connection_aborts_transfer:
  assumes "xfer w \<noteq> kNone" and "\<not> xferDone w" and "dataConn w = Some k" and "k < nconns w" and "i \<in> set (alive w)" and "functors w = []"
  shows "\<exists>w'. ftp_run env [Ev_data_up i, Ev_functor] w = Inr w' \<and> xfer w' = kNone \<and> xferGen w' = (xferGen w + 1) mod size_mod
    \<and> (ctrl w = KConnected \<longrightarrow> replies w' = replies w @ [''426 connection closed; transfer aborted'' @ kCRLF])"
proof -
  define j where "j = nconns w"
  define v where "v = w\<lparr>conns := (conns w)(j \<mapsto> \<lparr>dc_server = i, dc_state = KDisconnecting, dc_sent = [], dc_owed = 0, dc_wc = False\<rparr>),
    nconns := Suc j, functors := [Fn_ForceClose j]\<rparr>"
  have "ftp_step env (Ev_data_up i) w = Inr v"
    using assms(3,5,6) by (simp add: ftp_step_def data_up_def handleDataConnected_def conn_connected_def data_forceClose_def upd_conn_def
        v_def j_def Let_def)
  moreover have "ftp_step env Ev_functor v = Inr (ftp_queue Fn_CloseDataServer (reply ''426 connection closed; transfer aborted''
      (abortTransfer (upd_conn j (\<lambda>c. c\<lparr>dc_state := KDisconnected\<rparr>) (v\<lparr>functors := []\<rparr>)))))"
    using assms(1,2)
    by (simp add: v_def ftp_step_def ftp_run_functor_def data_handleClose_def handleDataConnected_def conn_connected_def upd_conn_def Let_def)
  ultimately show ?thesis
    by (simp add: abort_facts v_def upd_conn_def)
qed

theorem second_connection_aborts_transfer_witness:
  "\<exists>w'. ftp_run demo_env [Ev_data_up 0, Ev_functor] (demo_ready\<lparr>xfer := kRetr\<rparr>) = Inr w' \<and> xfer w' = kNone"
proof -
  have "xfer (demo_ready\<lparr>xfer := kRetr\<rparr>) \<noteq> kNone" "\<not> xferDone (demo_ready\<lparr>xfer := kRetr\<rparr>)" "dataConn (demo_ready\<lparr>xfer := kRetr\<rparr>) = Some 0"
    "0 < nconns (demo_ready\<lparr>xfer := kRetr\<rparr>)" "0 \<in> set (alive (demo_ready\<lparr>xfer := kRetr\<rparr>))" "functors (demo_ready\<lparr>xfer := kRetr\<rparr>) = []"
    by (simp_all add: demo_ready_def FtpSession_new_def)
  from second_connection_aborts_transfer[OF this] show ?thesis by blast
qed

end
