(* ===== verification/Blocking_Queues.thy ===== *)
theory Blocking_Queues
  imports Interfaces
begin

text \<open>
  The queues and the latch of \<^verbatim>\<open>deps/common/base\<close>, with the threads that use them. A critical section is one step;
  a thread that waits on a condition variable is counted as waiting, and as woken between
  its notification (or a spurious wake-up) and the moment it has the mutex again. A notification that the code sends after
  it has released the mutex is a step of its own.
\<close>

section \<open>The unbounded queue\<close>

record 'a blocking_queue =
  bq_q :: "'a list"
  bq_done :: bool

definition put :: "'a \<Rightarrow> ('a, 'b) blocking_queue_scheme \<Rightarrow> ('a, 'b) blocking_queue_scheme" where
  "put value q = q\<lparr>bq_q := bq_q q @ [value]\<rparr>"

definition take_ready :: "('a, 'b) blocking_queue_scheme \<Rightarrow> bool" where
  "take_ready q \<longleftrightarrow> bq_q q \<noteq> [] \<or> bq_done q"

text \<open>What \<^verbatim>\<open>take()\<close> does once its wait is over; \<open>None\<close> is the exception \<^verbatim>\<open>queue is closed\<close>.\<close>

definition take_locked :: "('a, 'b) blocking_queue_scheme \<Rightarrow> 'a option \<times> ('a, 'b) blocking_queue_scheme" where
  "take_locked q = (if bq_done q \<and> bq_q q = [] then (None, q) else (Some (hd (bq_q q)), q\<lparr>bq_q := tl (bq_q q)\<rparr>))"

definition try_take :: "('a, 'b) blocking_queue_scheme \<Rightarrow> 'a option \<times> ('a, 'b) blocking_queue_scheme" where
  "try_take q = (if bq_q q = [] then (None, q) else (Some (hd (bq_q q)), q\<lparr>bq_q := tl (bq_q q)\<rparr>))"

definition shutdown_queue :: "('a, 'b) blocking_queue_scheme \<Rightarrow> ('a, 'b) blocking_queue_scheme" where
  "shutdown_queue q = q\<lparr>bq_done := True\<rparr>"

definition queue_size :: "('a, 'b) blocking_queue_scheme \<Rightarrow> nat" where
  "queue_size q = length (bq_q q)"

definition queue_empty :: "('a, 'b) blocking_queue_scheme \<Rightarrow> bool" where
  "queue_empty q \<longleftrightarrow> bq_q q = []"

record 'a bq_sys = "'a blocking_queue" +
  bq_waiting :: nat
  bq_woken :: nat
  bq_notifies :: nat
  bq_broadcasts :: nat
  bq_put :: "'a list"
  bq_taken :: "'a list"
  bq_closed :: nat

definition bq_start :: "'a bq_sys" where
  "bq_start = \<lparr>bq_q = [], bq_done = False, bq_waiting = 0, bq_woken = 0, bq_notifies = 0, bq_broadcasts = 0,
     bq_put = [], bq_taken = [], bq_closed = 0\<rparr>"

datatype 'a bq_event = BQ_put 'a | BQ_notify | BQ_take | BQ_resume | BQ_wake | BQ_try_take | BQ_shutdown | BQ_broadcast

definition bq_finish :: "'a option \<times> 'a bq_sys \<Rightarrow> 'a bq_sys" where
  "bq_finish r =
     (case r of
        (Some v, s) \<Rightarrow> s\<lparr>bq_taken := bq_taken s @ [v]\<rparr>
      | (None, s) \<Rightarrow> s\<lparr>bq_closed := Suc (bq_closed s)\<rparr>)"

text \<open>A thread in \<^verbatim>\<open>take()\<close> that holds the mutex: it goes on when the condition holds, and waits otherwise.\<close>

definition bq_attempt :: "'a bq_sys \<Rightarrow> 'a bq_sys" where
  "bq_attempt s = (if take_ready s then bq_finish (take_locked s) else s\<lparr>bq_waiting := Suc (bq_waiting s)\<rparr>)"

definition bq_step :: "'a bq_event \<Rightarrow> 'a bq_sys \<Rightarrow> 'a bq_sys res" where
  "bq_step e s =
     Inr (case e of
        BQ_put v \<Rightarrow> (put v s)\<lparr>bq_notifies := Suc (bq_notifies s), bq_put := bq_put s @ [v]\<rparr>
      | BQ_notify \<Rightarrow>
          if bq_notifies s = 0 then s
          else let s = s\<lparr>bq_notifies := bq_notifies s - 1\<rparr>
               in if bq_waiting s = 0 then s
                  else s\<lparr>bq_waiting := bq_waiting s - 1, bq_woken := Suc (bq_woken s)\<rparr>
      | BQ_take \<Rightarrow> bq_attempt s
      | BQ_resume \<Rightarrow> if bq_woken s = 0 then s else bq_attempt (s\<lparr>bq_woken := bq_woken s - 1\<rparr>)
      | BQ_wake \<Rightarrow>
          if bq_waiting s = 0 then s else s\<lparr>bq_waiting := bq_waiting s - 1, bq_woken := Suc (bq_woken s)\<rparr>
      | BQ_try_take \<Rightarrow> (case try_take s of (Some v, s) \<Rightarrow> s\<lparr>bq_taken := bq_taken s @ [v]\<rparr> | (None, s) \<Rightarrow> s)
      | BQ_shutdown \<Rightarrow> (shutdown_queue s)\<lparr>bq_broadcasts := Suc (bq_broadcasts s)\<rparr>
      | BQ_broadcast \<Rightarrow>
          if bq_broadcasts s = 0 then s
          else s\<lparr>bq_waiting := 0, bq_woken := bq_woken s + bq_waiting s, bq_broadcasts := bq_broadcasts s - 1\<rparr>)"

definition bq_inv :: "'a bq_sys \<Rightarrow> bool" where
  "bq_inv s \<longleftrightarrow> bq_put s = bq_taken s @ bq_q s \<and> (0 < bq_closed s \<longrightarrow> bq_done s)
     \<and> (0 < bq_waiting s \<longrightarrow> length (bq_q s) \<le> bq_woken s + bq_notifies s)
     \<and> (0 < bq_waiting s \<and> bq_done s \<longrightarrow> 0 < bq_broadcasts s)"

lemma bq_attempt_inv:
  assumes "bq_put s = bq_taken s @ bq_q s" and "0 < bq_closed s \<longrightarrow> bq_done s"
    and "0 < bq_waiting s \<longrightarrow> length (bq_q s) \<le> Suc (bq_woken s) + bq_notifies s"
    and "0 < bq_waiting s \<and> bq_done s \<longrightarrow> 0 < bq_broadcasts s"
  shows "bq_inv (bq_attempt s)"
  using assms by (cases "bq_q s") (auto simp: bq_attempt_def bq_inv_def take_ready_def take_locked_def bq_finish_def)

lemma bq_step_inv:
  assumes "bq_inv s"
  shows "case bq_step e s of Inr s' \<Rightarrow> bq_inv s' | Inl f \<Rightarrow> False"
proof (cases e)
  case BQ_take
  then show ?thesis using bq_attempt_inv[of s] assms by (auto simp: bq_step_def bq_inv_def)
next
  case BQ_resume
  then show ?thesis using bq_attempt_inv[of "s\<lparr>bq_woken := bq_woken s - 1\<rparr>"] assms by (auto simp: bq_step_def bq_inv_def)
next
  case BQ_try_take
  then show ?thesis using assms by (cases "bq_q s") (auto simp: bq_step_def bq_inv_def try_take_def)
qed (use assms in \<open>auto simp: bq_step_def bq_inv_def put_def shutdown_queue_def Let_def\<close>)

interpretation bqm: event_machine bq_inv "\<lambda>_. True" "{}" bq_step
proof unfold_locales
  fix s e s' assume "bq_inv s" "bq_step e s = Inr s'"
  then show "bq_inv s'" using bq_step_inv[of s e] by simp
next
  fix s e f assume "bq_inv s" "bq_step e s = Inl f"
  then show "f \<in> {}" using bq_step_inv[of s e] by simp
qed

lemma bq_start_inv: "bq_inv bq_start"
  by (simp add: bq_inv_def bq_start_def)

text \<open>
  C20: The unbounded queue hands over every element exactly once and in order, in every interleaving of producers,
  consumers, spurious wake-ups and shutdown: what was put is what was taken followed by what is still queued. A consumer learns that the queue
  is closed only after the shutdown. And no wake-up is lost: once every notification sent has been delivered
  and every woken thread has run, no thread waits while an element is there or the queue is shut down.
\<close>
theorem blocking_queue_exactly_once:
  "\<exists>s. foldE bq_step es bq_start = Inr s \<and> bq_put s = bq_taken s @ bq_q s \<and> (0 < bq_closed s \<longrightarrow> bq_done s)
     \<and> (bq_notifies s = 0 \<and> bq_broadcasts s = 0 \<and> bq_woken s = 0 \<and> 0 < bq_waiting s \<longrightarrow> bq_q s = [] \<and> \<not> bq_done s)"
  using bqm.run_total[OF bq_start_inv, of es] by (auto simp: bq_inv_def)

theorem blocking_queue_exactly_once_witness:
  "\<exists>s. foldE bq_step [BQ_take, BQ_put (1::nat), BQ_put 2, BQ_notify, BQ_notify, BQ_resume, BQ_try_take, BQ_shutdown, BQ_broadcast] bq_start = Inr s
     \<and> bq_put s = bq_taken s @ bq_q s \<and> (bq_notifies s = 0 \<and> bq_broadcasts s = 0 \<and> bq_woken s = 0 \<and> 0 < bq_waiting s \<longrightarrow> bq_q s = [])"
  using blocking_queue_exactly_once[of "[BQ_take, BQ_put (1::nat), BQ_put 2, BQ_notify, BQ_notify, BQ_resume, BQ_try_take, BQ_shutdown, BQ_broadcast]"]
  by blast

section \<open>The bounded queue\<close>

record 'a bounded_queue =
  bb_buffer :: "'a list"
  max_size :: nat
  bb_size :: nat
  bb_front :: nat
  bb_back :: nat
  stopped :: bool

text \<open>The constructor fills the vector with value-initialised elements.\<close>

definition BoundedBlockingQueue_new :: "'a \<Rightarrow> nat \<Rightarrow> 'a bounded_queue" where
  "BoundedBlockingQueue_new init n =
     \<lparr>bb_buffer = replicate n init, max_size = n, bb_size = 0, bb_front = 0, bb_back = 0, stopped = False\<rparr>"

definition is_empty_locked :: "('a, 'b) bounded_queue_scheme \<Rightarrow> bool" where
  "is_empty_locked q \<longleftrightarrow> bb_size q = 0"

definition is_full_locked :: "('a, 'b) bounded_queue_scheme \<Rightarrow> bool" where
  "is_full_locked q \<longleftrightarrow> bb_size q = max_size q"

definition emplace_internal :: "'a \<Rightarrow> ('a, 'b) bounded_queue_scheme \<Rightarrow> ('a, 'b) bounded_queue_scheme res" where
  "emplace_internal value q =
     (if bb_back q < length (bb_buffer q)
      then Inr (q\<lparr>bb_buffer := (bb_buffer q)[bb_back q := value], bb_size := bb_size q + 1,
                  bb_back := (bb_back q + 1) mod max_size q\<rparr>)
      else Inl Out_Of_Bounds)"

definition pop_internal :: "('a, 'b) bounded_queue_scheme \<Rightarrow> ('a \<times> ('a, 'b) bounded_queue_scheme) res" where
  "pop_internal q =
     (if bb_front q < length (bb_buffer q)
      then Inr (bb_buffer q ! bb_front q, q\<lparr>bb_size := bb_size q - 1, bb_front := (bb_front q + 1) mod max_size q\<rparr>)
      else Inl Out_Of_Bounds)"

definition stop_queue :: "('a, 'b) bounded_queue_scheme \<Rightarrow> ('a, 'b) bounded_queue_scheme" where
  "stop_queue q = q\<lparr>stopped := True\<rparr>"

text \<open>The elements of the ring, oldest first.\<close>

definition elems :: "('a, 'b) bounded_queue_scheme \<Rightarrow> 'a list" where
  "elems q = map (\<lambda>i. bb_buffer q ! ((bb_front q + i) mod max_size q)) [0..<bb_size q]"

definition ring_ok :: "('a, 'b) bounded_queue_scheme \<Rightarrow> bool" where
  "ring_ok q \<longleftrightarrow> length (bb_buffer q) = max_size q \<and> bb_size q \<le> max_size q
     \<and> (0 < max_size q \<longrightarrow> bb_front q < max_size q \<and> bb_back q = (bb_front q + bb_size q) mod max_size q)"

lemma ring_index_inj:
  fixes f i j m :: nat
  assumes "i < m" and "j < m" and "(f + i) mod m = (f + j) mod m"
  shows "i = j"
proof -
  have "(int f + int i) mod int m = (int f + int j) mod int m"
    using assms(3) by (metis of_nat_add zmod_int)
  then have "int m dvd int i - int j"
    by (metis add_diff_cancel_left mod_eq_dvd_iff)
  then show ?thesis
    using assms(1,2) by (metis (no_types) add_diff_cancel_left mod_eq_dvd_iff mod_less of_nat_eq_iff zmod_int)
qed

lemma emplace_internal_ok:
  assumes "ring_ok q" and "bb_size q < max_size q"
  shows "\<exists>q'. emplace_internal v q = Inr q' \<and> ring_ok q' \<and> elems q' = elems q @ [v]
    \<and> bb_size q' = bb_size q + 1 \<and> max_size q' = max_size q \<and> stopped q' = stopped q"
proof -
  define q' where "q' = q\<lparr>bb_buffer := (bb_buffer q)[bb_back q := v], bb_size := bb_size q + 1,
      bb_back := (bb_back q + 1) mod max_size q\<rparr>"
  have bk: "bb_back q = (bb_front q + bb_size q) mod max_size q" "bb_back q < length (bb_buffer q)"
    using assms by (auto simp: ring_ok_def)
  have keep: "bb_buffer q' ! ((bb_front q + i) mod max_size q) = bb_buffer q ! ((bb_front q + i) mod max_size q)"
    if "i < bb_size q" for i
  proof -
    have "(bb_front q + i) mod max_size q \<noteq> bb_back q"
      using ring_index_inj[of i "max_size q" "bb_size q" "bb_front q"] that assms(2) bk(1) by auto
    then show ?thesis by (simp add: q'_def)
  qed
  have new: "bb_buffer q' ! ((bb_front q + bb_size q) mod max_size q) = v"
    using bk by (simp add: q'_def)
  have "elems q' = elems q @ [v]"
    using keep new by (simp add: elems_def) (simp add: q'_def)
  moreover have "ring_ok q'"
    using assms bk by (auto simp: ring_ok_def q'_def mod_Suc_eq)
  moreover have "emplace_internal v q = Inr q'"
    using bk(2) by (simp add: emplace_internal_def q'_def)
  ultimately show ?thesis by (auto simp: q'_def)
qed

lemma pop_internal_ok:
  assumes "ring_ok q" and "0 < bb_size q"
  shows "\<exists>q'. pop_internal q = Inr (hd (elems q), q') \<and> ring_ok q' \<and> elems q' = tl (elems q)
    \<and> bb_size q' + 1 = bb_size q \<and> max_size q' = max_size q \<and> stopped q' = stopped q"
proof -
  define q' where "q' = q\<lparr>bb_size := bb_size q - 1, bb_front := (bb_front q + 1) mod max_size q\<rparr>"
  have front: "bb_front q < max_size q" "length (bb_buffer q) = max_size q"
    using assms by (auto simp: ring_ok_def)
  obtain n where n: "bb_size q = Suc n" using assms(2) by (cases "bb_size q") auto
  have el: "elems q = bb_buffer q ! bb_front q # elems q'"
    using front by (simp add: elems_def n q'_def upt_conv_Cons map_Suc_upt[symmetric] mod_simps del: upt_Suc)
  moreover have "ring_ok q'"
    using assms front n by (auto simp: ring_ok_def q'_def mod_simps)
  ultimately show ?thesis
    using front n by (auto simp: pop_internal_def q'_def)
qed

text \<open>A thread blocked in \<^verbatim>\<open>push\<close> holds its value; one blocked in \<^verbatim>\<open>pop\<close> or \<^verbatim>\<open>try_pop_for\<close> is only counted. The notifications are sent under the mutex, so they are part of the step.\<close>

record 'a bb_sys = "'a bounded_queue" +
  pop_waiting :: nat
  pop_woken :: nat
  push_waiting :: "'a list"
  push_woken :: "'a list"
  accepted :: "'a list"
  delivered :: "'a list"

definition bb_start :: "'a \<Rightarrow> nat \<Rightarrow> 'a bb_sys" where
  "bb_start init n = bounded_queue.extend (BoundedBlockingQueue_new init n)
     \<lparr>pop_waiting = 0, pop_woken = 0, push_waiting = [], push_woken = [], accepted = [], delivered = []\<rparr>"

definition notify_empty :: "'a bb_sys \<Rightarrow> 'a bb_sys" where
  "notify_empty s = (if pop_waiting s = 0 then s else s\<lparr>pop_waiting := pop_waiting s - 1, pop_woken := Suc (pop_woken s)\<rparr>)"

definition remove_nth :: "nat \<Rightarrow> 'a list \<Rightarrow> 'a list" where
  "remove_nth i xs = take i xs @ drop (Suc i) xs"

definition wake_pusher :: "nat \<Rightarrow> 'a bb_sys \<Rightarrow> 'a bb_sys" where
  "wake_pusher i s =
     (if push_waiting s = [] then s
      else let j = i mod length (push_waiting s)
           in s\<lparr>push_waiting := remove_nth j (push_waiting s), push_woken := push_woken s @ [push_waiting s ! j]\<rparr>)"

definition push_locked :: "'a \<Rightarrow> 'a bb_sys \<Rightarrow> 'a bb_sys res" where
  "push_locked v s =
     (if \<not> is_full_locked s \<or> stopped s
      then if stopped s then Inr s
           else bindE (emplace_internal v s) (\<lambda>s. Inr (notify_empty (s\<lparr>accepted := accepted s @ [v]\<rparr>)))
      else Inr (s\<lparr>push_waiting := push_waiting s @ [v]\<rparr>))"

definition try_push :: "'a \<Rightarrow> 'a bb_sys \<Rightarrow> (bool \<times> 'a bb_sys) res" where
  "try_push v s =
     (if is_full_locked s \<or> stopped s then Inr (False, s)
      else bindE (emplace_internal v s) (\<lambda>s. Inr (True, notify_empty (s\<lparr>accepted := accepted s @ [v]\<rparr>))))"

text \<open>\<^verbatim>\<open>pop\<close> waits as long as it takes; a \<^verbatim>\<open>try_pop_for\<close> whose time is over gives up where \<^verbatim>\<open>pop\<close> would wait.\<close>

definition pop_locked :: "nat \<Rightarrow> bool \<Rightarrow> 'a bb_sys \<Rightarrow> 'a bb_sys res" where
  "pop_locked i timed_out s =
     (if \<not> is_empty_locked s \<or> stopped s
      then if stopped s then Inr s
           else bindE (pop_internal s) (\<lambda>(v, s). Inr (wake_pusher i (s\<lparr>delivered := delivered s @ [v]\<rparr>)))
      else if timed_out then Inr s
      else Inr (s\<lparr>pop_waiting := Suc (pop_waiting s)\<rparr>))"

datatype 'a bb_event = BB_push 'a | BB_try_push 'a | BB_push_resume nat | BB_push_wake nat
  | BB_pop nat | BB_pop_resume nat bool | BB_pop_timeout nat | BB_pop_wake | BB_stop

definition bb_step :: "'a bb_event \<Rightarrow> 'a bb_sys \<Rightarrow> 'a bb_sys res" where
  "bb_step e s =
     (case e of
        BB_push v \<Rightarrow> push_locked v s
      | BB_try_push v \<Rightarrow> bindE (try_push v s) (\<lambda>(b, s). Inr s)
      | BB_push_resume j \<Rightarrow>
          if j < length (push_woken s) then push_locked (push_woken s ! j) (s\<lparr>push_woken := remove_nth j (push_woken s)\<rparr>) else Inr s
      | BB_push_wake i \<Rightarrow> Inr (wake_pusher i s)
      | BB_pop i \<Rightarrow> pop_locked i False s
      | BB_pop_resume i timed_out \<Rightarrow>
          if 0 < pop_woken s then pop_locked i timed_out (s\<lparr>pop_woken := pop_woken s - 1\<rparr>) else Inr s
      | BB_pop_timeout i \<Rightarrow>
          if 0 < pop_waiting s then pop_locked i True (s\<lparr>pop_waiting := pop_waiting s - 1\<rparr>) else Inr s
      | BB_pop_wake \<Rightarrow> Inr (notify_empty s)
      | BB_stop \<Rightarrow> Inr ((stop_queue s)\<lparr>pop_waiting := 0, pop_woken := pop_woken s + pop_waiting s,
                         push_waiting := [], push_woken := push_woken s @ push_waiting s\<rparr>))"

definition bb_inv :: "nat \<Rightarrow> 'a bb_sys \<Rightarrow> bool" where
  "bb_inv n s \<longleftrightarrow> ring_ok s \<and> max_size s = n \<and> accepted s = delivered s @ elems s
     \<and> (0 < pop_waiting s \<longrightarrow> bb_size s \<le> pop_woken s \<and> \<not> stopped s)
     \<and> (push_waiting s \<noteq> [] \<longrightarrow> n - bb_size s \<le> length (push_woken s) \<and> \<not> stopped s)"

lemma ring_frame [simp]:
  "ring_ok (s\<lparr>pop_waiting := a\<rparr>) = ring_ok s" "elems (s\<lparr>pop_waiting := a\<rparr>) = elems s"
  "ring_ok (s\<lparr>pop_woken := a\<rparr>) = ring_ok s" "elems (s\<lparr>pop_woken := a\<rparr>) = elems s"
  "ring_ok (s\<lparr>push_waiting := b\<rparr>) = ring_ok s" "elems (s\<lparr>push_waiting := b\<rparr>) = elems s"
  "ring_ok (s\<lparr>push_woken := b\<rparr>) = ring_ok s" "elems (s\<lparr>push_woken := b\<rparr>) = elems s"
  "ring_ok (s\<lparr>accepted := b\<rparr>) = ring_ok s" "elems (s\<lparr>accepted := b\<rparr>) = elems s"
  "ring_ok (s\<lparr>delivered := b\<rparr>) = ring_ok s" "elems (s\<lparr>delivered := b\<rparr>) = elems s"
  "ring_ok (s\<lparr>stopped := c\<rparr>) = ring_ok s" "elems (s\<lparr>stopped := c\<rparr>) = elems s"
  by (simp_all add: ring_ok_def elems_def)

lemma length_remove_nth: "i < length xs \<Longrightarrow> Suc (length (remove_nth i xs)) = length xs"
  by (simp add: remove_nth_def)

lemma emplace_internal_frame:
  "emplace_internal v (s :: 'a bb_sys) = Inr s' \<Longrightarrow> pop_waiting s' = pop_waiting s \<and> pop_woken s' = pop_woken s
    \<and> push_waiting s' = push_waiting s \<and> push_woken s' = push_woken s \<and> accepted s' = accepted s \<and> delivered s' = delivered s"
  by (auto simp: emplace_internal_def split: if_splits)

lemma pop_internal_frame:
  "pop_internal (s :: 'a bb_sys) = Inr (v, s') \<Longrightarrow> pop_waiting s' = pop_waiting s \<and> pop_woken s' = pop_woken s
    \<and> push_waiting s' = push_waiting s \<and> push_woken s' = push_woken s \<and> accepted s' = accepted s \<and> delivered s' = delivered s"
  by (auto simp: pop_internal_def split: if_splits)

text \<open>The invariant while one woken thread is on its way: it is not counted any more, and has not acted yet.\<close>

lemma bb_emplace:
  assumes "ring_ok s" and "max_size s = n" and "accepted s = delivered s @ elems s" and "\<not> is_full_locked s" and "\<not> stopped s"
    and "0 < pop_waiting s \<longrightarrow> bb_size s \<le> pop_woken s" and "push_waiting s \<noteq> [] \<longrightarrow> n - bb_size s \<le> Suc (length (push_woken s))"
  shows "\<exists>s'. emplace_internal v s = Inr s' \<and> bb_inv n (notify_empty (s'\<lparr>accepted := accepted s' @ [v]\<rparr>))"
proof -
  have "bb_size s < max_size s" using assms(1,4) by (auto simp: ring_ok_def is_full_locked_def)
  from emplace_internal_ok[OF assms(1) this, of v] obtain s' where s': "emplace_internal v s = Inr s'" "ring_ok s'"
    "elems s' = elems s @ [v]" "bb_size s' = bb_size s + 1" "max_size s' = max_size s" "stopped s' = stopped s" by blast
  then show ?thesis
    using assms emplace_internal_frame[OF s'(1)] by (auto simp: bb_inv_def notify_empty_def)
qed

lemma bb_push_locked:
  assumes "ring_ok s" and "max_size s = n" and "accepted s = delivered s @ elems s"
    and "0 < pop_waiting s \<longrightarrow> bb_size s \<le> pop_woken s \<and> \<not> stopped s"
    and "push_waiting s \<noteq> [] \<longrightarrow> n - bb_size s \<le> Suc (length (push_woken s)) \<and> \<not> stopped s"
  shows "\<exists>s'. push_locked v s = Inr s' \<and> bb_inv n s'"
proof (cases "is_full_locked s \<or> stopped s")
  case True
  then show ?thesis using assms by (auto simp: push_locked_def bb_inv_def is_full_locked_def)
next
  case False
  then show ?thesis using bb_emplace[OF assms(1-3), of v] assms(4,5) by (auto simp: push_locked_def)
qed

lemma wake_pusher_inv:
  assumes "ring_ok s" and "max_size s = n" and "accepted s = delivered s @ elems s"
    and "0 < pop_waiting s \<longrightarrow> bb_size s \<le> pop_woken s \<and> \<not> stopped s"
    and "push_waiting s \<noteq> [] \<longrightarrow> n - bb_size s \<le> Suc (length (push_woken s)) \<and> \<not> stopped s"
  shows "bb_inv n (wake_pusher i s)"
  using assms by (auto simp: wake_pusher_def bb_inv_def Let_def)

lemma bb_pop_locked:
  assumes "ring_ok s" and "max_size s = n" and "accepted s = delivered s @ elems s"
    and "0 < pop_waiting s \<longrightarrow> bb_size s \<le> Suc (pop_woken s) \<and> \<not> stopped s"
    and "push_waiting s \<noteq> [] \<longrightarrow> n - bb_size s \<le> length (push_woken s) \<and> \<not> stopped s"
  shows "\<exists>s'. pop_locked i t s = Inr s' \<and> bb_inv n s'"
proof (cases "is_empty_locked s \<or> stopped s")
  case True
  then show ?thesis using assms by (auto simp: pop_locked_def bb_inv_def is_empty_locked_def)
next
  case False
  then have "0 < bb_size s" by (simp add: is_empty_locked_def)
  from pop_internal_ok[OF assms(1) this] obtain s' where s': "pop_internal s = Inr (hd (elems s), s')" "ring_ok s'"
    "elems s' = tl (elems s)" "bb_size s' + 1 = bb_size s" "max_size s' = max_size s" "stopped s' = stopped s" by blast
  have "elems s \<noteq> []" using \<open>0 < bb_size s\<close> by (simp add: elems_def)
  then have "bb_inv n (wake_pusher i (s'\<lparr>delivered := delivered s' @ [hd (elems s)]\<rparr>))"
    using assms s' pop_internal_frame[OF s'(1)] False by (intro wake_pusher_inv) auto
  then show ?thesis using False s'(1) by (simp add: pop_locked_def)
qed

lemma bb_step_inv:
  assumes "bb_inv n s"
  shows "\<exists>s'. bb_step e s = Inr s' \<and> bb_inv n s'"
proof (cases e)
  case (BB_push v)
  then show ?thesis using bb_push_locked[of s n v] assms by (auto simp: bb_step_def bb_inv_def)
next
  case (BB_try_push v)
  show ?thesis
  proof (cases "is_full_locked s \<or> stopped s")
    case True
    then show ?thesis using assms BB_try_push by (auto simp: bb_step_def try_push_def)
  next
    case False
    then show ?thesis using bb_emplace[of s n v] assms BB_try_push by (auto simp: bb_step_def try_push_def bb_inv_def)
  qed
next
  case (BB_push_resume j)
  then show ?thesis
    using bb_push_locked[of "s\<lparr>push_woken := remove_nth j (push_woken s)\<rparr>" n "push_woken s ! j"] assms
    by (auto simp: bb_step_def bb_inv_def length_remove_nth)
next
  case (BB_push_wake i)
  then show ?thesis using wake_pusher_inv[of s n i] assms by (auto simp: bb_step_def bb_inv_def)
next
  case (BB_pop i)
  then show ?thesis using bb_pop_locked[of s n i False] assms by (auto simp: bb_step_def bb_inv_def)
next
  case (BB_pop_resume i t)
  then show ?thesis
    using bb_pop_locked[of "s\<lparr>pop_woken := pop_woken s - 1\<rparr>" n i t] assms by (auto simp: bb_step_def bb_inv_def)
next
  case (BB_pop_timeout i)
  then show ?thesis
    using bb_pop_locked[of "s\<lparr>pop_waiting := pop_waiting s - 1\<rparr>" n i True] assms by (auto simp: bb_step_def bb_inv_def)
qed (use assms in \<open>auto simp: bb_step_def bb_inv_def notify_empty_def stop_queue_def\<close>)

interpretation bbm: event_machine "bb_inv n" "\<lambda>_. True" "{}" bb_step for n
proof unfold_locales
  fix s :: "'a bb_sys" and e s' assume "bb_inv n s" "bb_step e s = Inr s'"
  then show "bb_inv n s'" using bb_step_inv[of n s e] by auto
next
  fix s :: "'a bb_sys" and e f assume "bb_inv n s" "bb_step e s = Inl f"
  then show "f \<in> {}" using bb_step_inv[of n s e] by auto
qed

lemma bb_start_inv: "bb_inv n (bb_start init n)"
  by (simp add: bb_inv_def bb_start_def BoundedBlockingQueue_new_def bounded_queue.defs ring_ok_def elems_def)

text \<open>
  C5: The ring of the bounded queue is a first-in first-out queue of at most \<open>n\<close> elements, in every interleaving of blocked and
  unblocked producers and consumers, time-outs, spurious wake-ups and stop: it is never accessed out of bounds, and what it accepted is what it
  delivered followed by what the ring holds. No wake-up is lost: when every woken thread has run, no consumer waits while
  there is an element and no producer waits while there is room, and after stop nobody waits.
\<close>
theorem bounded_queue_refines_fifo:
  "\<exists>s. foldE bb_step es (bb_start init n) = Inr s \<and> accepted s = delivered s @ elems s \<and> length (elems s) \<le> n
     \<and> (pop_woken s = 0 \<and> 0 < pop_waiting s \<longrightarrow> elems s = [] \<and> \<not> stopped s)
     \<and> (push_woken s = [] \<and> push_waiting s \<noteq> [] \<longrightarrow> length (elems s) = n \<and> \<not> stopped s)"
proof -
  obtain s where s: "foldE bb_step es (bb_start init n) = Inr s" "bb_inv n s"
    using bbm.run_total[OF bb_start_inv[of n init], of es] by auto
  then show ?thesis by (auto simp: bb_inv_def elems_def ring_ok_def)
qed

theorem bounded_queue_refines_fifo_witness:
  "\<exists>s. foldE bb_step [BB_pop 0, BB_push (7::nat), BB_push 8, BB_push 9, BB_pop_resume 0 False, BB_push_resume 0, BB_pop 0, BB_stop] (bb_start 0 2) = Inr s
     \<and> accepted s = delivered s @ elems s \<and> length (elems s) \<le> 2"
  using bounded_queue_refines_fifo[of "[BB_pop 0, BB_push (7::nat), BB_push 8, BB_push 9, BB_pop_resume 0 False, BB_push_resume 0, BB_pop 0, BB_stop]" 0 2]
  by blast

section \<open>The latch\<close>

record latch =
  latch_count :: int
  latch_waiting :: nat
  latch_released :: nat

definition CountDownLatch_new :: "int \<Rightarrow> latch option" where
  "CountDownLatch_new count = (if count < 0 then None else Some \<lparr>latch_count = count, latch_waiting = 0, latch_released = 0\<rparr>)"

definition count_down :: "latch \<Rightarrow> latch" where
  "count_down l =
     (if latch_count l = 0 then l
      else let l = l\<lparr>latch_count := latch_count l - 1\<rparr>
           in if latch_count l = 0 then l\<lparr>latch_waiting := 0, latch_released := latch_released l + latch_waiting l\<rparr> else l)"

definition latch_wait :: "latch \<Rightarrow> latch" where
  "latch_wait l = (if latch_count l = 0 then l\<lparr>latch_released := Suc (latch_released l)\<rparr> else l\<lparr>latch_waiting := Suc (latch_waiting l)\<rparr>)"

text \<open>The answer of \<^verbatim>\<open>wait_for\<close> when it gives up or is released.\<close>

definition latch_wait_for :: "latch \<Rightarrow> bool" where
  "latch_wait_for l \<longleftrightarrow> latch_count l = 0"

definition get_count :: "latch \<Rightarrow> int" where
  "get_count l = latch_count l"

datatype latch_op = Op_count_down | Op_wait

fun latch_step :: "latch_op \<Rightarrow> latch \<Rightarrow> latch" where
  "latch_step Op_count_down l = count_down l"
| "latch_step Op_wait l = latch_wait l"

definition latch_after :: "int \<Rightarrow> latch_op list \<Rightarrow> latch" where
  "latch_after n ops =
     (let downs = int (count_list ops Op_count_down); waits = count_list ops Op_wait
      in \<lparr>latch_count = max 0 (n - downs), latch_waiting = (if n \<le> downs then 0 else waits),
          latch_released = (if n \<le> downs then waits else 0)\<rparr>)"

lemma latch_fold:
  assumes "0 \<le> n"
  shows "fold latch_step ops \<lparr>latch_count = n, latch_waiting = 0, latch_released = 0\<rparr> = latch_after n ops"
proof (induction ops rule: rev_induct)
  case (snoc x xs)
  then show ?case
    using assms by (cases x) (auto simp: latch_after_def Let_def count_down_def latch_wait_def max_def)
qed (use assms in \<open>simp add: latch_after_def\<close>)

text \<open>
  A latch of \<open>n\<close> opens with the \<open>n\<close>-th count-down, not before, and for good. Whatever the order in which threads count down and
  wait, before that everybody who called \<^verbatim>\<open>wait\<close> waits and the count is what is missing; from then on nobody waits, the count stays
  zero, and further count-downs change nothing. A negative count is refused.
\<close>
theorem latch_opens_exactly:
  "CountDownLatch_new n = (if n < 0 then None else Some (latch_after n []))
   \<and> (0 \<le> n \<longrightarrow> fold latch_step ops (latch_after n []) = latch_after n ops
       \<and> latch_wait_for (latch_after n ops) = (n \<le> int (count_list ops Op_count_down))
       \<and> get_count (latch_after n ops) = max 0 (n - int (count_list ops Op_count_down)))"
  using latch_fold[of n ops]
  by (auto simp: CountDownLatch_new_def latch_after_def latch_wait_for_def get_count_def Let_def)

theorem latch_opens_exactly_witness:
  "fold latch_step [Op_wait, Op_count_down, Op_wait, Op_count_down, Op_count_down, Op_wait] (latch_after 2 [])
   = latch_after 2 [Op_wait, Op_count_down, Op_wait, Op_count_down, Op_count_down, Op_wait]"
  using latch_opens_exactly[of 2 "[Op_wait, Op_count_down, Op_wait, Op_count_down, Op_count_down, Op_wait]"] by simp

end
