(* ===== verification/Thread_Pools.thy ===== *)
theory Thread_Pools
  imports Blocking_Queues Inet_Address "HOL-Library.Multiset"
begin

text \<open>
  The thread pool of \<^verbatim>\<open>deps/common/base\<close> and the disk pool of the FTP server, as the machines their workers, their
  clients and the thread that stops them make.
\<close>

section \<open>The thread pool\<close>

record 't pool =
  running :: bool
  tp_queue :: "'t list"
  tp_threads :: nat
  tp_runnable :: nat
  tp_waiting :: nat
  tp_busy :: "'t list"
  tp_exited :: nat
  tp_crashed :: nat
  tp_notifies :: nat
  tp_stopping :: bool
  tp_accepted :: "'t list"
  tp_started :: "'t list"
  tp_finished :: "'t list"

definition ThreadPool_new :: "'t pool" where
  "ThreadPool_new = \<lparr>running = False, tp_queue = [], tp_threads = 0, tp_runnable = 0, tp_waiting = 0, tp_busy = [], tp_exited = 0,
     tp_crashed = 0, tp_notifies = 0, tp_stopping = False, tp_accepted = [], tp_started = [], tp_finished = []\<rparr>"

definition ThreadPool_start :: "nat \<Rightarrow> 't pool \<Rightarrow> 't pool" where
  "ThreadPool_start numThread p =
     (if running p then p
      else p\<lparr>running := True, tp_threads := numThread, tp_runnable := numThread, tp_exited := 0, tp_crashed := 0\<rparr>)"

text \<open>\<^verbatim>\<open>run\<close>: the answer tells whether the task was taken or the exception thrown.\<close>

definition ThreadPool_run :: "'t \<Rightarrow> 't pool \<Rightarrow> bool \<times> 't pool" where
  "ThreadPool_run f p =
     (if \<not> running p then (False, p)
      else (True, p\<lparr>tp_queue := tp_queue p @ [f], tp_notifies := Suc (tp_notifies p), tp_accepted := tp_accepted p @ [f]\<rparr>))"

text \<open>One turn of \<^verbatim>\<open>run_in_thread\<close> under the mutex, by a worker that is already taken off the runnable ones.\<close>

definition run_in_thread :: "'t pool \<Rightarrow> 't pool" where
  "run_in_thread p =
     (if \<not> (\<not> running p \<or> tp_queue p \<noteq> []) then p\<lparr>tp_waiting := Suc (tp_waiting p)\<rparr>
      else if \<not> running p \<and> tp_queue p = [] then p\<lparr>tp_exited := Suc (tp_exited p)\<rparr>
      else let task = hd (tp_queue p)
           in p\<lparr>tp_queue := tl (tp_queue p), tp_busy := tp_busy p @ [task], tp_started := tp_started p @ [task]\<rparr>)"

text \<open>\<^verbatim>\<open>stop\<close>: the flag is flipped first, then every waiting worker is notified under the mutex; the join ends when no worker is left.\<close>

definition ThreadPool_stop :: "'t pool \<Rightarrow> 't pool" where
  "ThreadPool_stop p = (if running p then p\<lparr>running := False, tp_stopping := True\<rparr> else p)"

definition ThreadPool_stop_notify :: "'t pool \<Rightarrow> 't pool" where
  "ThreadPool_stop_notify p =
     (if tp_stopping p then p\<lparr>tp_runnable := tp_runnable p + tp_waiting p, tp_waiting := 0, tp_stopping := False\<rparr> else p)"

definition joined :: "'t pool \<Rightarrow> bool" where
  "joined p \<longleftrightarrow> tp_exited p + tp_crashed p = tp_threads p"

datatype 't pool_event = TP_run 't | TP_notify | TP_worker | TP_wake | TP_task_end nat | TP_stop | TP_stop_notify

definition pool_step :: "('t \<Rightarrow> bool) \<Rightarrow> 't pool_event \<Rightarrow> 't pool \<Rightarrow> 't pool res" where
  "pool_step throws e p =
     Inr (case e of
        TP_run f \<Rightarrow> snd (ThreadPool_run f p)
      | TP_notify \<Rightarrow>
          if tp_notifies p = 0 then p
          else let p = p\<lparr>tp_notifies := tp_notifies p - 1\<rparr>
               in if tp_waiting p = 0 then p else p\<lparr>tp_runnable := Suc (tp_runnable p), tp_waiting := tp_waiting p - 1\<rparr>
      | TP_worker \<Rightarrow> if tp_runnable p = 0 then p else run_in_thread (p\<lparr>tp_runnable := tp_runnable p - 1\<rparr>)
      | TP_wake \<Rightarrow> if tp_waiting p = 0 then p else p\<lparr>tp_runnable := Suc (tp_runnable p), tp_waiting := tp_waiting p - 1\<rparr>
      | TP_task_end i \<Rightarrow>
          if i < length (tp_busy p)
          then let task = tp_busy p ! i; p = p\<lparr>tp_busy := remove_nth i (tp_busy p), tp_finished := tp_finished p @ [task]\<rparr>
               in if throws task then p\<lparr>tp_crashed := Suc (tp_crashed p)\<rparr> else p\<lparr>tp_runnable := Suc (tp_runnable p)\<rparr>
          else p
      | TP_stop \<Rightarrow> ThreadPool_stop p
      | TP_stop_notify \<Rightarrow> ThreadPool_stop_notify p)"

definition pool_inv :: "nat \<Rightarrow> 't pool \<Rightarrow> bool" where
  "pool_inv n p \<longleftrightarrow> tp_threads p = n \<and> tp_runnable p + tp_waiting p + length (tp_busy p) + tp_exited p + tp_crashed p = n
     \<and> tp_accepted p = tp_started p @ tp_queue p \<and> mset (tp_started p) = mset (tp_finished p) + mset (tp_busy p)
     \<and> (0 < tp_waiting p \<longrightarrow> length (tp_queue p) \<le> tp_runnable p + tp_notifies p)
     \<and> (0 < tp_waiting p \<and> \<not> running p \<longrightarrow> tp_stopping p)
     \<and> (0 < tp_exited p \<longrightarrow> \<not> running p \<and> tp_queue p = [])"

lemma mset_remove_nth: "i < length xs \<Longrightarrow> mset xs = add_mset (xs ! i) (mset (remove_nth i xs))"
  using arg_cong[OF id_take_nth_drop[of i xs], of mset] by (simp add: remove_nth_def)

lemma run_in_thread_inv:
  assumes "tp_threads p = n" and "Suc (tp_runnable p + tp_waiting p + length (tp_busy p) + tp_exited p + tp_crashed p) = n"
    and "tp_accepted p = tp_started p @ tp_queue p" and "mset (tp_started p) = mset (tp_finished p) + mset (tp_busy p)"
    and "0 < tp_waiting p \<longrightarrow> length (tp_queue p) \<le> Suc (tp_runnable p + tp_notifies p)"
    and "0 < tp_waiting p \<and> \<not> running p \<longrightarrow> tp_stopping p" and "0 < tp_exited p \<longrightarrow> \<not> running p \<and> tp_queue p = []"
  shows "pool_inv n (run_in_thread p)"
  using assms by (cases "tp_queue p") (auto simp: run_in_thread_def pool_inv_def Let_def)

lemma pool_step_inv:
  assumes "pool_inv n p"
  shows "\<exists>p'. pool_step throws e p = Inr p' \<and> pool_inv n p'"
proof (cases e)
  case TP_worker
  then show ?thesis
    using run_in_thread_inv[of "p\<lparr>tp_runnable := tp_runnable p - 1\<rparr>" n] assms by (auto simp: pool_step_def pool_inv_def)
next
  case (TP_task_end i)
  show ?thesis
  proof (cases "i < length (tp_busy p)")
    case True
    then show ?thesis
      using assms TP_task_end length_remove_nth[OF True] mset_remove_nth[OF True]
      by (auto simp: pool_step_def pool_inv_def Let_def)
  qed (use assms TP_task_end in \<open>simp add: pool_step_def\<close>)
qed (use assms in \<open>auto simp: pool_step_def pool_inv_def ThreadPool_run_def ThreadPool_stop_def ThreadPool_stop_notify_def Let_def\<close>)

interpretation poolm: event_machine "pool_inv n" "\<lambda>_. True" "{}" "pool_step throws" for n throws
proof unfold_locales
  fix p :: "'a pool" and e p' assume "pool_inv n p" "pool_step throws e p = Inr p'"
  then show "pool_inv n p'" using pool_step_inv[of n p throws e] by auto
next
  fix p :: "'a pool" and e f assume "pool_inv n p" "pool_step throws e p = Inl f"
  then show "f \<in> {}" using pool_step_inv[of n p throws e] by auto
qed

lemma pool_start_inv: "pool_inv n (ThreadPool_start n ThreadPool_new)"
  by (simp add: pool_inv_def ThreadPool_start_def ThreadPool_new_def)

text \<open>
  C10: The pool loses no task. In every interleaving of clients, workers, spurious wake-ups and a stop, the accepted tasks are started in
  the order they were accepted, each once, and finished ones were started. When nothing is left to happen (no task running, every
  notification delivered, every woken worker back in its wait or gone), then unless every worker has died of an exception all accepted tasks have
  run; so a stop that has joined its workers leaves nothing undone.
\<close>
theorem thread_pool_runs_all:
  "\<exists>p. foldE (pool_step throws) es (ThreadPool_start n ThreadPool_new) = Inr p \<and> tp_accepted p = tp_started p @ tp_queue p
     \<and> mset (tp_started p) = mset (tp_finished p) + mset (tp_busy p)
     \<and> (tp_runnable p = 0 \<and> tp_busy p = [] \<and> tp_notifies p = 0 \<and> \<not> tp_stopping p \<and> tp_crashed p < n
        \<longrightarrow> mset (tp_finished p) = mset (tp_accepted p))
     \<and> (joined p \<and> tp_crashed p < n \<longrightarrow> mset (tp_finished p) = mset (tp_accepted p))"
proof -
  obtain p where p: "foldE (pool_step throws) es (ThreadPool_start n ThreadPool_new) = Inr p" "pool_inv n p"
    using poolm.run_total[OF pool_start_inv[of n], of es throws] by auto
  have "tp_queue p = []"
    if "tp_runnable p = 0" "tp_busy p = []" "tp_notifies p = 0" "tp_crashed p < n"
    using p(2) that by (cases "tp_waiting p") (auto simp: pool_inv_def)
  moreover have "tp_queue p = [] \<and> tp_busy p = []" if "joined p" "tp_crashed p < n"
    using p(2) that by (auto simp: pool_inv_def joined_def)
  ultimately show ?thesis
    using p by (auto simp: pool_inv_def)
qed

theorem thread_pool_runs_all_witness:
  "\<exists>p. foldE (pool_step (\<lambda>_. False)) [TP_worker, TP_run (1::nat), TP_notify, TP_worker, TP_task_end 0, TP_stop, TP_stop_notify, TP_worker]
       (ThreadPool_start 1 ThreadPool_new) = Inr p \<and> tp_accepted p = tp_started p @ tp_queue p"
  using thread_pool_runs_all[of "\<lambda>_. False" "[TP_worker, TP_run (1::nat), TP_notify, TP_worker, TP_task_end 0, TP_stop, TP_stop_notify, TP_worker]" 1]
  by blast



section \<open>The disk pool of the FTP server\<close>

text \<open>
  \<^verbatim>\<open>trySubmit\<close> looks at the counter and increases it in two steps, which threads may interleave; \<open>dp_passed\<close> counts those between the
  two, \<open>dp_entered\<close> those between the increment and the put. A task that throws a \<^verbatim>\<open>runtime_error\<close> ends its worker like the closing of the queue does,
  and its count stays.
\<close>

definition kMaxPending :: nat where "kMaxPending = 256"

record 't disk_pool =
  dp_pending :: nat
  dp_queue :: "'t list"
  dp_busy :: "'t list"
  dp_passed :: nat
  dp_entered :: "'t list"
  dp_workers :: nat
  dp_lost :: nat

definition DiskPool_new :: "nat \<Rightarrow> 't disk_pool" where
  "DiskPool_new numThreads = \<lparr>dp_pending = 0, dp_queue = [], dp_busy = [], dp_passed = 0, dp_entered = [], dp_workers = numThreads, dp_lost = 0\<rparr>"

definition trySubmit_check :: "'t disk_pool \<Rightarrow> bool \<times> 't disk_pool" where
  "trySubmit_check p = (if kMaxPending \<le> dp_pending p then (False, p) else (True, p\<lparr>dp_passed := Suc (dp_passed p)\<rparr>))"

definition trySubmit_enter :: "'t \<Rightarrow> 't disk_pool \<Rightarrow> 't disk_pool" where
  "trySubmit_enter task p = p\<lparr>dp_pending := dp_pending p + 1, dp_passed := dp_passed p - 1, dp_entered := dp_entered p @ [task]\<rparr>"

definition trySubmit_put :: "nat \<Rightarrow> 't disk_pool \<Rightarrow> 't disk_pool" where
  "trySubmit_put i p = p\<lparr>dp_queue := dp_queue p @ [dp_entered p ! i], dp_entered := remove_nth i (dp_entered p)\<rparr>"

text \<open>A worker takes a task; the task ends, normally or with the exception.\<close>

definition disk_run :: "'t disk_pool \<Rightarrow> 't disk_pool" where
  "disk_run p = (if dp_queue p = [] then p
     else p\<lparr>dp_queue := tl (dp_queue p), dp_busy := dp_busy p @ [hd (dp_queue p)]\<rparr>)"

definition disk_task_end :: "('t \<Rightarrow> bool) \<Rightarrow> nat \<Rightarrow> 't disk_pool \<Rightarrow> 't disk_pool" where
  "disk_task_end throws i p =
     (let task = dp_busy p ! i; p = p\<lparr>dp_busy := remove_nth i (dp_busy p)\<rparr>
      in if throws task then p\<lparr>dp_workers := dp_workers p - 1, dp_lost := Suc (dp_lost p)\<rparr>
         else p\<lparr>dp_pending := dp_pending p - 1\<rparr>)"

datatype 't disk_event = DP_check | DP_enter 't | DP_put nat | DP_take | DP_task_end nat

definition disk_step :: "nat \<Rightarrow> ('t \<Rightarrow> bool) \<Rightarrow> 't disk_event \<Rightarrow> 't disk_pool \<Rightarrow> 't disk_pool res" where
  "disk_step submitters throws e p =
     Inr (case e of
        DP_check \<Rightarrow> if dp_passed p + length (dp_entered p) < submitters then snd (trySubmit_check p) else p
      | DP_enter t \<Rightarrow> if 0 < dp_passed p then trySubmit_enter t p else p
      | DP_put i \<Rightarrow> if i < length (dp_entered p) then trySubmit_put i p else p
      | DP_take \<Rightarrow> if length (dp_busy p) < dp_workers p then disk_run p else p
      | DP_task_end i \<Rightarrow> if i < length (dp_busy p) then disk_task_end throws i p else p)"

definition disk_inv :: "nat \<Rightarrow> 't disk_pool \<Rightarrow> bool" where
  "disk_inv submitters p \<longleftrightarrow>
     dp_pending p = length (dp_entered p) + length (dp_queue p) + length (dp_busy p) + dp_lost p
     \<and> dp_passed p + length (dp_entered p) \<le> submitters
     \<and> dp_pending p + dp_passed p \<le> kMaxPending - 1 + submitters"

lemma disk_step_inv:
  assumes "disk_inv n p"
  shows "\<exists>p'. disk_step n throws e p = Inr p' \<and> disk_inv n p'"
proof (cases e)
  case DP_check
  then show ?thesis using assms by (auto simp: disk_step_def disk_inv_def trySubmit_check_def)
next
  case (DP_enter t)
  then show ?thesis using assms by (auto simp: disk_step_def disk_inv_def trySubmit_enter_def)
next
  case (DP_put i)
  show ?thesis
  proof (cases "i < length (dp_entered p)")
    case True
    then show ?thesis
      using assms length_remove_nth[OF True] DP_put by (auto simp: disk_step_def disk_inv_def trySubmit_put_def)
  qed (use assms DP_put in \<open>simp add: disk_step_def\<close>)
next
  case (DP_task_end i)
  show ?thesis
  proof (cases "i < length (dp_busy p)")
    case True
    then show ?thesis
      using assms length_remove_nth[OF True] DP_task_end by (auto simp: disk_step_def disk_inv_def disk_task_end_def Let_def)
  qed (use assms DP_task_end in \<open>simp add: disk_step_def\<close>)
next
  case DP_take
  then show ?thesis
    using assms by (cases "dp_queue p") (simp_all add: disk_step_def disk_inv_def disk_run_def)
qed

interpretation diskm: event_machine "disk_inv n" "\<lambda>_. True" "{}" "disk_step n throws" for n throws
proof unfold_locales
  fix p :: "'a disk_pool" and e p' assume "disk_inv n p" "disk_step n throws e p = Inr p'"
  then show "disk_inv n p'" using disk_step_inv[of n p throws e] by auto
next
  fix p :: "'a disk_pool" and e f assume "disk_inv n p" "disk_step n throws e p = Inl f"
  then show "f \<in> {}" using disk_step_inv[of n p throws e] by auto
qed

lemma disk_start_inv: "disk_inv n (DiskPool_new k)"
  by (simp add: disk_inv_def DiskPool_new_def)

text \<open>
  C35: The disk pool is bounded, if not quite by its constant. With one submitting thread never more than 256 tasks are pending; with \<open>n\<close> threads,
  whose look at the counter and increment interleave, never more than 255 + \<open>n\<close>. The counter is the number of
  tasks on their way in, queued, running, or lost to an exception, so without exceptions it returns to zero when the pool is idle.
\<close>
theorem disk_pool_bounded:
  "\<exists>p. foldE (disk_step n throws) es (DiskPool_new k) = Inr p
     \<and> dp_pending p = length (dp_entered p) + length (dp_queue p) + length (dp_busy p) + dp_lost p
     \<and> dp_pending p \<le> kMaxPending - 1 + n"
proof -
  obtain p where p: "foldE (disk_step n throws) es (DiskPool_new k) = Inr p" "disk_inv n p"
    using diskm.run_total[OF disk_start_inv[of n k], of es throws] by auto
  then show ?thesis by (auto simp: disk_inv_def)
qed

end
