(* ===== verification/Config_Reader.thy ===== *)
theory Config_Reader
  imports Timestamp Inet_Address
begin

text \<open>
  The configuration reader, \<^verbatim>\<open>deps/common/config\<close>: the tree of values, its JSON front end and the typed access by dotted paths.

  A \<^verbatim>\<open>ConfigError\<close> is its message, so a result is \<open>string + 'a\<close>. The JSON library is a parameter: a function from the text to a
  document, or to the offset and the text of an error; documents are the trees the library offers for reading.
\<close>

type_synonym 'a cres = "string + 'a"

section \<open>Values\<close>

datatype CType = T_Null | T_Bool | T_Int | T_Double | T_String | T_Array | T_Object

datatype config_value = ConfigValue (storage: storage) (cv_path: string)
  and storage = S_Null | S_Bool bool | S_Int int | S_Double double | S_String string
    | S_Array "config_value list" | S_Object "(string \<times> config_value) list"

definition type_name :: "CType \<Rightarrow> string" where
  "type_name t =
     (case t of T_Null \<Rightarrow> ''null'' | T_Bool \<Rightarrow> ''bool'' | T_Int \<Rightarrow> ''int'' | T_Double \<Rightarrow> ''double'' | T_String \<Rightarrow> ''string''
      | T_Array \<Rightarrow> ''array'' | T_Object \<Rightarrow> ''object'')"

definition cv_type :: "config_value \<Rightarrow> CType" where
  "cv_type v =
     (case storage v of S_Null \<Rightarrow> T_Null | S_Bool _ \<Rightarrow> T_Bool | S_Int _ \<Rightarrow> T_Int | S_Double _ \<Rightarrow> T_Double | S_String _ \<Rightarrow> T_String
      | S_Array _ \<Rightarrow> T_Array | S_Object _ \<Rightarrow> T_Object)"

definition is_null :: "config_value \<Rightarrow> bool" where
  "is_null v \<longleftrightarrow> cv_type v = T_Null"

definition is_container :: "config_value \<Rightarrow> bool" where
  "is_container v \<longleftrightarrow> cv_type v = T_Array \<or> cv_type v = T_Object"

definition make_null :: "string \<Rightarrow> config_value" where "make_null path = ConfigValue S_Null path"
definition make_bool :: "bool \<Rightarrow> string \<Rightarrow> config_value" where "make_bool value path = ConfigValue (S_Bool value) path"
definition make_int :: "int \<Rightarrow> string \<Rightarrow> config_value" where "make_int value path = ConfigValue (S_Int value) path"
definition make_double :: "double \<Rightarrow> string \<Rightarrow> config_value" where "make_double value path = ConfigValue (S_Double value) path"
definition make_string :: "string \<Rightarrow> string \<Rightarrow> config_value" where "make_string value path = ConfigValue (S_String value) path"
definition make_array :: "config_value list \<Rightarrow> string \<Rightarrow> config_value" where "make_array items path = ConfigValue (S_Array items) path"

definition child_path :: "string \<Rightarrow> string \<Rightarrow> string" where
  "child_path parent key = (if parent = [] then key else parent @ ''.'' @ key)"

text \<open>The two nested loops of \<^verbatim>\<open>make_object\<close>: the first field that repeats an earlier key, for the earliest such key.\<close>

fun duplicate_field :: "(string \<times> config_value) list \<Rightarrow> (string \<times> config_value) option" where
  "duplicate_field [] = None"
| "duplicate_field ((key, v) # members) =
     (case find (\<lambda>f. fst f = key) members of Some f \<Rightarrow> Some f | None \<Rightarrow> duplicate_field members)"

definition make_object :: "(string \<times> config_value) list \<Rightarrow> string \<Rightarrow> config_value cres" where
  "make_object members path =
     (case duplicate_field members of
        Some (key, v) \<Rightarrow>
          let where' = cv_path v
          in Inl ((if where' = [] then child_path path key else where') @ '': duplicate key'')
      | None \<Rightarrow> Inr (ConfigValue (S_Object members) path))"

definition root_name :: "string \<Rightarrow> string" where
  "root_name path = (if path = [] then ''<root>'' else path)"

definition throw_type_error :: "string \<Rightarrow> config_value \<Rightarrow> 'a cres" where
  "throw_type_error expected v =
     Inl ((if cv_path v \<noteq> [] then cv_path v @ '': '' else []) @ ''expected '' @ expected @ '', got '' @ type_name (cv_type v))"

definition throw_missing_key :: "string \<Rightarrow> config_value \<Rightarrow> 'a cres" where
  "throw_missing_key key v = Inl (root_name (cv_path v) @ '': key '' @ [CHR 0x27] @ key @ [CHR 0x27] @ '' not found'')"

definition as_bool :: "config_value \<Rightarrow> bool cres" where
  "as_bool v = (case storage v of S_Bool b \<Rightarrow> Inr b | _ \<Rightarrow> throw_type_error ''bool'' v)"

definition as_int :: "config_value \<Rightarrow> int cres" where
  "as_int v = (case storage v of S_Int i \<Rightarrow> Inr i | _ \<Rightarrow> throw_type_error ''int'' v)"

text \<open>The conversion of an \<^verbatim>\<open>int64_t\<close> to the nearest \<^verbatim>\<open>double\<close>.\<close>

definition int_to_double :: "int \<Rightarrow> double" where
  "int_to_double i = double_mult_int (Double 1 0) i"

definition as_double :: "config_value \<Rightarrow> double cres" where
  "as_double v = (case storage v of S_Double d \<Rightarrow> Inr d | S_Int i \<Rightarrow> Inr (int_to_double i) | _ \<Rightarrow> throw_type_error ''double'' v)"

definition as_string :: "config_value \<Rightarrow> string cres" where
  "as_string v = (case storage v of S_String s \<Rightarrow> Inr s | _ \<Rightarrow> throw_type_error ''string'' v)"

definition as_array :: "config_value \<Rightarrow> config_value list cres" where
  "as_array v = (case storage v of S_Array xs \<Rightarrow> Inr xs | _ \<Rightarrow> throw_type_error ''array'' v)"

definition as_object :: "config_value \<Rightarrow> (string \<times> config_value) list cres" where
  "as_object v = (case storage v of S_Object fs \<Rightarrow> Inr fs | _ \<Rightarrow> throw_type_error ''object'' v)"

definition at_key :: "config_value \<Rightarrow> string \<Rightarrow> config_value cres" where
  "at_key v key =
     bindE (as_object v) (\<lambda>members.
       case find (\<lambda>f. fst f = key) members of Some f \<Rightarrow> Inr (snd f) | None \<Rightarrow> throw_missing_key key v)"

definition at_index :: "config_value \<Rightarrow> nat \<Rightarrow> config_value cres" where
  "at_index v index =
     bindE (as_array v) (\<lambda>items.
       if length items \<le> index
       then Inl (root_name (cv_path v) @ '': index '' @ dec_nat index @ '' out of range, size is '' @ dec_nat (length items))
       else Inr (items ! index))"

definition cv_has :: "config_value \<Rightarrow> string \<Rightarrow> bool" where
  "cv_has v key =
     (if cv_type v \<noteq> T_Object then False
      else case as_object v of Inl e \<Rightarrow> False | Inr members \<Rightarrow> list_ex (\<lambda>f. fst f = key) members)"

definition cv_size :: "config_value \<Rightarrow> nat cres" where
  "cv_size v =
     (case storage v of S_Array xs \<Rightarrow> Inr (length xs) | S_Object fs \<Rightarrow> Inr (length fs)
      | _ \<Rightarrow> throw_type_error ''array or object'' v)"

definition cv_keys :: "config_value \<Rightarrow> string list cres" where
  "cv_keys v = bindE (as_object v) (\<lambda>members. Inr (map fst members))"

section \<open>The JSON front end\<close>

text \<open>
  A number is kept as the library keeps it: unsigned when it is not negative and fits 64 bits, signed when it is negative and
  fits, a \<^verbatim>\<open>double\<close> otherwise. A string may contain zero bytes, which the accessor used here cuts off.
\<close>

datatype json_number = Num_Uint nat | Num_Int int | Num_Double double

datatype json = J_Null | J_True | J_False | J_Number json_number | J_String string | J_Array "json list"
  | J_Object "(string \<times> json) list"

fun convert_number :: "json_number \<Rightarrow> string \<Rightarrow> config_value" where
  "convert_number (Num_Uint n) path = make_int (wrap64 (int n)) path"
| "convert_number (Num_Int i) path = make_int i path"
| "convert_number (Num_Double d) path = make_double d path"

fun convert :: "json \<Rightarrow> string \<Rightarrow> config_value cres"
  and convert_items :: "json list \<Rightarrow> nat \<Rightarrow> string \<Rightarrow> config_value list cres"
  and convert_fields :: "(string \<times> json) list \<Rightarrow> string \<Rightarrow> (string \<times> config_value) list cres" where
  "convert J_Null path = Inr (make_null path)"
| "convert J_True path = Inr (make_bool True path)"
| "convert J_False path = Inr (make_bool False path)"
| "convert (J_Number n) path = Inr (convert_number n path)"
| "convert (J_String s) path = Inr (make_string (c_str s) path)"
| "convert (J_Array xs) path = bindE (convert_items xs 0 path) (\<lambda>items. Inr (make_array items path))"
| "convert (J_Object fs) path = bindE (convert_fields fs path) (\<lambda>members. make_object members path)"
| "convert_items [] index path = Inr []"
| "convert_items (x # xs) index path =
     bindE (convert x (child_path path (dec_nat index))) (\<lambda>v.
     bindE (convert_items xs (index + 1) path) (\<lambda>vs. Inr (v # vs)))"
| "convert_fields [] path = Inr []"
| "convert_fields ((member, x) # fs) path =
     bindE (convert x (child_path path (c_str member))) (\<lambda>v.
     bindE (convert_fields fs path) (\<lambda>vs. Inr ((c_str member, v) # vs)))"

definition json_type_name :: "json \<Rightarrow> string" where
  "json_type_name j =
     (case j of J_Null \<Rightarrow> ''null'' | J_True \<Rightarrow> ''bool'' | J_False \<Rightarrow> ''bool'' | J_Number _ \<Rightarrow> ''number'' | J_String _ \<Rightarrow> ''string''
      | J_Array _ \<Rightarrow> ''array'' | J_Object _ \<Rightarrow> ''object'')"

type_synonym json_parser = "string \<Rightarrow> (nat \<times> string) + json"

definition parse_json :: "json_parser \<Rightarrow> string \<Rightarrow> config_value cres" where
  "parse_json parse content =
     (case parse content of
        Inl (offset, err) \<Rightarrow> Inl (''json parse error at offset '' @ dec_nat offset @ '': '' @ err)
      | Inr document \<Rightarrow>
          (case document of
             J_Object fs \<Rightarrow> convert document []
           | _ \<Rightarrow> Inl (''json root must be an object, got '' @ json_type_name document)))"

section \<open>The configuration\<close>

datatype ConfigFormat = Auto | Json

definition parse_config :: "json_parser \<Rightarrow> string \<Rightarrow> ConfigFormat \<Rightarrow> config_value cres" where
  "parse_config parse content fmt =
     (case fmt of
        Json \<Rightarrow> parse_json parse content
      | Auto \<Rightarrow> Inl ''cannot infer config format for in-memory content, specify the format explicitly'')"

definition extension_of :: "string \<Rightarrow> string" where
  "extension_of path = (if CHR ''.'' \<in> set path then rev (takeWhile (\<lambda>c. c \<noteq> CHR ''.'') (rev path)) else [])"

definition config_format_from_extension :: "string \<Rightarrow> ConfigFormat cres" where
  "config_format_from_extension path =
     (if extension_of path = ''json'' then Inr Json
      else Inl (''cannot infer config format from file '' @ [CHR 0x27] @ path @ [CHR 0x27] @ '', supported extensions: .json''))"

record config =
  format :: ConfigFormat
  root :: config_value
  loaded :: bool

definition Config_new :: "ConfigFormat \<Rightarrow> config" where
  "Config_new fmt = \<lparr>format = fmt, root = ConfigValue S_Null [], loaded = False\<rparr>"

text \<open>An operation that throws leaves the object as it was: the result carries the error beside the new state.\<close>

definition load_string :: "json_parser \<Rightarrow> string \<Rightarrow> ConfigFormat \<Rightarrow> config \<Rightarrow> bool cres \<times> config" where
  "load_string parse content fmt c =
     (let resolved = (if fmt = Auto then format c else fmt)
      in case parse_config parse content resolved of
           Inl e \<Rightarrow> (Inl e, c)
         | Inr r \<Rightarrow> (Inr True, c\<lparr>format := resolved, root := r, loaded := True\<rparr>))"

text \<open>A file that does not open, one that cannot be read to its end, or its content.\<close>

datatype file_read = Cannot_Open | Cannot_Read | File_Content string

definition load_file :: "json_parser \<Rightarrow> (string \<Rightarrow> file_read) \<Rightarrow> string \<Rightarrow> config \<Rightarrow> bool cres \<times> config" where
  "load_file parse fs path c =
     (case fs path of
        Cannot_Open \<Rightarrow> (Inl (''cannot open config file '' @ [CHR 0x27] @ path @ [CHR 0x27]), c)
      | Cannot_Read \<Rightarrow> (Inl (''cannot read config file '' @ [CHR 0x27] @ path @ [CHR 0x27]), c)
      | File_Content content \<Rightarrow>
          (case if format c = Auto then config_format_from_extension path else Inr (format c) of
             Inl e \<Rightarrow> (Inl e, c)
           | Inr resolved \<Rightarrow> load_string parse content resolved c))"

definition is_index :: "string \<Rightarrow> bool" where
  "is_index segment \<longleftrightarrow> segment \<noteq> [] \<and> list_all is_digit segment"

text \<open>One segment of a path, from the node it is looked up in.\<close>

definition find_segment :: "string \<Rightarrow> config_value \<Rightarrow> config_value option" where
  "find_segment segment current =
     (if segment = [] then None
      else case storage current of
             S_Array items \<Rightarrow>
               if is_index segment
               then if 19 < length segment then None
                    else let index = nat_of_dec segment 0
                         in if length items \<le> index then None else Some (items ! index)
               else None
           | S_Object members \<Rightarrow> map_option snd (find (\<lambda>f. fst f = segment) members)
           | _ \<Rightarrow> None)"

lemma find_sub_length: "find_sub pat s = Some k \<Longrightarrow> k + length pat \<le> length s"
  using find_sub_SomeD[of pat s k] occurs_at_bound[of pat s k] by simp

function find_from :: "string \<Rightarrow> config_value \<Rightarrow> config_value option" where
  "find_from rest current =
     (case find_sub ''.'' rest of
        None \<Rightarrow> find_segment rest current
      | Some dot \<Rightarrow>
          (case find_segment (take dot rest) current of
             None \<Rightarrow> None
           | Some next \<Rightarrow> find_from (drop (dot + 1) rest) next))"
  by pat_completeness auto
termination
  by (relation "measure (\<lambda>(rest, current). length rest)") (auto dest: find_sub_length)

declare find_from.simps [simp del]

definition Config_find :: "config \<Rightarrow> string \<Rightarrow> config_value option cres" where
  "Config_find c path =
     (if \<not> loaded c then Inl ''config not loaded''
      else Inr (if path = [] then Some (root c) else find_from path (root c)))"

definition Config_node :: "config \<Rightarrow> string \<Rightarrow> config_value cres" where
  "Config_node c path =
     bindE (Config_find c path) (\<lambda>found.
       case found of Some v \<Rightarrow> Inr v | None \<Rightarrow> Inl (''config key '' @ [CHR 0x27] @ path @ [CHR 0x27] @ '' not found''))"

definition Config_has :: "config \<Rightarrow> string \<Rightarrow> bool cres" where
  "Config_has c path = bindE (Config_find c path) (\<lambda>found. Inr (found \<noteq> None))"

text \<open>The instances of \<^verbatim>\<open>get<T>\<close>; \<open>get_unsigned w\<close> and \<open>get_signed w\<close> are those for integers of \<open>w\<close> bits.\<close>

definition get_bool :: "config \<Rightarrow> string \<Rightarrow> bool cres" where
  "get_bool c path = bindE (Config_node c path) as_bool"



definition get_double :: "config \<Rightarrow> string \<Rightarrow> double cres" where
  "get_double c path = bindE (Config_node c path) as_double"

text \<open>A \<^verbatim>\<open>float\<close> has 24 bits of mantissa.\<close>

definition double_to_float :: "double \<Rightarrow> double" where
  "double_to_float x =
     (let n = nat \<bar>mant x\<bar>; k = bitlen n - 24
      in Double (sgn (mant x) * int (round_half_even n k)) (expo x + int k))"

definition get_float :: "config \<Rightarrow> string \<Rightarrow> double cres" where
  "get_float c path = bindE (Config_node c path) (\<lambda>value. bindE (as_double value) (\<lambda>d. Inr (double_to_float d)))"

definition get_string :: "config \<Rightarrow> string \<Rightarrow> string cres" where
  "get_string c path = bindE (Config_node c path) as_string"

definition get_or :: "(config \<Rightarrow> string \<Rightarrow> 'a cres) \<Rightarrow> config \<Rightarrow> string \<Rightarrow> 'a \<Rightarrow> 'a cres" where
  "get_or get c path fallback =
     bindE (Config_has c path) (\<lambda>h. if \<not> h then Inr fallback else get c path)"

section \<open>Well-typed trees\<close>

fun wf_value :: "config_value \<Rightarrow> bool" and wf_storage :: "storage \<Rightarrow> bool" where
  "wf_value (ConfigValue s path) \<longleftrightarrow> wf_storage s"
| "wf_storage (S_Int i) \<longleftrightarrow> in_i64 i"
| "wf_storage (S_Array xs) \<longleftrightarrow> (\<forall>x \<in> set xs. wf_value x)"
| "wf_storage (S_Object fs) \<longleftrightarrow> distinct (map fst fs) \<and> (\<forall>f \<in> set fs. wf_value (snd f))"
| "wf_storage _ \<longleftrightarrow> True"

text \<open>The path a node carries is the way from the root to it.\<close>

fun labelled :: "string \<Rightarrow> config_value \<Rightarrow> bool"
  and labelled_items :: "string \<Rightarrow> nat \<Rightarrow> config_value list \<Rightarrow> bool" where
  "labelled p (ConfigValue s path) \<longleftrightarrow> path = p
     \<and> (case s of S_Array xs \<Rightarrow> labelled_items p 0 xs | S_Object fs \<Rightarrow> (\<forall>f \<in> set fs. labelled (child_path p (fst f)) (snd f)) | _ \<Rightarrow> True)"
| "labelled_items p i [] \<longleftrightarrow> True"
| "labelled_items p i (x # xs) \<longleftrightarrow> labelled (child_path p (dec_nat i)) x \<and> labelled_items p (Suc i) xs"

fun number_ok :: "json_number \<Rightarrow> bool" where
  "number_ok (Num_Uint n) \<longleftrightarrow> n < 2 ^ 64"
| "number_ok (Num_Int i) \<longleftrightarrow> in_i64 i"
| "number_ok (Num_Double d) \<longleftrightarrow> True"

fun json_ok :: "json \<Rightarrow> bool" where
  "json_ok (J_Number n) \<longleftrightarrow> number_ok n"
| "json_ok (J_Array xs) \<longleftrightarrow> (\<forall>x \<in> set xs. json_ok x)"
| "json_ok (J_Object fs) \<longleftrightarrow> (\<forall>f \<in> set fs. json_ok (snd f))"
| "json_ok _ \<longleftrightarrow> True"

text \<open>What the library documents of the numbers in the documents it returns.\<close>

definition parser_documented :: "json_parser \<Rightarrow> bool" where
  "parser_documented parse \<longleftrightarrow> (\<forall>content j. parse content = Inr j \<longrightarrow> json_ok j)"

lemma find_SomeD: "find P xs = Some x \<Longrightarrow> x \<in> set xs \<and> P x"
  by (induction xs) (auto split: if_splits)

lemma duplicate_field_None: "duplicate_field fs = None \<longleftrightarrow> distinct (map fst fs)"
proof (induction fs rule: duplicate_field.induct)
  case (2 key v fs)
  show ?case
  proof (cases "find (\<lambda>f. fst f = key) fs")
    case None
    then have "key \<notin> fst ` set fs" by (auto simp: find_None_iff)
    then show ?thesis using 2 None by simp
  next
    case (Some f)
    then have "key \<in> fst ` set fs" using find_SomeD[OF Some] by auto
    then show ?thesis using Some by simp
  qed
qed simp

lemma make_object_Inr: "make_object fs p = Inr v \<longleftrightarrow> distinct (map fst fs) \<and> v = ConfigValue (S_Object fs) p"
  by (auto simp: make_object_def duplicate_field_None[symmetric] Let_def split: option.splits)

lemma convert_wf:
  "convert j p = Inr v \<Longrightarrow> json_ok j \<Longrightarrow> wf_value v"
  "convert_items js i p = Inr vs \<Longrightarrow> \<forall>j \<in> set js. json_ok j \<Longrightarrow> \<forall>x \<in> set vs. wf_value x"
  "convert_fields fs p = Inr ws \<Longrightarrow> \<forall>f \<in> set fs. json_ok (snd f) \<Longrightarrow> \<forall>f \<in> set ws. wf_value (snd f)"
proof (induction j p and js i p and fs p arbitrary: v and vs and ws rule: convert_convert_items_convert_fields.induct)
  case (4 n path)
  then show ?case
    by (cases n) (auto simp: make_int_def make_double_def in_i64_wrap64)
next
  case (7 fs path)
  then show ?case
    by (auto simp: bindE_Inr_iff make_object_Inr)
next
  case (11 member x fs path)
  then obtain y ys where "convert x (child_path path (c_str member)) = Inr y" "convert_fields fs path = Inr ys" "ws = (c_str member, y) # ys"
    by (auto simp: bindE_Inr_iff)
  then show ?case using 11 by simp
qed (auto simp: bindE_Inr_iff make_null_def make_bool_def make_string_def make_array_def)

lemma convert_labelled:
  "convert j p = Inr v \<Longrightarrow> labelled p v"
  "convert_items js i p = Inr vs \<Longrightarrow> labelled_items p i vs"
  "convert_fields fs p = Inr ws \<Longrightarrow> \<forall>f \<in> set ws. labelled (child_path p (fst f)) (snd f)"
proof (induction j p and js i p and fs p arbitrary: v and vs and ws rule: convert_convert_items_convert_fields.induct)
  case (4 n path)
  then show ?case by (cases n) (auto simp: make_int_def make_double_def)
next
  case (7 fs path)
  then show ?case by (auto simp: bindE_Inr_iff make_object_Inr)
next
  case (11 member x fs path)
  then obtain y ys where "convert x (child_path path (c_str member)) = Inr y" "convert_fields fs path = Inr ys" "ws = (c_str member, y) # ys"
    by (auto simp: bindE_Inr_iff)
  then show ?case using 11 by simp
qed (auto simp: bindE_Inr_iff make_null_def make_bool_def make_string_def make_array_def)

lemma wf_find_segment: "wf_value v \<Longrightarrow> find_segment seg v = Some w \<Longrightarrow> wf_value w"
  by (cases v; cases "storage v")
    (auto simp: find_segment_def Let_def split: if_splits dest!: find_SomeD)

lemma wf_find_from: "wf_value v \<Longrightarrow> find_from rest v = Some w \<Longrightarrow> wf_value w"
proof (induction rest v rule: find_from.induct)
  case (1 rest current)
  then show ?case
    by (auto simp: find_from.simps[of rest current] intro: wf_find_segment split: option.splits)
qed

section \<open>Dotted paths\<close>

text \<open>A path is canonical when the numbers in it are written without leading zeros.\<close>

definition segment_ok :: "string \<Rightarrow> bool" where
  "segment_ok seg \<longleftrightarrow> (is_index seg \<longrightarrow> seg = dec_nat (nat_of_dec seg 0))"

function canonical :: "string \<Rightarrow> bool" where
  "canonical rest =
     (case find_sub ''.'' rest of
        None \<Rightarrow> segment_ok rest
      | Some dot \<Rightarrow> segment_ok (take dot rest) \<and> canonical (drop (dot + 1) rest))"
  by pat_completeness auto

termination
  by (relation "measure length") (auto dest: find_sub_length)

declare canonical.simps [simp del]

lemma labelled_items_nth: "labelled_items p i xs \<Longrightarrow> j < length xs \<Longrightarrow> labelled (child_path p (dec_nat (i + j))) (xs ! j)"
proof (induction xs arbitrary: i j)
  case (Cons x xs)
  then show ?case using Cons.IH[of "Suc i" "j - 1"] by (cases j) auto
qed simp

lemma labelled_find_segment:
  assumes "labelled p v" and "find_segment seg v = Some w" and "segment_ok seg"
  shows "labelled (child_path p seg) w \<and> seg \<noteq> []"
proof -
  obtain s where v: "v = ConfigValue s p" using assms(1) by (cases v) auto
  show ?thesis
  proof (cases s)
    case (S_Array xs)
    then have i: "is_index seg" "nat_of_dec seg 0 < length xs" "w = xs ! nat_of_dec seg 0" "seg \<noteq> []"
      using assms(2) v by (auto simp: find_segment_def Let_def split: if_splits)
    then have "seg = dec_nat (nat_of_dec seg 0)" using assms(3) by (simp add: segment_ok_def)
    then show ?thesis
      using labelled_items_nth[of p 0 xs "nat_of_dec seg 0"] assms(1) v S_Array i by simp
  next
    case (S_Object fs)
    then obtain f where "find (\<lambda>f. fst f = seg) fs = Some f" "w = snd f" "seg \<noteq> []"
      using assms(2) v by (auto simp: find_segment_def split: if_splits)
    then show ?thesis
      using find_SomeD[of "\<lambda>f. fst f = seg" fs f] assms(1) v S_Object by auto
  qed (use assms(2) v in \<open>auto simp: find_segment_def split: if_splits\<close>)
qed

lemma labelled_find_from:
  "labelled p v \<Longrightarrow> find_from rest v = Some w \<Longrightarrow> canonical rest \<Longrightarrow> labelled (child_path p rest) w"
proof (induction rest v arbitrary: p rule: find_from.induct)
  case (1 rest v)
  show ?case
  proof (cases "find_sub ''.'' rest")
    case None
    then show ?thesis
      using 1(2-4) labelled_find_segment[of p v rest w] by (simp add: find_from.simps[of rest v] canonical.simps[of rest])
  next
    case (Some dot)
    have rest: "rest = take dot rest @ ''.'' @ drop (dot + 1) rest"
      using occurs_at_split[of "''.''" rest dot] find_sub_SomeD[OF Some] by simp
    obtain x where x: "find_segment (take dot rest) v = Some x" "find_from (drop (dot + 1) rest) x = Some w"
      using 1(3) Some by (auto simp: find_from.simps[of rest v] split: option.splits)
    have c: "segment_ok (take dot rest)" "canonical (drop (dot + 1) rest)"
      using 1(4) Some by (simp_all add: canonical.simps[of rest])
    have lab: "labelled (child_path p (take dot rest)) x" "take dot rest \<noteq> []"
      using labelled_find_segment[OF 1(2) x(1) c(1)] by blast+
    have "labelled (child_path (child_path p (take dot rest)) (drop (dot + 1) rest)) w"
      using 1(1)[OF Some x(1) lab(1) x(2) c(2)] .
    moreover have "child_path (child_path p (take dot rest)) (drop (dot + 1) rest) = child_path p rest"
      using lab(2) arg_cong[OF rest, of "child_path p"] by (simp add: child_path_def)
    ultimately show ?thesis by simp
  qed
qed

section \<open>Properties\<close>

lemma load_string_Inr:
  assumes "load_string parse content fmt c = (Inr True, c')"
  shows "\<exists>fs r. parse content = Inr (J_Object fs) \<and> convert (J_Object fs) [] = Inr r \<and> root c' = r \<and> loaded c' \<and> format c' = Json"
  using assms by (auto simp: load_string_def parse_config_def parse_json_def Let_def
      split: sum.splits ConfigFormat.splits json.splits if_splits prod.splits)

text \<open>
  C22: A configuration that has been loaded is well typed, and its typed access is safe. Whatever the file, every node a path leads to has integers
  within \<^verbatim>\<open>int64_t\<close> and objects without repeated keys, the root is an object, and each accessor gives a value exactly on the
  nodes of its type (an integer also as a floating-point number) and a \<^verbatim>\<open>ConfigError\<close> on all others.
\<close>
theorem loaded_config_is_typed:
  assumes "parser_documented parse" and "load_string parse content fmt c = (Inr True, c')" and "Config_find c' path = Inr (Some v)"
  shows "cv_type (root c') = T_Object \<and> wf_value v
    \<and> ((\<exists>b. as_bool v = Inr b) \<longleftrightarrow> cv_type v = T_Bool) \<and> ((\<exists>i. as_int v = Inr i \<and> in_i64 i) \<longleftrightarrow> cv_type v = T_Int)
    \<and> ((\<exists>d. as_double v = Inr d) \<longleftrightarrow> cv_type v \<in> {T_Int, T_Double}) \<and> ((\<exists>s. as_string v = Inr s) \<longleftrightarrow> cv_type v = T_String)
    \<and> ((\<exists>xs. as_array v = Inr xs) \<longleftrightarrow> cv_type v = T_Array)
    \<and> ((\<exists>fs. as_object v = Inr fs \<and> distinct (map fst fs)) \<longleftrightarrow> cv_type v = T_Object)"
proof -
  obtain fs r where r: "parse content = Inr (J_Object fs)" "convert (J_Object fs) [] = Inr r" "root c' = r" "loaded c'"
    using load_string_Inr[OF assms(2)] by blast
  have wr: "wf_value r"
    using convert_wf(1)[OF r(2)] assms(1) r(1) unfolding parser_documented_def by blast
  have "wf_value v"
    using assms(3) r wr wf_find_from[of r path v] by (auto simp: Config_find_def split: if_splits)
  then have "wf_storage (storage v)" by (cases v) simp
  moreover have "cv_type r = T_Object"
    using r(2) by (auto simp: bindE_Inr_iff make_object_Inr cv_type_def)
  ultimately show ?thesis
    using \<open>wf_value v\<close> r(3)
    by (cases "storage v") (auto simp: cv_type_def as_bool_def as_int_def as_double_def as_string_def as_array_def as_object_def throw_type_error_def)
qed

text \<open>
  C36: The path a node carries, which is what error messages name, is a path that leads to it: whatever canonical path finds a node of a loaded
  configuration is the path of that node.
\<close>
theorem node_paths_locate:
  assumes "load_string parse content fmt c = (Inr True, c')" and "Config_find c' path = Inr (Some v)" and "canonical path"
  shows "cv_path v = path"
proof -
  obtain fs r where r: "convert (J_Object fs) [] = Inr r" "root c' = r" "loaded c'"
    using load_string_Inr[OF assms(1)] by blast
  have lab: "labelled [] r" using convert_labelled(1)[OF r(1)] .
  have "labelled (child_path [] path) v"
  proof (cases "path = []")
    case True
    then show ?thesis using assms(2) r lab by (simp add: Config_find_def child_path_def)
  next
    case False
    then show ?thesis using assms(2,3) r labelled_find_from[OF lab] by (simp add: Config_find_def)
  qed
  then show ?thesis by (cases v) (simp add: child_path_def)
qed

text \<open>
  Loading is all or nothing, and defaults never hide a mistake. A load that fails leaves the configuration that was there; \<^verbatim>\<open>get_or\<close> gives the default
  exactly when the path leads nowhere, and otherwise what \<^verbatim>\<open>get\<close> gives, its type errors included.
\<close>
theorem load_and_default:
  "(fst (load_file parse fs file c) = Inl e \<longrightarrow> snd (load_file parse fs file c) = c)
   \<and> (fst (load_string parse content fmt c) = Inl e \<longrightarrow> snd (load_string parse content fmt c) = c)
   \<and> get_or get c path d = (case Config_find c path of Inl err \<Rightarrow> Inl err | Inr None \<Rightarrow> Inr d | Inr (Some v) \<Rightarrow> get c path)"
proof -
  have s: "fst (load_string parse content fmt c) = Inl e \<longrightarrow> snd (load_string parse content fmt c) = c" for content fmt
    by (auto simp: load_string_def Let_def split: sum.splits)
  have "fst (load_file parse fs file c) = Inl e \<longrightarrow> snd (load_file parse fs file c) = c"
    using s by (auto simp: load_file_def split: file_read.splits sum.splits)
  moreover have "get_or get c path d = (case Config_find c path of Inl err \<Rightarrow> Inl err | Inr None \<Rightarrow> Inr d | Inr (Some v) \<Rightarrow> get c path)"
    by (auto simp: get_or_def Config_has_def split: sum.splits option.splits)
  ultimately show ?thesis using s by blast
qed

text \<open>A document with the entries the witnesses read.\<close>

definition demo_parser :: json_parser where
  "demo_parser content = Inr (J_Object [(''port'', J_Number (Num_Uint 2121)), (''big'', J_Number (Num_Uint (2 ^ 63 + 1))),
     (''wide'', J_Number (Num_Uint (2 ^ 32 + 5))), (''hosts'', J_Array [J_String ''a'', J_Object [(''name'', J_String ''b'')]])])"

definition demo_config :: config where
  "demo_config = snd (load_string demo_parser [] Json (Config_new Auto))"

lemma demo_documented: "parser_documented demo_parser"
  by (simp add: parser_documented_def demo_parser_def)

lemma char_digits: "char_of (48 :: nat) = CHR ''0''" "char_of (49 :: nat) = CHR ''1''"
  by code_simp+

lemma demo_convert:
  "convert (J_Object [(''port'', J_Number (Num_Uint 2121)), (''big'', J_Number (Num_Uint (2 ^ 63 + 1))),
     (''wide'', J_Number (Num_Uint (2 ^ 32 + 5))), (''hosts'', J_Array [J_String ''a'', J_Object [(''name'', J_String ''b'')]])]) []
   = Inr (ConfigValue (S_Object [(''port'', ConfigValue (S_Int 2121) ''port''), (''big'', ConfigValue (S_Int (1 - 2 ^ 63)) ''big''),
       (''wide'', ConfigValue (S_Int (2 ^ 32 + 5)) ''wide''),
       (''hosts'', ConfigValue (S_Array [ConfigValue (S_String ''a'') ''hosts.0'',
          ConfigValue (S_Object [(''name'', ConfigValue (S_String ''b'') ''hosts.1.name'')]) ''hosts.1'']) ''hosts'')]) [])"
  by (simp add: c_str_def child_path_def make_int_def make_string_def make_array_def make_object_def wrap64_def dec_nat.simps char_digits)

lemma demo_load: "load_string demo_parser [] Json (Config_new Auto) = (Inr True, demo_config)"
  using demo_convert
  by (simp add: demo_config_def load_string_def parse_config_def parse_json_def demo_parser_def Config_new_def)

lemma demo_root:
  "loaded demo_config \<and> root demo_config = ConfigValue (S_Object [(''port'', ConfigValue (S_Int 2121) ''port''), (''big'', ConfigValue (S_Int (1 - 2 ^ 63)) ''big''),
       (''wide'', ConfigValue (S_Int (2 ^ 32 + 5)) ''wide''),
       (''hosts'', ConfigValue (S_Array [ConfigValue (S_String ''a'') ''hosts.0'',
          ConfigValue (S_Object [(''name'', ConfigValue (S_String ''b'') ''hosts.1.name'')]) ''hosts.1'']) ''hosts'')]) []"
  using demo_convert by (simp add: demo_config_def load_string_def parse_config_def parse_json_def demo_parser_def Config_new_def)

lemma demo_find: "Config_find demo_config ''hosts.1.name'' = Inr (Some (ConfigValue (S_String ''b'') ''hosts.1.name''))"
  using demo_root by (simp add: Config_find_def find_from.simps find_segment_def is_index_def is_digit_def digit_val_def)

theorem loaded_config_is_typed_witness:
  "cv_type (root demo_config) = T_Object \<and> (\<exists>s. as_string (ConfigValue (S_String ''b'') ''hosts.1.name'') = Inr s)"
  using loaded_config_is_typed[OF demo_documented demo_load demo_find] by (simp add: cv_type_def)

theorem node_paths_locate_witness:
  "canonical ''hosts.1.name'' \<and> cv_path (ConfigValue (S_String ''b'') ''hosts.1.name'') = ''hosts.1.name''"
proof -
  have c: "canonical ''hosts.1.name''"
    by (simp add: canonical.simps segment_ok_def is_index_def is_digit_def digit_val_def dec_nat.simps char_digits)
  show ?thesis using c node_paths_locate[OF demo_load demo_find c] by blast
qed

theorem load_and_default_witness:
  "snd (load_file demo_parser (\<lambda>_. Cannot_Open) ''x.json'' demo_config) = demo_config
   \<and> get_or get_string demo_config ''hosts.1.name'' ''d'' = get_string demo_config ''hosts.1.name''"
proof -
  have "fst (load_file demo_parser (\<lambda>_. Cannot_Open) ''x.json'' demo_config) = Inl (''cannot open config file '' @ [CHR 0x27] @ ''x.json'' @ [CHR 0x27])"
    by (simp add: load_file_def)
  then show ?thesis
    using load_and_default[of demo_parser "\<lambda>_. Cannot_Open" "''x.json''" demo_config _ _ _ get_string "''hosts.1.name''" "''d''"] demo_find by simp
qed



end
