(* ===== verification/Sys_Utils.thy ===== *)
theory Sys_Utils
  imports Ftp_Session
begin

text \<open>
  The system utilities of the C example, \<^verbatim>\<open>example/miniftpd_c/src/sysutils.cpp\<close> and \<^verbatim>\<open>str.cpp\<close>.

  A stream socket is the bytes still to be read from it; when they are used up the peer has closed. The answers of the kernel to the calls of
  a function are a list: a call is interrupted, fails with an error number, or gives (takes) at least one byte and at most what it was asked for. A function that runs out
  of answers is still waiting, which is \<open>None\<close>.
\<close>

section \<open>Reading and writing\<close>

definition EINTR :: int where "EINTR = 4"
definition ETIMEDOUT :: int where "ETIMEDOUT = 110"
definition EINPROGRESS :: int where "EINPROGRESS = 115"

datatype answer = Intr | Fail int | Give nat

text \<open>The bytes of \<^verbatim>\<open>read\<close> or \<^verbatim>\<open>recv\<close>; none at the end of the stream.\<close>

fun sys_read :: "answer \<Rightarrow> nat \<Rightarrow> char list \<Rightarrow> int + char list" where
  "sys_read Intr len s = Inl EINTR"
| "sys_read (Fail e) len s = Inl e"
| "sys_read (Give n) len s = Inr (take (min (Suc n) len) s)"

fun readn_loop :: "answer list \<Rightarrow> nat \<Rightarrow> char list \<Rightarrow> char list \<Rightarrow> ((int + char list) \<times> answer list \<times> char list) option" where
  "readn_loop as 0 buf s = Some (Inr buf, as, s)"
| "readn_loop [] nleft buf s = None"
| "readn_loop (a # as) nleft buf s =
     (case sys_read a nleft s of
        Inl err \<Rightarrow> if err = EINTR then readn_loop as nleft buf s else Some (Inl err, as, s)
      | Inr bs \<Rightarrow>
          if bs = [] then Some (Inr buf, as, s)
          else readn_loop as (nleft - length bs) (buf @ bs) (drop (length bs) s))"

text \<open>The number of bytes it returns is the length of what it has put into the buffer.\<close>

definition readn :: "nat \<Rightarrow> answer list \<Rightarrow> char list \<Rightarrow> ((int + char list) \<times> answer list \<times> char list) option" where
  "readn count as s = readn_loop as count [] s"

text \<open>\<^verbatim>\<open>write\<close> may also take nothing.\<close>

datatype wanswer = W_Intr | W_Fail int | W_Put nat

fun writen_loop :: "wanswer list \<Rightarrow> char list \<Rightarrow> char list \<Rightarrow> ((int + unit) \<times> char list) option" where
  "writen_loop as [] sent = Some (Inr (), sent)"
| "writen_loop [] data sent = None"
| "writen_loop (a # as) data sent =
     (case a of
        W_Intr \<Rightarrow> writen_loop as data sent
      | W_Fail e \<Rightarrow> if e = EINTR then writen_loop as data sent else Some (Inl e, sent)
      | W_Put n \<Rightarrow>
          if n = 0 then Some (Inl 0, sent)
          else writen_loop as (drop n data) (sent @ take n data))"

definition writen :: "char list \<Rightarrow> wanswer list \<Rightarrow> char list \<Rightarrow> ((int + unit) \<times> char list) option" where
  "writen buf as sent = writen_loop as buf sent"

fun recv_peek :: "answer list \<Rightarrow> nat \<Rightarrow> char list \<Rightarrow> ((int + char list) \<times> answer list) option" where
  "recv_peek [] len s = None"
| "recv_peek (a # as) len s =
     (case sys_read a len s of
        Inl err \<Rightarrow> if err = EINTR then recv_peek as len s else Some (Inl err, as)
      | Inr bs \<Rightarrow> Some (Inr bs, as))"

datatype line_result = RL_Line nat | RL_Eof | RL_Error int | RL_Exit

fun find_newline :: "char list \<Rightarrow> nat option" where
  "find_newline [] = None"
| "find_newline (c # cs) = (if c = CHR 0x0A then Some 0 else map_option Suc (find_newline cs))"

lemma recv_peek_shorter: "recv_peek as len s = Some (r, as') \<Longrightarrow> length as' < length as"
  by (induction as len s rule: recv_peek.induct) (auto split: sum.splits if_splits)

lemma readn_loop_shorter: "readn_loop as n buf s = Some (r, as', s') \<Longrightarrow> length as' \<le> length as"
  by (induction as n buf s rule: readn_loop.induct) (fastforce split: sum.splits if_splits)+

function readline_loop :: "answer list \<Rightarrow> nat \<Rightarrow> char list \<Rightarrow> char list \<Rightarrow> (line_result \<times> char list \<times> answer list \<times> char list) option" where
  "readline_loop as nleft buf s =
     (case recv_peek as nleft s of
        None \<Rightarrow> None
      | Some (Inl err, as1) \<Rightarrow> Some (RL_Error err, buf, as1, s)
      | Some (Inr bs, as1) \<Rightarrow>
          if bs = [] then Some (RL_Eof, buf, as1, s)
          else (case find_newline bs of
             Some i \<Rightarrow>
               (case readn (i + 1) as1 s of
                  None \<Rightarrow> None
                | Some (Inl err, as2, s2) \<Rightarrow> Some (RL_Exit, buf, as2, s2)
                | Some (Inr line, as2, s2) \<Rightarrow>
                    if length line \<noteq> i + 1 then Some (RL_Exit, buf, as2, s2)
                    else Some (RL_Line (i + 1), buf @ line, as2, s2))
           | None \<Rightarrow>
               if nleft \<le> length bs then Some (RL_Exit, buf, as1, s)
               else (case readn (length bs) as1 s of
                  None \<Rightarrow> None
                | Some (Inl err, as2, s2) \<Rightarrow> Some (RL_Exit, buf, as2, s2)
                | Some (Inr part, as2, s2) \<Rightarrow>
                    if length part \<noteq> length bs then Some (RL_Exit, buf, as2, s2)
                    else readline_loop as2 (nleft - length bs) (buf @ part) s2)))"
  by pat_completeness auto

termination
  by (relation "measure (\<lambda>(as, nleft, buf, s). length as)")
    (auto simp: readn_def dest!: recv_peek_shorter readn_loop_shorter)

declare readline_loop.simps [simp del]

definition readline :: "nat \<Rightarrow> answer list \<Rightarrow> char list \<Rightarrow> (line_result \<times> char list \<times> answer list \<times> char list) option" where
  "readline maxline as s = readline_loop as maxline [] s"

section \<open>Facts\<close>

fun is_give :: "answer \<Rightarrow> bool" where
  "is_give (Give n) \<longleftrightarrow> True"
| "is_give _ \<longleftrightarrow> False"

fun is_fail :: "answer \<Rightarrow> bool" where
  "is_fail (Fail e) \<longleftrightarrow> e \<noteq> EINTR"
| "is_fail _ \<longleftrightarrow> False"

definition gives :: "answer list \<Rightarrow> nat" where
  "gives as = length (filter is_give as)"

lemma gives_simps [simp]: "gives [] = 0" "gives (a # as) = (if is_give a then Suc (gives as) else gives as)"
  by (simp_all add: gives_def)

lemma readn_loop_data:
  "readn_loop as n buf s = Some (Inr out, as', s') \<Longrightarrow> out = buf @ take n s \<and> s' = drop n s"
proof (induction as n buf s arbitrary: out as' s' rule: readn_loop.induct)
  case (3 a as nleft buf s)
  show ?case
  proof (cases "sys_read a (Suc nleft) s")
    case (Inl err)
    then show ?thesis using 3 by (auto split: if_splits)
  next
    case (Inr bs)
    then obtain n where n: "a = Give n" "bs = take (min (Suc n) (Suc nleft)) s" by (cases a) auto
    then have pre: "bs = take (length bs) s" "length bs \<le> Suc nleft" "bs = [] \<longrightarrow> s = []"
      by (auto simp: min_def)
    show ?thesis
    proof (cases "bs = []")
      case True
      then show ?thesis using 3(3) Inr pre(3) by simp
    next
      case False
      then have "readn_loop as (Suc nleft - length bs) (buf @ bs) (drop (length bs) s) = Some (Inr out, as', s')"
        using 3(3) Inr by simp
      then have "out = (buf @ bs) @ take (Suc nleft - length bs) (drop (length bs) s)"
        "s' = drop (Suc nleft - length bs) (drop (length bs) s)"
        using 3(2)[OF Inr False] by blast+
      moreover have "bs @ take (Suc nleft - length bs) (drop (length bs) s) = take (Suc nleft) s"
        using pre(1,2) take_add[of "length bs" "Suc nleft - length bs" s] by simp
      ultimately show ?thesis using pre(2) by simp
    qed
  qed
qed auto

lemma readn_loop_returns:
  "\<not> list_ex is_fail as \<Longrightarrow> n \<le> length s \<Longrightarrow> n \<le> gives as
   \<Longrightarrow> \<exists>out as' s'. readn_loop as n buf s = Some (Inr out, as', s') \<and> \<not> list_ex is_fail as' \<and> gives as \<le> gives as' + n"
proof (induction as n buf s rule: readn_loop.induct)
  case (3 a as nleft buf s)
  show ?case
  proof (cases a)
    case (Give n)
    define bs where "bs = take (min (Suc n) (Suc nleft)) s"
    have len: "length bs = min (Suc n) (Suc nleft)" using 3(4) by (simp add: bs_def)
    then have ne: "bs \<noteq> []" by auto
    have sys: "sys_read a (Suc nleft) s = Inr bs" using Give by (simp add: bs_def)
    have "\<exists>out as' s'. readn_loop as (Suc nleft - length bs) (buf @ bs) (drop (length bs) s) = Some (Inr out, as', s')
      \<and> \<not> list_ex is_fail as' \<and> gives as \<le> gives as' + (Suc nleft - length bs)"
      using 3(3-5) len Give by (intro 3(2)[OF sys ne]) auto
    then obtain out as' s' where "readn_loop as (Suc nleft - length bs) (buf @ bs) (drop (length bs) s) = Some (Inr out, as', s')"
      "\<not> list_ex is_fail as'" "gives as \<le> gives as' + (Suc nleft - length bs)" by blast
    moreover have "readn_loop (a # as) (Suc nleft) buf s = readn_loop as (Suc nleft - length bs) (buf @ bs) (drop (length bs) s)"
      using sys ne by simp
    ultimately show ?thesis using Give len by auto
  next
    case Intr
    then show ?thesis using 3(1)[of EINTR] 3(3-5) by simp
  next
    case (Fail e)
    then show ?thesis using 3(1)[of EINTR] 3(3-5) by simp
  qed
qed auto

definition line_of :: "char list \<Rightarrow> char list" where
  "line_of s = takeWhile (\<lambda>c. c \<noteq> CHR 0x0A) s @ [CHR 0x0A]"

lemma find_newline_Some: "find_newline xs = Some i \<Longrightarrow> i < length xs \<and> take (Suc i) xs = line_of (xs @ ys) \<and> length (line_of (xs @ ys)) = Suc i"
  by (induction xs arbitrary: i) (auto simp: line_of_def split: if_splits)

lemma find_newline_None: "find_newline xs = None \<Longrightarrow> line_of (xs @ ys) = xs @ line_of ys \<and> CHR 0x0A \<notin> set xs"
  by (induction xs) (auto simp: line_of_def split: if_splits)

lemma line_of_prefix: "CHR 0x0A \<in> set s \<Longrightarrow> take (length (line_of s)) s = line_of s \<and> length (line_of s) \<le> length s"
  by (induction s) (auto simp: line_of_def)

lemma recv_peek_gives:
  "\<not> list_ex is_fail as \<Longrightarrow> 0 < gives as
   \<Longrightarrow> \<exists>n as1. recv_peek as len s = Some (Inr (take (min (Suc n) len) s), as1) \<and> gives as = Suc (gives as1) \<and> \<not> list_ex is_fail as1"
proof (induction as)
  case (Cons a as)
  then show ?case by (cases a) auto
qed simp

lemma readn_exact:
  assumes "\<not> list_ex is_fail as" and "n \<le> length s" and "n \<le> gives as"
  shows "\<exists>as'. readn n as s = Some (Inr (take n s), as', drop n s) \<and> \<not> list_ex is_fail as' \<and> gives as \<le> gives as' + n"
proof -
  obtain out as' s' where r: "readn_loop as n [] s = Some (Inr out, as', s')" "\<not> list_ex is_fail as'" "gives as \<le> gives as' + n"
    using readn_loop_returns[OF assms, of "[]"] by blast
  then show ?thesis using readn_loop_data[OF r(1)] by (simp add: readn_def)
qed

lemma readline_loop_line:
  assumes "\<not> list_ex is_fail as" and "CHR 0x0A \<in> set s" and "length (line_of s) \<le> nleft" and "2 * length (line_of s) \<le> gives as"
  shows "\<exists>r as'. readline_loop as nleft buf s = Some (RL_Line r, buf @ line_of s, as', drop (length (line_of s)) s)
    \<and> 0 < r \<and> r \<le> length (line_of s)"
  using assms
proof (induction "length (line_of s)" arbitrary: as nleft buf s rule: less_induct)
  case less
  have L: "0 < length (line_of s)" by (simp add: line_of_def)
  have pre: "take (length (line_of s)) s = line_of s" "length (line_of s) \<le> length s"
    using line_of_prefix[OF less.prems(2)] by blast+
  obtain n as1 where peek: "recv_peek as nleft s = Some (Inr (take (min (Suc n) nleft) s), as1)" "gives as = Suc (gives as1)" "\<not> list_ex is_fail as1"
    using recv_peek_gives[OF less.prems(1), of nleft s] less.prems(4) L by auto
  define bs where "bs = take (min (Suc n) nleft) s"
  have "0 < nleft" using L less.prems(3) by linarith
  moreover have "s \<noteq> []" using less.prems(2) by auto
  ultimately have ne: "bs \<noteq> []" by (simp add: bs_def)
  have pk: "recv_peek as nleft s = Some (Inr bs, as1)" using peek(1) by (simp add: bs_def)
  have s: "s = bs @ drop (length bs) s" by (simp add: bs_def min_def)
  show ?case
  proof (cases "find_newline bs")
    case (Some i)
    have i: "Suc i = length (line_of s)"
      using find_newline_Some[OF Some, of "drop (length bs) s"] s by simp
    obtain as' where "readn (i + 1) as1 s = Some (Inr (take (i + 1) s), as', drop (i + 1) s)"
      using readn_exact[OF peek(3), of "i + 1" s] pre(2) i peek(2) less.prems(4) by auto
    then have "readline_loop as nleft buf s = Some (RL_Line (i + 1), buf @ take (i + 1) s, as', drop (i + 1) s)"
      using pk ne Some i pre(2) by (subst readline_loop.simps) simp
    then show ?thesis using i pre(1) L by simp
  next
    case None
    have ls: "line_of s = bs @ line_of (drop (length bs) s)" "CHR 0x0A \<notin> set bs"
      using find_newline_None[OF None, of "drop (length bs) s"] s by simp_all
    have bl: "0 < length bs" "length bs < length (line_of s)"
      using ne arg_cong[OF ls(1), of length] by (auto simp: line_of_def)
    obtain as' where r: "readn (length bs) as1 s = Some (Inr (take (length bs) s), as', drop (length bs) s)"
        "\<not> list_ex is_fail as'" "gives as1 \<le> gives as' + length bs"
      using readn_exact[OF peek(3), of "length bs" s] bl pre(2) peek(2) less.prems(4) by auto
    have tk: "take (length bs) s = bs" using s by (metis append_eq_conv_conj)
    have rec: "readline_loop as nleft buf s = readline_loop as' (nleft - length bs) (buf @ bs) (drop (length bs) s)"
      using pk ne None bl less.prems(3) r(1) tk by (subst readline_loop.simps) simp
    have len: "length (line_of s) = length bs + length (line_of (drop (length bs) s))"
      using arg_cong[OF ls(1), of length] by simp
    have nl: "CHR 0x0A \<in> set (drop (length bs) s)" using less.prems(2) ls(2) s by (metis Un_iff set_append)
    have "\<exists>r as''. readline_loop as' (nleft - length bs) (buf @ bs) (drop (length bs) s)
        = Some (RL_Line r, (buf @ bs) @ line_of (drop (length bs) s), as'', drop (length (line_of (drop (length bs) s))) (drop (length bs) s))
      \<and> 0 < r \<and> r \<le> length (line_of (drop (length bs) s))"
    proof (rule less.hyps)
      show "2 * length (line_of (drop (length bs) s)) \<le> gives as'"
        using bl(1) len r(3) peek(2) less.prems(4) by linarith
    qed (use nl bl len r(2) less.prems(3) in auto)
    then show ?thesis using rec ls(1) len by (auto simp: add.commute)
  qed
qed

text \<open>
  \<^verbatim>\<open>readn\<close> returns the next \<open>n\<close> bytes of the stream and takes exactly them, however the kernel cuts them up and however often it is
  interrupted; only the end of the stream makes it return fewer, and it returns after at most one answer with data per byte. \<^verbatim>\<open>readline\<close> takes from
  the stream exactly the next line, if that is not longer than its buffer, and returns.
\<close>
theorem reads_are_exact:
  assumes "\<not> list_ex is_fail as"
  shows "(readn n as s = Some (Inr out, as', s') \<longrightarrow> out = take n s \<and> s' = drop n s)
    \<and> (n \<le> length s \<and> n \<le> gives as \<longrightarrow> (\<exists>as'. readn n as s = Some (Inr (take n s), as', drop n s)))
    \<and> (CHR 0x0A \<in> set s \<and> length (line_of s) \<le> maxline \<and> 2 * length (line_of s) \<le> gives as
       \<longrightarrow> (\<exists>r as'. readline maxline as s = Some (RL_Line r, line_of s, as', drop (length (line_of s)) s) \<and> 0 < r \<and> r \<le> length (line_of s)))"
  using readn_loop_data[of as n "[]" s out as' s'] readn_exact[OF assms, of n s] readline_loop_line[OF assms, of s maxline "[]"]
  by (auto simp: readn_def readline_def)

theorem reads_are_exact_witness:
  "\<exists>r as'. readline 80 [Give 3, Intr, Give 0, Give 9, Give 2, Give 0, Give 0, Give 0, Give 0, Give 0, Give 0, Give 0, Give 0] (''pwd'' @ [CHR 0x0D, CHR 0x0A] @ ''x'')
     = Some (RL_Line r, ''pwd'' @ [CHR 0x0D, CHR 0x0A], as', ''x'') \<and> 0 < r \<and> r \<le> 5"
  using reads_are_exact[of "[Give 3, Intr, Give 0, Give 9, Give 2, Give 0, Give 0, Give 0, Give 0, Give 0, Give 0, Give 0, Give 0]" 0
      "''pwd'' @ [CHR 0x0D, CHR 0x0A] @ ''x''" "[]" "[]" "[]" 80]
  by (simp add: line_of_def eval_nat_numeral)

lemma find_newline_line: "find_newline (line_of s) = Some (length (line_of s) - 1)"
proof -
  have "find_newline (xs @ [CHR 0x0A]) = Some (length xs)" if "CHR 0x0A \<notin> set xs" for xs
    using that by (induction xs) auto
  from this[of "takeWhile (\<lambda>c. c \<noteq> CHR 0x0A) s"] show ?thesis by (auto simp: line_of_def dest: set_takeWhileD)
qed

lemma find_newline_absent: "CHR 0x0A \<notin> set xs \<Longrightarrow> find_newline xs = None"
  by (induction xs) auto

lemma readn_one_answer: "0 < n \<Longrightarrow> n \<le> length s \<Longrightarrow> readn n (Give n # as) s = Some (Inr (take n s), as, drop n s)"
  by (cases n) (auto simp: readn_def min_def)

lemma recv_peek_one: "recv_peek (Give n # as) len s = Some (Inr (take (min (Suc n) len) s), as)"
  by simp

text \<open>
  C38: The number \<^verbatim>\<open>readline\<close> returns is not the length of the line but of the part that arrived last: a line that comes in two pieces is stored whole, and the
  length of the second piece is returned.
\<close>
theorem readline_returns_last_piece:
  assumes "CHR 0x0A \<notin> set first" and "first \<noteq> []" and "length first + length (line_of rest) \<le> maxline" and "CHR 0x0A \<in> set rest"
  shows "readline maxline [Give (length first - 1), Give (length first), Give (length (line_of rest) - 1), Give (length (line_of rest))] (first @ rest)
     = Some (RL_Line (length (line_of rest)), first @ line_of rest, [], drop (length (line_of rest)) rest)"
proof -
  define L where "L = length (line_of rest)"
  have L: "0 < L" "take L rest = line_of rest" "L \<le> length rest"
    using line_of_prefix[OF assms(4)] by (simp_all add: L_def) (simp add: line_of_def)
  have "readline_loop [Give (L - 1), Give L] (maxline - length first) first rest = Some (RL_Line L, first @ line_of rest, [], drop L rest)"
  proof -
    have "recv_peek [Give (L - 1), Give L] (maxline - length first) rest = Some (Inr (line_of rest), [Give L])"
    proof -
      have "min (Suc (L - 1)) (maxline - length first) = L" using L(1) assms(3) by (simp add: L_def[symmetric])
      then show ?thesis using L(2) by (simp only: recv_peek_one)
    qed
    moreover have "find_newline (line_of rest) = Some (L - 1)" "line_of rest \<noteq> []"
      by (simp_all add: find_newline_line L_def) (simp add: line_of_def)
    ultimately show ?thesis
      using L readn_one_answer[OF L(1) L(3), of "[]"] by (subst readline_loop.simps) (simp add: L_def[symmetric])
  qed
  moreover have "readline_loop [Give (length first - 1), Give (length first), Give (L - 1), Give L] maxline [] (first @ rest)
    = readline_loop [Give (L - 1), Give L] (maxline - length first) first rest"
  proof -
    have "recv_peek [Give (length first - 1), Give (length first), Give (L - 1), Give L] maxline (first @ rest)
      = Some (Inr first, [Give (length first), Give (L - 1), Give L])"
      using assms(2,3) by (simp add: min_def)
    moreover have "length first < maxline" using assms(3) L(1) by (simp add: L_def[symmetric])
    ultimately show ?thesis
      using assms(2) find_newline_absent[OF assms(1)] readn_one_answer[of "length first" "first @ rest" "[Give (L - 1), Give L]"]
      by (subst readline_loop.simps) simp
  qed
  ultimately show ?thesis by (simp add: readline_def L_def)
qed

theorem readline_returns_last_piece_witness:
  "readline 80 [Give 1, Give 2, Give 2, Give 3] (''pw'' @ (''d'' @ [CHR 0x0D, CHR 0x0A]))
   = Some (RL_Line 3, ''pw'' @ ''d'' @ [CHR 0x0D, CHR 0x0A], [], [])"
  using readline_returns_last_piece[of "''pw''" "''d'' @ [CHR 0x0D, CHR 0x0A]" 80] by (simp add: line_of_def eval_nat_numeral)

fun w_takes :: "wanswer \<Rightarrow> bool" where
  "w_takes W_Intr \<longleftrightarrow> True"
| "w_takes (W_Fail e) \<longleftrightarrow> False"
| "w_takes (W_Put n) \<longleftrightarrow> 0 < n"

lemma writen_loop_completes:
  "list_all w_takes as \<Longrightarrow> length data \<le> length (filter (\<lambda>a. a \<noteq> W_Intr) as) \<Longrightarrow> writen_loop as data sent = Some (Inr (), sent @ data)"
proof (induction as arbitrary: data sent)
  case (Cons a as)
  show ?case
  proof (cases data)
    case (Cons c cs)
    then show ?thesis using Cons.IH Cons.prems by (cases a) (auto simp: append_take_drop_id)
  qed simp
qed simp

text \<open>
  \<^verbatim>\<open>writen\<close> writes everything or reports failure. However the kernel cuts the data up, what reaches it is a prefix of the data, in order and without repetition;
  success means all of it, and with no error a finite number of answers that each take something is enough.
\<close>
theorem writen_all_or_error:
  "(case writen data ans sent of
      None \<Rightarrow> True
    | Some (Inr _, sent') \<Rightarrow> sent' = sent @ data
    | Some (Inl e, sent') \<Rightarrow> \<exists>n < length data. sent' = sent @ take n data)
   \<and> (list_all w_takes ans
       \<and> length data \<le> length (filter (\<lambda>a. a \<noteq> W_Intr) ans) \<longrightarrow> writen data ans sent = Some (Inr (), sent @ data))"
proof -
  have "case writen_loop ans data sent of
      None \<Rightarrow> True
    | Some (Inr _, sent') \<Rightarrow> sent' = sent @ data
    | Some (Inl e, sent') \<Rightarrow> \<exists>n < length data. sent' = sent @ take n data"
  proof (induction ans data sent rule: writen_loop.induct)
    case (3 a as c cs sent)
    show ?case
    proof (cases a)
      case (W_Put n)
      show ?thesis
      proof (cases "n = 0")
        case True
        then show ?thesis using W_Put by (auto intro: exI[of _ 0])
      next
        case False
        have "sent @ take n (c # cs) @ take m (drop n (c # cs)) = sent @ take (n + m) (c # cs)" for m
          by (simp add: take_add)
        moreover have "n + m < length (c # cs)" if "m < length (drop n (c # cs))" for m using that by simp
        ultimately show ?thesis
          using 3(3)[OF W_Put False] W_Put False
          by (auto split: option.splits sum.splits prod.splits simp del: take_append drop_append)
      qed
    qed (use 3 in \<open>auto intro: exI[of _ 0]\<close>)
  qed auto
  then show ?thesis using writen_loop_completes[of ans data sent] by (simp add: writen_def)
qed

theorem writen_all_or_error_witness:
  "writen ''hello'' [W_Put 2, W_Intr, W_Put 1, W_Put 7, W_Put 1, W_Put 1] ''>'' = Some (Inr (), ''>'' @ ''hello'')"
  using writen_all_or_error[where data = "''hello''" and ans = "[W_Put 2, W_Intr, W_Put 1, W_Put 7, W_Put 1, W_Put 1]" and sent = "''>''"] by simp

section \<open>Waiting with a time limit\<close>

datatype fd_set = Read_Set | Write_Set | Except_Set

text \<open>An answer of \<^verbatim>\<open>select\<close> on one descriptor: a signal, an error, the time is over, the descriptor is in the set.\<close>

datatype sel = Sel_Intr | Sel_Fail int | Sel_Timeout | Sel_Ready

fun select_loop :: "sel list \<Rightarrow> sel option" where
  "select_loop [] = None"
| "select_loop (a # as) = (if a = Sel_Intr \<or> a = Sel_Fail EINTR then select_loop as else Some a)"

text \<open>The kernel answers per set the descriptor is put in; the result is the return value and the error number it leaves.\<close>

type_synonym select_env = "fd_set \<Rightarrow> sel list"

definition wait_result :: "sel \<Rightarrow> int \<times> int" where
  "wait_result a =
     (case a of Sel_Timeout \<Rightarrow> (- 1, ETIMEDOUT) | Sel_Ready \<Rightarrow> (0, 0) | Sel_Fail e \<Rightarrow> (- 1, e) | Sel_Intr \<Rightarrow> (- 1, EINTR))"

definition read_timeout :: "select_env \<Rightarrow> nat \<Rightarrow> (int \<times> int) option" where
  "read_timeout env wait_seconds =
     (if 0 < wait_seconds then map_option wait_result (select_loop (env Read_Set)) else Some (0, 0))"

definition write_timeout :: "select_env \<Rightarrow> nat \<Rightarrow> (int \<times> int) option" where
  "write_timeout env wait_seconds =
     (if 0 < wait_seconds then map_option wait_result (select_loop (env Except_Set)) else Some (0, 0))"

text \<open>\<open>acc\<close> is what \<^verbatim>\<open>accept\<close> returns: a descriptor, or an error.\<close>

definition accept_timeout :: "select_env \<Rightarrow> int + int \<Rightarrow> nat \<Rightarrow> (int \<times> int) option" where
  "accept_timeout env acc wait_seconds =
     (let accept = (case acc of Inl e \<Rightarrow> (- 1, e) | Inr fd \<Rightarrow> (fd, 0))
      in if 0 < wait_seconds
         then (case select_loop (env Read_Set) of
                 None \<Rightarrow> None
               | Some Sel_Ready \<Rightarrow> Some accept
               | Some a \<Rightarrow> Some (wait_result a))
         else Some accept)"

text \<open>
  \<^verbatim>\<open>connect_timeout\<close> on a descriptor, of which only the non-blocking flag is kept: \<open>con\<close> is the answer of \<^verbatim>\<open>connect\<close> (the error number, zero for
  success at once), \<open>soerr\<close> that of \<^verbatim>\<open>getsockopt\<close>. The last component is the flag afterwards.
\<close>

definition activate_nonblock :: "bool \<Rightarrow> bool" where "activate_nonblock flag = True"
definition deactivate_nonblock :: "bool \<Rightarrow> bool" where "deactivate_nonblock flag = False"

definition connect_timeout :: "select_env \<Rightarrow> int \<Rightarrow> int + int \<Rightarrow> nat \<Rightarrow> bool \<Rightarrow> (int \<times> int \<times> bool) option" where
  "connect_timeout env con soerr wait_seconds flag =
     (let flag = (if 0 < wait_seconds then activate_nonblock flag else flag);
          finish = (\<lambda>r. Some (fst r, snd r, if 0 < wait_seconds then deactivate_nonblock flag else flag));
          ready = (case soerr of
                     Inl e \<Rightarrow> Some (- 1, e, flag)
                   | Inr err \<Rightarrow> if err = 0 then finish (0, 0) else finish (- 1, err))
      in if con = 0 then finish (- 1, ETIMEDOUT)
         else if con = EINPROGRESS
         then (case select_loop (env Write_Set) of
                 None \<Rightarrow> None
               | Some Sel_Timeout \<Rightarrow> finish (- 1, ETIMEDOUT)
               | Some Sel_Ready \<Rightarrow> ready
               | Some a \<Rightarrow> Some (- 1, snd (wait_result a), flag))
         else Some (- 1, con, flag))"

text \<open>
  What the calls with a time limit get wrong. \<^verbatim>\<open>write_timeout\<close> asks for exceptional conditions: its answer depends on that set alone, so a socket that is
  ready for writing and has nothing exceptional times out. \<^verbatim>\<open>connect_timeout\<close> reports a connection that is made at once as timed
  out; and where it fails before the end, the socket stays non-blocking. \<^verbatim>\<open>read_timeout\<close> answers as documented.
\<close>
theorem timeout_calls:
  assumes "0 < wait_seconds"
  shows "(env Except_Set = [Sel_Timeout] \<and> env Write_Set = [Sel_Ready] \<longrightarrow> write_timeout env wait_seconds = Some (- 1, ETIMEDOUT))
    \<and> connect_timeout env 0 soerr wait_seconds False = Some (- 1, ETIMEDOUT, False)
    \<and> (con \<noteq> 0 \<and> con \<noteq> EINPROGRESS \<longrightarrow> connect_timeout env con soerr wait_seconds False = Some (- 1, con, True))
    \<and> (\<forall>n. env Read_Set = replicate n Sel_Intr @ [Sel_Ready] \<longrightarrow> read_timeout env wait_seconds = Some (0, 0))
    \<and> (\<forall>n. env Read_Set = replicate n Sel_Intr @ [Sel_Timeout] \<longrightarrow> read_timeout env wait_seconds = Some (- 1, ETIMEDOUT))"
proof -
  have skip: "select_loop (replicate n Sel_Intr @ [a]) = select_loop [a]" for n a
    by (induction n) auto
  show ?thesis
    using assms skip
    by (auto simp: write_timeout_def read_timeout_def connect_timeout_def wait_result_def Let_def activate_nonblock_def
        deactivate_nonblock_def)
qed

theorem timeout_calls_witness:
  "write_timeout (\<lambda>s. if s = Write_Set then [Sel_Ready] else [Sel_Timeout]) 5 = Some (- 1, ETIMEDOUT)
   \<and> connect_timeout (\<lambda>_. []) 0 (Inr 0) 5 False = Some (- 1, ETIMEDOUT, False)"
  using timeout_calls[of 5 "\<lambda>s. if s = Write_Set then [Sel_Ready] else [Sel_Timeout]" "Inr 0"]
    timeout_calls[of 5 "\<lambda>_. []" "Inr 0"] by simp

section \<open>Permissions and dates\<close>

definition S_IFLNK :: "32 word" where "S_IFLNK = 0xA000"
definition S_IFIFO :: "32 word" where "S_IFIFO = 0x1000"
definition S_IFSOCK :: "32 word" where "S_IFSOCK = 0xC000"
definition S_IFCHR :: "32 word" where "S_IFCHR = 0x2000"
definition S_IFBLK :: "32 word" where "S_IFBLK = 0x6000"

definition file_type_char :: "32 word \<Rightarrow> char" where
  "file_type_char mode =
     (let t = mode AND S_IFMT
      in if t = S_IFREG then CHR ''-'' else if t = S_IFDIR then CHR ''d'' else if t = S_IFLNK then CHR ''l''
         else if t = S_IFIFO then CHR ''p'' else if t = S_IFSOCK then CHR ''s'' else if t = S_IFCHR then CHR ''c''
         else if t = S_IFBLK then CHR ''b'' else CHR ''?'')"

text \<open>A special bit replaces the execute position of its group.\<close>

definition special_bit :: "bool \<Rightarrow> nat \<Rightarrow> char \<Rightarrow> char \<Rightarrow> string \<Rightarrow> string" where
  "special_bit b i lower upper perms = (if b then perms[i := if perms ! i = CHR ''x'' then lower else upper] else perms)"

definition statbuf_get_perms :: "32 word \<Rightarrow> string" where
  "statbuf_get_perms mode =
     (let perms = file_type_char mode # map (\<lambda>i. mode_bit mode i (''rwxrwxrwx'' ! i)) [0..<9];
          perms = special_bit (bit mode 11) 3 (CHR ''s'') (CHR ''S'') perms;
          perms = special_bit (bit mode 10) 6 (CHR ''s'') (CHR ''S'') perms
      in special_bit (bit mode 9) 9 (CHR ''t'') (CHR ''T'') perms)"

lemma upt_9: "[0..<9] = [0, 1, 2, 3, 4, 5, 6, 7, 8 :: nat]"
  by (simp add: upt_rec numeral_eq_Suc)

lemma perms_chars:
  "statbuf_get_perms m =
    [file_type_char m, if bit m 8 then CHR ''r'' else CHR ''-'', if bit m 7 then CHR ''w'' else CHR ''-'',
     if bit m 11 then (if bit m 6 then CHR ''s'' else CHR ''S'') else (if bit m 6 then CHR ''x'' else CHR ''-''),
     if bit m 5 then CHR ''r'' else CHR ''-'', if bit m 4 then CHR ''w'' else CHR ''-'',
     if bit m 10 then (if bit m 3 then CHR ''s'' else CHR ''S'') else (if bit m 3 then CHR ''x'' else CHR ''-''),
     if bit m 2 then CHR ''r'' else CHR ''-'', if bit m 1 then CHR ''w'' else CHR ''-'',
     if bit m 9 then (if bit m 0 then CHR ''t'' else CHR ''T'') else (if bit m 0 then CHR ''x'' else CHR ''-'')]"
  unfolding statbuf_get_perms_def upt_9 Let_def
  by (simp add: mode_bit_def special_bit_def)

lemma perm_char_eq:
  "(if b then CHR ''r'' else CHR ''-'') = (if b' then CHR ''r'' else CHR ''-'') \<longleftrightarrow> b = b'"
  "(if b then CHR ''w'' else CHR ''-'') = (if b' then CHR ''w'' else CHR ''-'') \<longleftrightarrow> b = b'"
  "(if c then (if b then CHR ''s'' else CHR ''S'') else (if b then CHR ''x'' else CHR ''-''))
   = (if c' then (if b' then CHR ''s'' else CHR ''S'') else (if b' then CHR ''x'' else CHR ''-'')) \<longleftrightarrow> b = b' \<and> c = c'"
  "(if c then (if b then CHR ''t'' else CHR ''T'') else (if b then CHR ''x'' else CHR ''-''))
   = (if c' then (if b' then CHR ''t'' else CHR ''T'') else (if b' then CHR ''x'' else CHR ''-'')) \<longleftrightarrow> b = b' \<and> c = c'"
  by (cases b; cases b'; cases c; cases c'; simp)+

lemma all_below_12:
  "(\<forall>i < 12. P i) \<longleftrightarrow> P 0 \<and> P 1 \<and> P 2 \<and> P 3 \<and> P 4 \<and> P 5 \<and> P 6 \<and> P 7 \<and> P 8 \<and> P 9 \<and> P 10 \<and> P (11 :: nat)"
proof -
  have "i \<in> {0, 1, 2, 3, 4, 5, 6, 7, 8, 9, 10, 11}" if "i < 12" for i :: nat using that by (simp; arith)
  then have "(\<forall>i < 12. P i) \<longleftrightarrow> (\<forall>i \<in> {0, 1, 2, 3, 4, 5, 6, 7, 8, 9, 10, 11 :: nat}. P i)" by fastforce
  then show ?thesis by simp
qed

text \<open>
  The text of the permissions has ten characters and determines the permission bits: two modes with the same text agree in the type
  shown and in all twelve low bits, the set-id and sticky bits included, although these share a position with an execute bit.
\<close>
theorem perms_determine_mode:
  "length (statbuf_get_perms m) = 10
   \<and> (statbuf_get_perms m = statbuf_get_perms m' \<longrightarrow> file_type_char m = file_type_char m' \<and> (\<forall>i < 12. bit m i = bit m' i))"
  unfolding perms_chars all_below_12 list.inject perm_char_eq by (simp (no_asm))

theorem perms_determine_mode_witness:
  "statbuf_get_perms 0x89ED = ''-rwsr-xr-x''
   \<and> (statbuf_get_perms 0x89ED = statbuf_get_perms 0x189ED \<longrightarrow> bit (0x89ED :: 32 word) 11 = bit (0x189ED :: 32 word) 11)"
proof -
  have "statbuf_get_perms 0x89ED = ''-rwsr-xr-x''"
    unfolding perms_chars by (simp add: file_type_char_def S_IFMT_def S_IFREG_def bit_numeral_rec)
  then show ?thesis using perms_determine_mode[of "0x89ED" "0x189ED"] by auto
qed

text \<open>Times are seconds; \<open>strftime\<close> gives the text, empty when it does not fit its buffer.\<close>

definition statbuf_get_date :: "(string \<Rightarrow> int \<Rightarrow> string) \<Rightarrow> int \<Rightarrow> int \<Rightarrow> string" where
  "statbuf_get_date strftime now mtime =
     (let fmt = (if mtime > now \<or> now - mtime > 60 * 60 * 24 * 182 then ''%b %e    %Y'' else ''%b %e %H:%M'')
      in strftime fmt mtime)"

section \<open>File locks\<close>

datatype lock_type = F_RDLCK | F_WRLCK | F_UNLCK

text \<open>
  Each attempt of \<^verbatim>\<open>fcntl\<close> is answered by an error number, zero for success; the second component is the lock then held on the
  whole file. An attempt interrupted by a signal is repeated; when no answer is left the call still waits.
\<close>

fun lock_internal :: "lock_type \<Rightarrow> lock_type \<Rightarrow> int list \<Rightarrow> (int \<times> lock_type) option" where
  "lock_internal held lock_type [] = None"
| "lock_internal held lock_type (err # answers) =
     (if err = EINTR then lock_internal held lock_type answers
      else Some (if err = 0 then (0, lock_type) else (- 1, held)))"

definition lock_file_read :: "lock_type \<Rightarrow> int list \<Rightarrow> (int \<times> lock_type) option" where
  "lock_file_read held answers = lock_internal held F_RDLCK answers"

definition lock_file_write :: "lock_type \<Rightarrow> int list \<Rightarrow> (int \<times> lock_type) option" where
  "lock_file_write held answers = lock_internal held F_WRLCK answers"

definition unlock_file :: "lock_type \<Rightarrow> int \<Rightarrow> int \<times> lock_type" where
  "unlock_file held err = (if err = 0 then (0, F_UNLCK) else (- 1, held))"

lemma lock_internal_spec:
  "lock_internal held t answers =
     (case dropWhile (\<lambda>e. e = EINTR) answers of [] \<Rightarrow> None | e # _ \<Rightarrow> Some (if e = 0 then (0, t) else (- 1, held)))"
  by (induction answers) auto

section \<open>Sockets\<close>

text \<open>The answers of the calls: a descriptor or error, and whether each of the others succeeds. A failure ends the process.\<close>

record sock_env =
  se_socket :: int
  se_setsockopt :: bool
  se_local_ip :: "32 word option"
  se_aton :: "string \<Rightarrow> 32 word option"
  se_hostbyname :: "string \<Rightarrow> 32 word option"
  se_bind :: "sockaddr_in \<Rightarrow> bool"
  se_listen :: bool

text \<open>\<^verbatim>\<open>get_local_ip\<close> writes the address of the host's name, or leaves the buffer alone.\<close>

definition get_local_ip :: "sock_env \<Rightarrow> int \<times> string option" where
  "get_local_ip env = (case se_local_ip env of None \<Rightarrow> (- 1, None) | Some a \<Rightarrow> (0, Some (inet_ntop a)))"

definition tcp_client :: "sock_env \<Rightarrow> 16 word \<Rightarrow> (int \<times> sockaddr_in option) res" where
  "tcp_client env port =
     (if se_socket env < 0 then Inl Exit_Failure
      else if port > 0
      then if \<not> se_setsockopt env then Inl Exit_Failure
           else (case snd (get_local_ip env) of
                   None \<Rightarrow> Inl Undefined
                 | Some ip \<Rightarrow>
                     (let a = \<lparr>sin_family = AF_INET, sin_port = htons port,
                               sin_addr = (case inet_pton ip of None \<Rightarrow> - 1 | Some x \<Rightarrow> x)\<rparr>
                      in if se_bind env a then Inr (se_socket env, Some a) else Inl Exit_Failure))
      else Inr (se_socket env, None))"

definition tcp_server :: "sock_env \<Rightarrow> string option \<Rightarrow> 16 word \<Rightarrow> (int \<times> sockaddr_in) res" where
  "tcp_server env host port =
     (if se_socket env < 0 then Inl Exit_Failure
      else bindE (case host of
                    None \<Rightarrow> Inr 0
                  | Some h \<Rightarrow>
                      (case se_aton env h of
                         Some x \<Rightarrow> Inr x
                       | None \<Rightarrow> (case se_hostbyname env h of None \<Rightarrow> Inl Exit_Failure | Some x \<Rightarrow> Inr x)))
        (\<lambda>x. let a = \<lparr>sin_family = AF_INET, sin_port = htons port, sin_addr = x\<rparr>
             in if \<not> se_setsockopt env then Inl Exit_Failure
                else if \<not> se_bind env a then Inl Exit_Failure
                else if \<not> se_listen env then Inl Exit_Failure
                else Inr (se_socket env, a)))"

lemma tcp_client_reads_garbage:
  "0 \<le> se_socket env \<Longrightarrow> 0 < port \<Longrightarrow> se_setsockopt env \<Longrightarrow> se_local_ip env = None \<Longrightarrow> tcp_client env port = Inl Undefined"
  by (simp add: tcp_client_def get_local_ip_def)

section \<open>Passing descriptors\<close>

text \<open>A message is one byte and control data; the kernel answers \<^verbatim>\<open>sendmsg\<close> and \<^verbatim>\<open>recvmsg\<close> with a count.\<close>

datatype control = SCM_RIGHTS int | SCM_OTHER int

fun cmsg_data :: "control \<Rightarrow> int" where
  "cmsg_data (SCM_RIGHTS fd) = fd"
| "cmsg_data (SCM_OTHER x) = x"

definition send_fd :: "int \<Rightarrow> int \<Rightarrow> control option res" where
  "send_fd ret fd = (if ret \<noteq> 1 then Inl Exit_Failure else Inr (Some (SCM_RIGHTS fd)))"

definition recv_fd :: "int \<Rightarrow> control option \<Rightarrow> int res" where
  "recv_fd ret msg =
     (if ret \<noteq> 1 then Inl Exit_Failure
      else (case msg of
              None \<Rightarrow> Inl Exit_Failure
            | Some p_cmsg \<Rightarrow> (let fd = cmsg_data p_cmsg in if fd = - 1 then Inl Exit_Failure else Inr fd)))"

lemma passed_fd: "send_fd 1 fd = Inr msg \<Longrightarrow> recv_fd 1 msg = Inr fd \<longleftrightarrow> fd \<noteq> - 1"
  by (auto simp: send_fd_def recv_fd_def)

section \<open>Strings\<close>

function str_trim_crlf :: "string \<Rightarrow> string" where
  "str_trim_crlf str =
     (if str \<noteq> [] \<and> (last str = CHR 0x0D \<or> last str = CHR 0x0A) then str_trim_crlf (butlast str) else str)"
  by pat_completeness auto
termination
  by (relation "measure length") auto

declare str_trim_crlf.simps [simp del]

definition str_split :: "string \<Rightarrow> char \<Rightarrow> string \<times> string" where
  "str_split str c = (case find_sub [c] str of None \<Rightarrow> ([], str) | Some pos \<Rightarrow> (take pos str, drop (pos + 1) str))"

fun str_all_space :: "string \<Rightarrow> bool" where
  "str_all_space [] = True"
| "str_all_space (c # cs) = (if \<not> is_ascii_whitespace c then False else str_all_space cs)"

fun str_upper :: "string \<Rightarrow> string" where
  "str_upper [] = []"
| "str_upper (c # cs) = to_upper_ascii c # str_upper cs"

text \<open>A sign and digits in front of the rest of a text, after white space; \<^verbatim>\<open>atoll\<close> is undefined outside the range.\<close>

definition split_sign :: "string \<Rightarrow> bool \<times> string" where
  "split_sign s = (case dropWhile is_ascii_whitespace s of [] \<Rightarrow> (False, []) | c # cs \<Rightarrow>
     if c = CHR ''-'' then (True, cs) else if c = CHR ''+'' then (False, cs) else (False, c # cs))"

definition str_to_longlong :: "string \<Rightarrow> int res" where
  "str_to_longlong str =
     (let (neg, ds) = split_sign str; n = int (nat_of_dec (takeWhile is_digit ds) 0)
      in i64 (if neg then - n else n))"

definition is_octal :: "char \<Rightarrow> bool" where
  "is_octal c \<longleftrightarrow> is_digit c \<and> digit_val c < 8"

text \<open>\<^verbatim>\<open>stoul\<close> with base 8 throws when there is no digit or the number does not fit; the result is then cut to 32 bits.\<close>

definition str_octal_to_uint :: "string \<Rightarrow> nat res" where
  "str_octal_to_uint str =
     (let (neg, ds) = split_sign str; os = takeWhile is_octal ds; n = foldl (\<lambda>a c. 8 * a + digit_val c) 0 os
      in if os = [] then Inl (Invalid_Argument ''stoul'')
         else if size_mod \<le> n then Inl (Out_Of_Range ''stoul'')
         else Inr ((if neg then (size_mod - n) mod size_mod else n) mod 2 ^ 32))"

lemma str_trim_crlf_snoc:
  "str_trim_crlf (xs @ [c]) = (if c = CHR 0x0D \<or> c = CHR 0x0A then str_trim_crlf xs else xs @ [c])"
  by (subst str_trim_crlf.simps) simp

lemma str_trim_crlf_Nil: "str_trim_crlf [] = []"
  by (subst str_trim_crlf.simps) simp

lemma str_trim_crlf_spec:
  "str_trim_crlf s = rev (dropWhile (\<lambda>c. c = CHR 0x0D \<or> c = CHR 0x0A) (rev s))"
  by (induction s rule: rev_induct) (simp_all add: str_trim_crlf_snoc str_trim_crlf_Nil)

lemma str_split_join: "find_sub [c] str = Some k \<Longrightarrow> fst (str_split str c) @ [c] @ snd (str_split str c) = str"
  using occurs_at_split[of "[c]" str k] find_sub_SomeD[of "[c]" str k] by (simp add: str_split_def)

end
