(* ===== verification/File_Utils.thy ===== *)
theory File_Utils
  imports Prelude
begin

text \<open>
  File utilities, \<^verbatim>\<open>deps/common/utilities/file_utils.cpp\<close>: reading, writing and the atomic replacement of files.

  A file system maps directory entries to inodes. Before every system call other threads and processes may change the file system any number
  of times, and the kernel may refuse the call: both are given by a list of steps, one for each call; when the list is used up the calls succeed
  and nobody interferes. The world records every change of the file system, marked with whether it was the program's own. The objects with destructors, \<^verbatim>\<open>ScopedFd\<close>
  and \<^verbatim>\<open>TempFileGuard\<close>, are fields of the world, and \<open>finally\<close> runs a destructor however a block is left.
\<close>

unbundle bit_operations_syntax

section \<open>The file system\<close>

datatype kind = Regular | Directory | Symlink | Other

text \<open>An inode is synced when its contents and permissions have reached the disk.\<close>

record inode =
  i_kind :: kind
  i_mode :: "32 word"
  i_data :: string
  i_synced :: bool

type_synonym entry = "string \<times> string"

text \<open>Entries are pairs of a directory and a name. A directory is dirty while a change of its entries has not reached the disk.\<close>

record fsys =
  dir :: "entry \<Rightarrow> nat option"
  inode_of :: "nat \<Rightarrow> inode"
  next_ino :: nat
  dirty :: "string \<Rightarrow> bool"

datatype desc = F_desc nat nat | D_desc string

record fworld =
  fs :: fsys
  changes :: "(bool \<times> fsys \<times> fsys) list"
  fds :: "nat \<Rightarrow> desc option"
  next_fd :: nat
  steps :: "(int \<times> (fsys \<Rightarrow> fsys) list) list"
  unlink_ok :: bool
  follow :: "fsys \<Rightarrow> entry \<Rightarrow> entry"
  umask :: "32 word"
  pid :: "64 word"
  counter :: "64 word"
  taken :: "nat list"
  random_device :: "(32 word) option list"
  mem_limit :: nat
  scoped_fd :: "nat option"
  guard_path :: "string option"

datatype file_error = System_Error int string

type_synonym 'a fio = "fworld \<Rightarrow> (file_error + 'a) \<times> fworld"

definition bindF :: "'a fio \<Rightarrow> ('a \<Rightarrow> 'b fio) \<Rightarrow> 'b fio" where
  "bindF m f w = (case m w of (Inl e, w') \<Rightarrow> (Inl e, w') | (Inr x, w') \<Rightarrow> f x w')"

text \<open>A destructor runs when a block is left, with or without an exception.\<close>

definition finally_do :: "'a fio \<Rightarrow> (fworld \<Rightarrow> fworld) \<Rightarrow> 'a fio" where
  "finally_do m destroy w = (case m w of (r, w') \<Rightarrow> (r, destroy w'))"

definition EEXIST :: int where "EEXIST = 17"
definition ENOENT :: int where "ENOENT = 2"
definition EIO :: int where "EIO = 5"
definition EINTR :: int where "EINTR = 4"
definition EBADF :: int where "EBADF = 9"
definition EISDIR :: int where "EISDIR = 21"
definition ENOTDIR :: int where "ENOTDIR = 20"
definition ENOMEM :: int where "ENOMEM = 12"
definition ENOTSUP :: int where "ENOTSUP = 95"

section \<open>Paths\<close>

text \<open>\<^verbatim>\<open>std::filesystem::path\<close>: the part behind the last slash, and the part before it without its trailing slashes.\<close>

definition filename :: "string \<Rightarrow> string" where
  "filename path = rev (takeWhile (\<lambda>c. c \<noteq> CHR ''/'') (rev path))"

definition parent_path :: "string \<Rightarrow> string" where
  "parent_path path =
     (let up = dropWhile (\<lambda>c. c \<noteq> CHR ''/'') (rev path); base = dropWhile (\<lambda>c. c = CHR ''/'') up
      in if up = [] then [] else if base = [] then ''/'' else rev base)"

definition directory_of :: "string \<Rightarrow> string" where
  "directory_of path = (if parent_path path \<noteq> [] then parent_path path else ''.'')"

text \<open>The entry a path denotes, its last component not followed.\<close>

definition resolve :: "string \<Rightarrow> entry" where
  "resolve path = (directory_of path, filename path)"

section \<open>System calls\<close>

definition put_fs :: "fsys \<Rightarrow> fworld \<Rightarrow> fworld" where
  "put_fs s w = w\<lparr>fs := s, changes := changes w @ [(True, fs w, s)]\<rparr>"

definition put_other :: "(fsys \<Rightarrow> fsys) \<Rightarrow> fworld \<Rightarrow> fworld" where
  "put_other f w = w\<lparr>fs := f (fs w), changes := changes w @ [(False, fs w, f (fs w))]\<rparr>"

text \<open>What the others do before a call, and the kernel's answer to it.\<close>

definition let_others :: "fworld \<Rightarrow> int option \<times> fworld" where
  "let_others w =
     (case steps w of
        [] \<Rightarrow> (None, w)
      | (r, acts) # rest \<Rightarrow> (Some r, fold put_other acts (w\<lparr>steps := rest\<rparr>)))"

text \<open>A call is refused with an error number, or carried out with the kernel's limit on the number of bytes.\<close>

definition sys :: "(nat option \<Rightarrow> fworld \<Rightarrow> (int + 'a) \<times> fworld) \<Rightarrow> fworld \<Rightarrow> (int + 'a) \<times> fworld" where
  "sys call w =
     (case let_others w of
        (None, w') \<Rightarrow> call None w'
      | (Some r, w') \<Rightarrow> if r < 0 then (Inl (- r), w') else call (Some (nat r)) w')"

definition create_file :: "entry \<Rightarrow> 32 word \<Rightarrow> fsys \<Rightarrow> fsys" where
  "create_file e mode s =
     s\<lparr>dir := (dir s)(e \<mapsto> next_ino s),
       inode_of := (inode_of s)(next_ino s := \<lparr>i_kind = Regular, i_mode = mode, i_data = [], i_synced = False\<rparr>),
       next_ino := Suc (next_ino s), dirty := (dirty s)(fst e := True)\<rparr>"

definition update_inode :: "nat \<Rightarrow> (inode \<Rightarrow> inode) \<Rightarrow> fsys \<Rightarrow> fsys" where
  "update_inode i g s = s\<lparr>inode_of := (inode_of s)(i := g (inode_of s i))\<rparr>"

definition unlink_entry :: "entry \<Rightarrow> fsys \<Rightarrow> fsys" where
  "unlink_entry e s = s\<lparr>dir := (dir s)(e := None), dirty := (dirty s)(fst e := True)\<rparr>"

definition rename_entry :: "entry \<Rightarrow> entry \<Rightarrow> fsys \<Rightarrow> fsys" where
  "rename_entry e e' s =
     (if dir s e = dir s e' then s
      else s\<lparr>dir := (dir s)(e' := dir s e, e := None), dirty := (dirty s)(fst e' := True, fst e := True)\<rparr>)"

definition open_desc :: "desc \<Rightarrow> fworld \<Rightarrow> (int + nat) \<times> fworld" where
  "open_desc d w = (Inr (next_fd w), w\<lparr>fds := (fds w)(next_fd w \<mapsto> d), next_fd := Suc (next_fd w)\<rparr>)"

definition sys_create :: "string \<Rightarrow> 32 word \<Rightarrow> fworld \<Rightarrow> (int + nat) \<times> fworld" where
  "sys_create path mode = sys (\<lambda>_ w.
     if dir (fs w) (resolve path) \<noteq> None then (Inl EEXIST, w)
     else open_desc (F_desc (next_ino (fs w)) 0) (put_fs (create_file (resolve path) (mode AND NOT (umask w)) (fs w)) w))"

definition sys_open_read :: "string \<Rightarrow> fworld \<Rightarrow> (int + nat) \<times> fworld" where
  "sys_open_read path = sys (\<lambda>_ w.
     case dir (fs w) (follow w (fs w) (resolve path)) of None \<Rightarrow> (Inl ENOENT, w) | Some i \<Rightarrow> open_desc (F_desc i 0) w)"

definition truncated :: "inode \<Rightarrow> inode" where
  "truncated n = n\<lparr>i_data := [], i_synced := False\<rparr>"

definition sys_open_trunc :: "string \<Rightarrow> 32 word \<Rightarrow> fworld \<Rightarrow> (int + nat) \<times> fworld" where
  "sys_open_trunc path mode = sys (\<lambda>_ w.
     let e = follow w (fs w) (resolve path)
     in case dir (fs w) e of
          None \<Rightarrow> open_desc (F_desc (next_ino (fs w)) 0) (put_fs (create_file e (mode AND NOT (umask w)) (fs w)) w)
        | Some i \<Rightarrow>
            if i_kind (inode_of (fs w) i) = Directory then (Inl EISDIR, w)
            else open_desc (F_desc i 0) (put_fs (update_inode i truncated (fs w)) w))"

definition sys_open_dir :: "string \<Rightarrow> fworld \<Rightarrow> (int + nat) \<times> fworld" where
  "sys_open_dir d = sys (\<lambda>_ w. open_desc (D_desc d) w)"

definition with_file :: "nat \<Rightarrow> (nat \<Rightarrow> nat \<Rightarrow> fworld \<Rightarrow> (int + 'a) \<times> fworld) \<Rightarrow> fworld \<Rightarrow> (int + 'a) \<times> fworld" where
  "with_file fd k w = (case fds w fd of Some (F_desc i off) \<Rightarrow> k i off w | _ \<Rightarrow> (Inl EBADF, w))"

text \<open>A read returns nothing only at the end of the file.\<close>

definition sys_read :: "nat \<Rightarrow> nat \<Rightarrow> fworld \<Rightarrow> (int + string) \<times> fworld" where
  "sys_read fd len = sys (\<lambda>n. with_file fd (\<lambda>i off w.
     if i_kind (inode_of (fs w) i) = Directory then (Inl EISDIR, w)
     else (let bytes = take (case n of None \<Rightarrow> len | Some m \<Rightarrow> max 1 (min m len)) (drop off (i_data (inode_of (fs w) i)))
           in (Inr bytes, w\<lparr>fds := (fds w)(fd \<mapsto> F_desc i (off + length bytes))\<rparr>))))"

definition overwrite :: "nat \<Rightarrow> string \<Rightarrow> inode \<Rightarrow> inode" where
  "overwrite off bytes n =
     n\<lparr>i_data := take off (i_data n @ replicate (off - length (i_data n)) (CHR 0x00)) @ bytes @ drop (off + length bytes) (i_data n),
       i_synced := False\<rparr>"

definition sys_write :: "nat \<Rightarrow> string \<Rightarrow> fworld \<Rightarrow> (int + nat) \<times> fworld" where
  "sys_write fd data = sys (\<lambda>n. with_file fd (\<lambda>i off w.
     let bytes = take (case n of None \<Rightarrow> length data | Some m \<Rightarrow> m) data
     in (Inr (length bytes),
         (put_fs (update_inode i (overwrite off bytes) (fs w)) w)\<lparr>fds := (fds w)(fd \<mapsto> F_desc i (off + length bytes))\<rparr>)))"

definition sys_fstat :: "nat \<Rightarrow> fworld \<Rightarrow> (int + nat \<times> inode) \<times> fworld" where
  "sys_fstat fd = sys (\<lambda>_. with_file fd (\<lambda>i off w. (Inr (i, inode_of (fs w) i), w)))"

definition sys_lstat :: "string \<Rightarrow> fworld \<Rightarrow> (int + nat \<times> inode) \<times> fworld" where
  "sys_lstat path = sys (\<lambda>_ w.
     case dir (fs w) (resolve path) of None \<Rightarrow> (Inl ENOENT, w) | Some i \<Rightarrow> (Inr (i, inode_of (fs w) i), w))"

definition chmod :: "32 word \<Rightarrow> inode \<Rightarrow> inode" where
  "chmod mode n = n\<lparr>i_mode := mode, i_synced := False\<rparr>"

definition sys_fchmod :: "nat \<Rightarrow> 32 word \<Rightarrow> fworld \<Rightarrow> (int + unit) \<times> fworld" where
  "sys_fchmod fd mode = sys (\<lambda>_. with_file fd (\<lambda>i off w. (Inr (), put_fs (update_inode i (chmod mode) (fs w)) w)))"

definition flushed :: "inode \<Rightarrow> inode" where
  "flushed n = n\<lparr>i_synced := True\<rparr>"

definition sys_fsync :: "nat \<Rightarrow> fworld \<Rightarrow> (int + unit) \<times> fworld" where
  "sys_fsync fd = sys (\<lambda>_ w. case fds w fd of
       None \<Rightarrow> (Inl EBADF, w)
     | Some (F_desc i off) \<Rightarrow> (Inr (), put_fs (update_inode i flushed (fs w)) w)
     | Some (D_desc d) \<Rightarrow> (Inr (), put_fs ((fs w)\<lparr>dirty := (dirty (fs w))(d := False)\<rparr>) w))"

text \<open>\<^verbatim>\<open>close\<close> gives the descriptor up even when it reports an error.\<close>

definition sys_close :: "nat \<Rightarrow> fworld \<Rightarrow> (int + unit) \<times> fworld" where
  "sys_close fd w = sys (\<lambda>_ w. (Inr (), w)) (w\<lparr>fds := (fds w)(fd := None)\<rparr>)"

definition sys_rename :: "string \<Rightarrow> string \<Rightarrow> fworld \<Rightarrow> (int + unit) \<times> fworld" where
  "sys_rename from_path to_path = sys (\<lambda>_ w.
     let e = resolve from_path; e' = resolve to_path
     in if dir (fs w) e = None then (Inl ENOENT, w)
        else if snd e' \<in> {[], ''.'', ''..''} then (Inl EISDIR, w)
        else (case dir (fs w) e' of
                Some i \<Rightarrow> if i_kind (inode_of (fs w) i) = Directory then (Inl EISDIR, w)
                          else (Inr (), put_fs (rename_entry e e' (fs w)) w)
              | None \<Rightarrow> (Inr (), put_fs (rename_entry e e' (fs w)) w)))"

definition sys_unlink :: "string \<Rightarrow> fworld \<Rightarrow> fworld" where
  "sys_unlink path w =
     (let w' = snd (let_others w) in if unlink_ok w' then put_fs (unlink_entry (resolve path) (fs w')) w' else w')"

section \<open>Errors and descriptors\<close>

definition ThrowFileError :: "int \<Rightarrow> string \<Rightarrow> string \<Rightarrow> 'a fio" where
  "ThrowFileError ec action path w = (Inl (System_Error ec (action @ '' '' @ [CHR 0x27] @ path @ [CHR 0x27])), w)"

definition ThrowOutOfMemory :: "string \<Rightarrow> string \<Rightarrow> 'a fio" where
  "ThrowOutOfMemory action path = ThrowFileError ENOMEM action path"

text \<open>A call whose failure is thrown.\<close>

definition or_throw :: "(fworld \<Rightarrow> (int + 'a) \<times> fworld) \<Rightarrow> string \<Rightarrow> string \<Rightarrow> 'a fio" where
  "or_throw call action path w =
     (case call w of (Inl e, w') \<Rightarrow> ThrowFileError e action path w' | (Inr x, w') \<Rightarrow> (Inr x, w'))"

definition ScopedFd_close :: "fworld \<Rightarrow> (int + unit) \<times> fworld" where
  "ScopedFd_close w = (case scoped_fd w of None \<Rightarrow> (Inr (), w) | Some fd \<Rightarrow> sys_close fd (w\<lparr>scoped_fd := None\<rparr>))"

definition ScopedFd_reset :: "fworld \<Rightarrow> fworld" where
  "ScopedFd_reset w = (case scoped_fd w of None \<Rightarrow> w | Some fd \<Rightarrow> snd (sys_close fd (w\<lparr>scoped_fd := None\<rparr>)))"

definition TempFileGuard_release :: "fworld \<Rightarrow> fworld" where
  "TempFileGuard_release w = w\<lparr>guard_path := None\<rparr>"

definition TempFileGuard_destroy :: "fworld \<Rightarrow> fworld" where
  "TempFileGuard_destroy w = (case guard_path w of None \<Rightarrow> w | Some p \<Rightarrow> (sys_unlink p w)\<lparr>guard_path := None\<rparr>)"

section \<open>Queries\<close>

text \<open>The status of the file behind a path, links followed; a failed query and a failed allocation count as absent.\<close>

definition status :: "string \<Rightarrow> fworld \<Rightarrow> (int + inode) \<times> fworld" where
  "status path = sys (\<lambda>_ w.
     case dir (fs w) (follow w (fs w) (resolve path)) of None \<Rightarrow> (Inl ENOENT, w) | Some i \<Rightarrow> (Inr (inode_of (fs w) i), w))"

definition QueryPath :: "string \<Rightarrow> (inode \<Rightarrow> bool) \<Rightarrow> (string \<Rightarrow> fworld \<Rightarrow> (int + inode) \<times> fworld) \<Rightarrow> fworld \<Rightarrow> bool \<times> fworld" where
  "QueryPath path predicate query w =
     (if length path > mem_limit w then (False, w)
      else (case query path w of (Inl e, w') \<Rightarrow> (False, w') | (Inr n, w') \<Rightarrow> (predicate n, w')))"

definition exists :: "string \<Rightarrow> fworld \<Rightarrow> bool \<times> fworld" where
  "exists path = QueryPath path (\<lambda>_. True) status"

definition is_directory :: "string \<Rightarrow> fworld \<Rightarrow> bool \<times> fworld" where
  "is_directory path = QueryPath path (\<lambda>n. i_kind n = Directory) status"

definition is_regular_file :: "string \<Rightarrow> fworld \<Rightarrow> bool \<times> fworld" where
  "is_regular_file path = QueryPath path (\<lambda>n. i_kind n = Regular) status"

definition symlink_status :: "string \<Rightarrow> fworld \<Rightarrow> (int + inode) \<times> fworld" where
  "symlink_status path w = (case sys_lstat path w of (Inl e, w') \<Rightarrow> (Inl e, w') | (Inr (i, n), w') \<Rightarrow> (Inr n, w'))"

definition is_symlink :: "string \<Rightarrow> fworld \<Rightarrow> bool \<times> fworld" where
  "is_symlink path = QueryPath path (\<lambda>n. i_kind n = Symlink) symlink_status"

definition file_size :: "string \<Rightarrow> nat fio" where
  "file_size path w =
     (case status path w of
        (Inl e, w') \<Rightarrow> ThrowFileError e ''cannot get size of'' path w'
      | (Inr n, w') \<Rightarrow>
          (case i_kind n of
             Regular \<Rightarrow> (Inr (length (i_data n)), w')
           | Directory \<Rightarrow> ThrowFileError EISDIR ''cannot get size of'' path w'
           | _ \<Rightarrow> ThrowFileError ENOTSUP ''cannot get size of'' path w'))"

section \<open>Reading\<close>

definition kReadBufferSize :: nat where "kReadBufferSize = 64 * 1024"

definition unread :: "nat \<Rightarrow> fworld \<Rightarrow> nat" where
  "unread fd w = (case fds w fd of Some (F_desc i off) \<Rightarrow> length (i_data (inode_of (fs w) i)) - off | _ \<Rightarrow> 0)"

lemma put_other_frame [simp]:
  "fds (put_other f w) = fds w" "next_fd (put_other f w) = next_fd w" "steps (put_other f w) = steps w"
  "unlink_ok (put_other f w) = unlink_ok w" "umask (put_other f w) = umask w" "pid (put_other f w) = pid w"
  "counter (put_other f w) = counter w" "taken (put_other f w) = taken w" "scoped_fd (put_other f w) = scoped_fd w"
  "guard_path (put_other f w) = guard_path w"
  by (simp_all add: put_other_def)

lemma fold_put_other_steps [simp]: "steps (fold put_other acts w) = steps w"
  by (induction acts arbitrary: w) simp_all

lemma sys_end: "steps w = [] \<Longrightarrow> sys call w = call None w"
  by (simp add: sys_def let_others_def)

lemma sys_next: "steps w = (r, acts) # rest \<Longrightarrow> sys call w =
    (let w' = fold put_other acts (w\<lparr>steps := rest\<rparr>) in if r < 0 then (Inl (- r), w') else call (Some (nat r)) w')"
  by (simp add: sys_def let_others_def)

lemma sys_steps:
  assumes "sys call w = (r, w')" and "\<And>n w r w'. call n w = (r, w') \<Longrightarrow> steps w' = steps w"
  shows "steps w' = tl (steps w)"
proof (cases "steps w")
  case Nil
  then show ?thesis using assms(1) assms(2)[of None w] by (simp add: sys_end)
next
  case (Cons a rest)
  obtain k acts where a: "a = (k, acts)" by (cases a)
  show ?thesis using assms(1) assms(2)[of "Some (nat k)" "fold put_other acts (w\<lparr>steps := rest\<rparr>)" r w']
    by (auto simp: sys_next[OF Cons[unfolded a]] Cons a Let_def split: if_splits)
qed

lemma sys_uses_step:
  assumes "sys call w = (Inl EINTR, w')" and "\<And>n w r w'. call n w = (r, w') \<Longrightarrow> steps w' = steps w" and "\<And>w. fst (call None w) \<noteq> Inl EINTR"
  shows "length (steps w') < length (steps w)"
proof (cases "steps w")
  case Nil
  then show ?thesis using assms(1) assms(3)[of w] by (simp add: sys_end)
next
  case (Cons a rest)
  then show ?thesis using sys_steps[OF assms(1,2)] by simp
qed

lemma sys_read_steps: "sys_read fd n w = (r, w') \<Longrightarrow> steps w' = tl (steps w)"
  unfolding sys_read_def
  by (erule sys_steps) (auto simp: with_file_def Let_def split: option.splits desc.splits if_splits)

lemma sys_read_interrupted: "sys_read fd n w = (Inl EINTR, w') \<Longrightarrow> length (steps w') < length (steps w)"
  unfolding sys_read_def
  by (erule sys_uses_step)
    (auto simp: with_file_def Let_def EBADF_def EINTR_def EISDIR_def split: option.splits desc.splits if_splits)

lemma sys_read_Inr:
  assumes "sys_read fd n w = (Inr bytes, w')" and "steps w = []"
  obtains i off where "fds w fd = Some (F_desc i off)" "bytes = take n (drop off (i_data (inode_of (fs w) i)))"
    "w' = w\<lparr>fds := (fds w)(fd \<mapsto> F_desc i (off + length bytes))\<rparr>"
  using assms by (auto simp: sys_read_def sys_end with_file_def Let_def split: option.splits desc.splits if_splits)

lemma sys_read_progress:
  assumes "sys_read fd n w = (Inr bytes, w')" and "bytes \<noteq> []"
  shows "length (steps w') < length (steps w) \<or> length (steps w') = length (steps w) \<and> unread fd w' < unread fd w"
proof (cases "steps w")
  case Nil
  obtain i off where *: "fds w fd = Some (F_desc i off)" "bytes = take n (drop off (i_data (inode_of (fs w) i)))"
    "w' = w\<lparr>fds := (fds w)(fd \<mapsto> F_desc i (off + length bytes))\<rparr>"
    using sys_read_Inr[OF assms(1) Nil] by blast
  then have "0 < length bytes" "off < length (i_data (inode_of (fs w) i))" using assms(2) by auto
  moreover have "unread fd w' = length (i_data (inode_of (fs w) i)) - (off + length bytes)" "unread fd w = length (i_data (inode_of (fs w) i)) - off"
    by (simp_all add: unread_def *(1) *(3))
  ultimately show ?thesis using *(3) by (simp del: length_greater_0_conv)
next
  case (Cons a list)
  then show ?thesis using sys_read_steps[OF assms(1)] by simp
qed

text \<open>
  The loop of \<^verbatim>\<open>ReadInto\<close>. Every round uses up a step or, when none is left, bytes of the file, so it ends.
  Growing the result beyond the memory limit is \<^verbatim>\<open>bad_alloc\<close>, reported as an error of the file.
\<close>

function ReadLoop :: "nat \<Rightarrow> string \<Rightarrow> string \<Rightarrow> string fio" where
  "ReadLoop fd path sink w =
     (case sys_read fd kReadBufferSize w of
        (Inl e, w') \<Rightarrow>
          if e = EINTR then ReadLoop fd path sink w' else ThrowFileError e ''cannot read file'' path w'
      | (Inr bytes, w') \<Rightarrow>
          if bytes = [] then (Inr sink, w')
          else if length (sink @ bytes) > mem_limit w' then ThrowOutOfMemory ''cannot read file'' path w'
          else ReadLoop fd path (sink @ bytes) w')"
  by pat_completeness auto
termination
  by (relation "measures [\<lambda>(fd, path, sink, w). length (steps w), \<lambda>(fd, path, sink, w). unread fd w]")
    (auto dest: sys_read_interrupted[OF sym] sys_read_progress[OF sym])

declare ReadLoop.simps [simp del]

definition ReadInto :: "string \<Rightarrow> string fio" where
  "ReadInto path =
     bindF (or_throw (sys_open_read path) ''cannot open file'' path) (\<lambda>fd w.
       finally_do (\<lambda>w. case sys_fstat fd w of
           (Inl e, w') \<Rightarrow> ReadLoop fd path [] w'
         | (Inr (i, n), w') \<Rightarrow>
             if i_kind n = Regular \<and> 0 < length (i_data n) \<and> length (i_data n) > mem_limit w'
             then ThrowOutOfMemory ''cannot read file'' path w'
             else ReadLoop fd path [] w')
         ScopedFd_reset (w\<lparr>scoped_fd := Some fd\<rparr>))"

definition read_file :: "string \<Rightarrow> string fio" where
  "read_file path = ReadInto path"

definition read_file_bytes :: "string \<Rightarrow> 8 word list fio" where
  "read_file_bytes path = bindF (ReadInto path) (\<lambda>s w. (Inr (map (\<lambda>c. word_of_nat (of_char c)) s), w))"

section \<open>Writing\<close>

lemma sys_write_interrupted: "sys_write fd content w = (Inl EINTR, w') \<Longrightarrow> length (steps w') < length (steps w)"
  unfolding sys_write_def
  by (erule sys_uses_step)
    (auto simp: with_file_def put_fs_def Let_def EBADF_def EINTR_def split: option.splits desc.splits if_splits)

lemma sys_write_steps: "sys_write fd content w = (r, w') \<Longrightarrow> steps w' = tl (steps w)"
  unfolding sys_write_def
  by (erule sys_steps) (auto simp: with_file_def put_fs_def Let_def split: option.splits desc.splits if_splits)

text \<open>Every round of the loop uses up a step or, when none is left, writes all that remains.\<close>

function WriteAll :: "nat \<Rightarrow> string \<Rightarrow> string \<Rightarrow> unit fio" where
  "WriteAll fd content path w =
     (if content = [] then (Inr (), w)
      else (case sys_write fd content w of
              (Inl e, w') \<Rightarrow>
                if e = EINTR then WriteAll fd content path w'
                else ThrowFileError e ''cannot write file'' path w'
            | (Inr n, w') \<Rightarrow>
                if n = 0 then ThrowFileError EIO ''cannot write file'' path w'
                else WriteAll fd (drop n content) path w'))"
  by pat_completeness auto
termination
proof (relation "measure (\<lambda>(fd, content, path, w). length content + length (steps w))", goal_cases)
  case (3 fd content path w x w' n)
  have "length content - n + length (steps w') < length content + length (steps w)"
    if "0 < length content" "0 < n" "length (steps w') \<le> length (steps w)" using that by arith
  then show ?case using 3 sys_write_steps[of fd content w x w'] by auto
qed (auto dest: sys_write_interrupted[OF sym])

declare WriteAll.simps [simp del]

definition write_file :: "string \<Rightarrow> string \<Rightarrow> unit fio" where
  "write_file path content =
     bindF (or_throw (sys_open_trunc path 0x1B6) ''cannot open file'' path) (\<lambda>fd w.
       finally_do (bindF (WriteAll fd content path) (\<lambda>_. or_throw ScopedFd_close ''cannot close file'' path))
         ScopedFd_reset (w\<lparr>scoped_fd := Some fd\<rparr>))"

definition write_file_bytes :: "string \<Rightarrow> 8 word list \<Rightarrow> unit fio" where
  "write_file_bytes path content = write_file path (map (\<lambda>b. char_of (unat b)) content)"

section \<open>Atomic replacement\<close>

definition TargetMode :: "string \<Rightarrow> fworld \<Rightarrow> 32 word option \<times> fworld" where
  "TargetMode path w =
     (case sys_lstat path w of
        (Inl e, w') \<Rightarrow> (None, w')
      | (Inr (i, n), w') \<Rightarrow> if i_kind n \<noteq> Regular then (None, w') else (Some (i_mode n AND 0x1FF), w'))"

text \<open>Two draws from the random device; an exception of the device gives zero.\<close>

definition RandomBits :: "fworld \<Rightarrow> 64 word \<times> fworld" where
  "RandomBits w =
     (case random_device w of
        Some a # Some b # rest \<Rightarrow> (push_bit 32 (ucast a) XOR ucast b, w\<lparr>random_device := rest\<rparr>)
      | Some a # None # rest \<Rightarrow> (0, w\<lparr>random_device := rest\<rparr>)
      | None # rest \<Rightarrow> (0, w\<lparr>random_device := rest\<rparr>)
      | _ \<Rightarrow> (0, w))"

definition hex_digit :: "nat \<Rightarrow> char" where
  "hex_digit d = ''0123456789abcdef'' ! d"

definition HexString :: "64 word \<Rightarrow> string" where
  "HexString v = map (\<lambda>i. hex_digit (unat v div 16 ^ (15 - i) mod 16)) [0..<16]"

definition kMaxFileNameLength :: nat where "kMaxFileNameLength = 255"

definition temp_suffix :: "64 word \<Rightarrow> 64 word \<Rightarrow> 64 word \<Rightarrow> string" where
  "temp_suffix p c r = dec_nat (unat p) @ ''.'' @ dec_nat (unat c) @ ''.'' @ HexString r"

definition temp_name :: "string \<Rightarrow> string \<Rightarrow> string" where
  "temp_name name suffix =
     (let prefix = ''.'' @ name @ ''.tmp.'';
          budget = kMaxFileNameLength - length suffix - 1;
          head = (if length prefix > budget then take budget prefix else prefix)
      in head @ suffix)"

text \<open>
  The counter is shared by the threads of the process: \<open>taken\<close> says how many numbers the others draw before each of this thread's.
\<close>

definition fetch_add :: "fworld \<Rightarrow> 64 word \<times> fworld" where
  "fetch_add w =
     (case taken w of
        [] \<Rightarrow> (counter w, w\<lparr>counter := counter w + 1\<rparr>)
      | k # ks \<Rightarrow> (counter w + word_of_nat k, w\<lparr>counter := counter w + word_of_nat k + 1, taken := ks\<rparr>))"

fun CreateTempFile_loop :: "nat \<Rightarrow> string \<Rightarrow> string \<Rightarrow> string \<Rightarrow> (nat \<times> string) fio" where
  "CreateTempFile_loop 0 directory name target w = ThrowFileError EEXIST ''cannot create temporary file for'' target w"
| "CreateTempFile_loop (Suc n) directory name target w =
     (let (c, w0) = fetch_add w;
          (bits, w1) = RandomBits w0;
          candidate = directory @ ''/'' @ temp_name name (temp_suffix (pid w) c bits)
      in case sys_create candidate 0x1B6 w1 of
           (Inr fd, w2) \<Rightarrow> (Inr (fd, candidate), w2)
         | (Inl e, w2) \<Rightarrow>
             if e \<noteq> EEXIST then ThrowFileError e ''cannot create temporary file for'' target w2
             else CreateTempFile_loop n directory name target w2)"

definition CreateTempFile :: "string \<Rightarrow> string \<Rightarrow> string \<Rightarrow> (nat \<times> string) fio" where
  "CreateTempFile directory name target = CreateTempFile_loop 128 directory name target"

definition VerifyTempFile :: "nat \<Rightarrow> string \<Rightarrow> string \<Rightarrow> unit fio" where
  "VerifyTempFile fd temp_path target =
     bindF (or_throw (sys_fstat fd) ''cannot stat temporary file for'' target) (\<lambda>fd_st.
     bindF (or_throw (sys_lstat temp_path) ''cannot stat temporary file for'' target) (\<lambda>path_st w.
       if fst fd_st \<noteq> fst path_st then ThrowFileError EIO ''temporary file was replaced while writing'' target w
       else (Inr (), w)))"

definition SyncDirectory :: "string \<Rightarrow> fworld \<Rightarrow> fworld" where
  "SyncDirectory directory w =
     (case sys_open_dir directory w of
        (Inl e, w') \<Rightarrow> w'
      | (Inr fd, w') \<Rightarrow> snd (sys_close fd (snd (sys_fsync fd w'))))"

definition replace_body :: "string \<Rightarrow> string \<Rightarrow> 32 word option \<Rightarrow> nat \<times> string \<Rightarrow> unit fio" where
  "replace_body path content target_mode temp =
     bindF (or_throw (sys_fstat (fst temp)) ''cannot stat temporary file for'' path) (\<lambda>created_st.
     let default_mode = i_mode (snd created_st) AND 0x1FF
     in bindF (or_throw (sys_fchmod (fst temp) 0x180) ''cannot set permissions on'' path) (\<lambda>_.
     bindF (WriteAll (fst temp) content path) (\<lambda>_.
     let final_mode = (case target_mode of Some m \<Rightarrow> m | None \<Rightarrow> default_mode)
     in bindF (or_throw (sys_fchmod (fst temp) final_mode) ''cannot set permissions on'' path) (\<lambda>_.
     bindF (or_throw (sys_fsync (fst temp)) ''cannot flush file'' path) (\<lambda>_.
     bindF (VerifyTempFile (fst temp) (snd temp) path) (\<lambda>_.
     bindF (or_throw ScopedFd_close ''cannot close file'' path) (\<lambda>_.
     bindF (or_throw (sys_rename (snd temp) path) ''cannot replace file'' path) (\<lambda>_ w.
       (Inr (), SyncDirectory (directory_of path) (TempFileGuard_release w))))))))))"

definition write_file_atomic :: "string \<Rightarrow> string \<Rightarrow> unit fio" where
  "write_file_atomic path content w =
     (let (target_mode, w1) = TargetMode path w
      in bindF (CreateTempFile (directory_of path) (filename path) path) (\<lambda>temp w2.
           finally_do (finally_do (replace_body path content target_mode temp) TempFileGuard_destroy) ScopedFd_reset
             (w2\<lparr>scoped_fd := Some (fst temp), guard_path := Some (snd temp)\<rparr>)) w1)"

section \<open>Listing\<close>

text \<open>The iterator of the library gives a name or an error for each entry.\<close>

fun list_loop :: "string \<Rightarrow> (int + string) list \<Rightarrow> string list \<Rightarrow> file_error + string list" where
  "list_loop path [] names = Inr names"
| "list_loop path (Inr name # it) names = list_loop path it (names @ [name])"
| "list_loop path (Inl e # it) names = Inl (System_Error e (''cannot list directory '' @ [CHR 0x27] @ path @ [CHR 0x27]))"

definition list_directory :: "string \<Rightarrow> int + (int + string) list \<Rightarrow> string list fio" where
  "list_directory path iterator w =
     (case status path w of
        (Inl e, w') \<Rightarrow> ThrowFileError e ''cannot list directory'' path w'
      | (Inr n, w') \<Rightarrow>
          if i_kind n \<noteq> Directory then ThrowFileError ENOTDIR ''cannot list directory'' path w'
          else (case iterator of
                  Inl e \<Rightarrow> ThrowFileError e ''cannot list directory'' path w'
                | Inr it \<Rightarrow> (list_loop path it [], w')))"

end
