(* ===== verification/File_Changes.thy ===== *)
theory File_Changes
  imports File_Utils
begin

text \<open>
  The record of the changes of the file system: every operation only adds to it, each change starts where the one before it ended, and an
  assumption on the changes of the others is passed on to the changes of the program.
\<close>

section \<open>The record grows\<close>

type_synonym change = "bool \<times> fsys \<times> fsys"

fun linked :: "fsys \<Rightarrow> change list \<Rightarrow> fsys \<Rightarrow> bool" where
  "linked s [] t \<longleftrightarrow> s = t"
| "linked s ((own, a, b) # cs) t \<longleftrightarrow> a = s \<and> linked b cs t"

lemma linked_append: "linked s (xs @ ys) t \<longleftrightarrow> (\<exists>u. linked s xs u \<and> linked u ys t)"
  by (induction xs arbitrary: s) auto

text \<open>An operation adds linked changes, among them as many of the others as the steps it uses up have.\<close>

definition extends :: "fworld \<Rightarrow> fworld \<Rightarrow> bool" where
  "extends w w' \<longleftrightarrow> (\<exists>cs used. changes w' = changes w @ cs \<and> linked (fs w) cs (fs w') \<and> steps w = used @ steps w'
     \<and> length (filter (\<lambda>c. \<not> fst c) cs) = length (concat (map snd used)))"

definition grows :: "(fworld \<Rightarrow> 'r \<times> fworld) \<Rightarrow> bool" where
  "grows m \<longleftrightarrow> (\<forall>w. extends w (snd (m w)))"

named_theorems growing \<open>operations that only add to the record\<close>

lemma extends_upd [simp]:
  "extends (w\<lparr>fds := x1\<rparr>) w' \<longleftrightarrow> extends w w'" "extends w (w'\<lparr>fds := x1\<rparr>) \<longleftrightarrow> extends w w'"
  "extends (w\<lparr>next_fd := x2\<rparr>) w' \<longleftrightarrow> extends w w'" "extends w (w'\<lparr>next_fd := x2\<rparr>) \<longleftrightarrow> extends w w'"
  "extends (w\<lparr>scoped_fd := x3\<rparr>) w' \<longleftrightarrow> extends w w'" "extends w (w'\<lparr>scoped_fd := x3\<rparr>) \<longleftrightarrow> extends w w'"
  "extends (w\<lparr>guard_path := x4\<rparr>) w' \<longleftrightarrow> extends w w'" "extends w (w'\<lparr>guard_path := x4\<rparr>) \<longleftrightarrow> extends w w'"
  "extends (w\<lparr>counter := x5\<rparr>) w' \<longleftrightarrow> extends w w'" "extends w (w'\<lparr>counter := x5\<rparr>) \<longleftrightarrow> extends w w'"
  "extends (w\<lparr>taken := x6\<rparr>) w' \<longleftrightarrow> extends w w'" "extends w (w'\<lparr>taken := x6\<rparr>) \<longleftrightarrow> extends w w'"
  "extends (w\<lparr>random_device := x7\<rparr>) w' \<longleftrightarrow> extends w w'" "extends w (w'\<lparr>random_device := x7\<rparr>) \<longleftrightarrow> extends w w'"
  by (simp_all add: extends_def)

lemma extends_refl [simp]: "extends w w"
  by (simp add: extends_def)

lemma extends_trans:
  assumes "extends w w'" and "extends w' w''"
  shows "extends w w''"
proof -
  obtain cs used cs' used' where "changes w' = changes w @ cs" "linked (fs w) cs (fs w')" "steps w = used @ steps w'"
      "length (filter (\<lambda>c. \<not> fst c) cs) = length (concat (map snd used))"
      "changes w'' = changes w' @ cs'" "linked (fs w') cs' (fs w'')" "steps w' = used' @ steps w''"
      "length (filter (\<lambda>c. \<not> fst c) cs') = length (concat (map snd used'))"
    using assms unfolding extends_def by blast
  then show ?thesis unfolding extends_def
    by (intro exI[of _ "cs @ cs'"] exI[of _ "used @ used'"]) (auto simp: linked_append)
qed

lemma extends_put_fs: "extends w (put_fs s w)"
  unfolding extends_def by (simp add: put_fs_def)

lemma extends_put: "extends w w' \<Longrightarrow> extends w (put_fs s w')"
  using extends_put_fs extends_trans by blast

lemma others_changes:
  "\<exists>cs. changes (fold put_other acts w) = changes w @ cs \<and> linked (fs w) cs (fs (fold put_other acts w))
     \<and> length cs = length acts \<and> (\<forall>c \<in> set cs. \<not> fst c)"
proof (induction acts arbitrary: w)
  case (Cons f acts)
  from Cons[of "put_other f w"] obtain cs where "changes (fold put_other acts (put_other f w)) = changes (put_other f w) @ cs"
      "linked (fs (put_other f w)) cs (fs (fold put_other acts (put_other f w)))" "length cs = length acts" "\<forall>c \<in> set cs. \<not> fst c"
    by blast
  then show ?case by (intro exI[of _ "(False, fs w, f (fs w)) # cs"]) (auto simp: put_other_def[of f w])
qed simp

lemma growsI: "(\<And>w. extends w (snd (m w))) \<Longrightarrow> grows m"
  by (simp add: grows_def)

lemma growsD: "grows m \<Longrightarrow> m w = (r, w') \<Longrightarrow> extends w w'"
  unfolding grows_def by (metis snd_conv)

lemma let_others_grows [growing]: "grows let_others"
proof (rule growsI)
  fix w
  show "extends w (snd (let_others w))"
  proof (cases "steps w")
    case Nil
    then show ?thesis by (simp add: let_others_def)
  next
    case (Cons a rest)
    obtain r acts where a: "a = (r, acts)" by (cases a)
    obtain cs where cs: "changes (fold put_other acts (w\<lparr>steps := rest\<rparr>)) = changes w @ cs"
        "linked (fs w) cs (fs (fold put_other acts (w\<lparr>steps := rest\<rparr>)))" "length cs = length acts" "\<forall>c \<in> set cs. \<not> fst c"
      using others_changes[of acts "w\<lparr>steps := rest\<rparr>"] by auto
    then have "filter (\<lambda>c. \<not> fst c) cs = cs" by (simp add: filter_id_conv)
    then show ?thesis using cs Cons a unfolding extends_def let_others_def
      by (intro exI[of _ cs] exI[of _ "[a]"]) simp
  qed
qed

lemma sys_grows: "(\<And>n. grows (call n)) \<Longrightarrow> grows (sys call)"
  using let_others_grows unfolding sys_def grows_def
  by (auto split: prod.splits option.splits) (metis extends_trans snd_conv)+

lemma with_file_grows: "(\<And>i off. grows (k i off)) \<Longrightarrow> grows (with_file fd k)"
  unfolding with_file_def grows_def by (auto split: option.splits desc.splits)

lemma return_grows [growing]: "grows (\<lambda>w. (x, w))"
  by (rule growsI) simp

lemma sys_create_grows [growing]: "grows (sys_create p m)"
  unfolding sys_create_def by (rule sys_grows)
    (auto simp: grows_def extends_def open_desc_def put_fs_def)

lemma sys_open_dir_grows [growing]: "grows (sys_open_dir d)"
  unfolding sys_open_dir_def by (rule sys_grows) (auto simp: grows_def extends_def open_desc_def)

lemma sys_write_grows [growing]: "grows (sys_write fd data)"
  unfolding sys_write_def by (rule sys_grows, rule with_file_grows)
    (auto simp: grows_def extends_def put_fs_def Let_def)

lemma sys_fstat_grows [growing]: "grows (sys_fstat fd)"
  unfolding sys_fstat_def by (rule sys_grows, rule with_file_grows) (auto simp: grows_def extends_def)

lemma sys_lstat_grows [growing]: "grows (sys_lstat p)"
  unfolding sys_lstat_def by (rule sys_grows) (auto simp: grows_def extends_def split: option.splits)

lemma sys_fchmod_grows [growing]: "grows (sys_fchmod fd m)"
  unfolding sys_fchmod_def by (rule sys_grows, rule with_file_grows) (auto simp: grows_def extends_def put_fs_def)

lemma sys_fsync_grows [growing]: "grows (sys_fsync fd)"
  unfolding sys_fsync_def by (rule sys_grows)
    (auto simp: grows_def extends_def put_fs_def split: option.splits desc.splits)

lemma sys_rename_grows [growing]: "grows (sys_rename p q)"
  unfolding sys_rename_def by (rule sys_grows)
    (auto simp: grows_def extends_def put_fs_def Let_def split: option.splits)

lemma sys_close_grows [growing]: "grows (sys_close fd)"
proof (rule growsI)
  fix w
  have "grows (sys (\<lambda>_ w. (Inr (), w)))" by (rule sys_grows) (rule return_grows)
  then have "extends (w\<lparr>fds := (fds w)(fd := None)\<rparr>) (snd (sys_close fd w))" unfolding sys_close_def grows_def by blast
  then show "extends w (snd (sys_close fd w))" by simp
qed

lemma close_extends: "extends w (snd (sys_close fd (w\<lparr>scoped_fd := None\<rparr>)))"
  using sys_close_grows[of fd, unfolded grows_def, rule_format, of "w\<lparr>scoped_fd := None\<rparr>"] by simp

lemma ScopedFd_close_grows [growing]: "grows ScopedFd_close"
  by (rule growsI) (simp add: ScopedFd_close_def close_extends split: option.splits)

lemma throw_grows [growing]: "grows (ThrowFileError e action p)"
  by (rule growsI) (simp add: ThrowFileError_def)

lemma or_throw_grows [growing]: "grows c \<Longrightarrow> grows (or_throw c action p)"
  unfolding grows_def or_throw_def ThrowFileError_def by (auto split: prod.splits sum.splits) (metis snd_conv)+

lemma bindF_grows [growing]: "grows m \<Longrightarrow> (\<And>x. grows (f x)) \<Longrightarrow> grows (bindF m f)"
  unfolding grows_def bindF_def by (auto split: prod.splits sum.splits) (metis extends_trans snd_conv)+

lemma WriteAll_grows [growing]: "grows (WriteAll fd content p)"
proof (rule growsI)
  fix w
  show "extends w (snd (WriteAll fd content p w))"
  proof (induction fd content p w rule: WriteAll.induct)
    case (1 fd content p w)
    obtain r w' where r: "sys_write fd content w = (r, w')" by fastforce
    have first: "extends w w'" using growsD[OF sys_write_grows r] .
    show ?case
    proof (cases "content = []")
      case True
      then show ?thesis by (subst WriteAll.simps) simp
    next
      case False
      then show ?thesis using 1 first r
        by (subst WriteAll.simps) (auto simp: ThrowFileError_def split: sum.splits intro: extends_trans[OF first])
    qed
  qed
qed

lemma fetch_add_grows [growing]: "grows fetch_add"
  by (rule growsI) (auto simp: fetch_add_def split: list.splits)

lemma RandomBits_grows [growing]: "grows RandomBits"
  by (rule growsI) (auto simp: RandomBits_def split: list.splits option.splits)

lemma CreateTempFile_loop_grows [growing]: "grows (CreateTempFile_loop n d name p)"
proof (induction n)
  case (Suc n)
  show ?case
  proof (rule growsI)
    fix w
    obtain c w0 where c: "fetch_add w = (c, w0)" by fastforce
    obtain bits w1 where bits: "RandomBits w0 = (bits, w1)" by fastforce
    define t where "t = d @ ''/'' @ temp_name name (temp_suffix (pid w) c bits)"
    obtain r w2 where r: "sys_create t 0x1B6 w1 = (r, w2)" by fastforce
    have first: "extends w w2"
      using growsD[OF fetch_add_grows c] growsD[OF RandomBits_grows bits] growsD[OF sys_create_grows r] extends_trans by blast
    moreover have "extends w (snd (CreateTempFile_loop n d name p w2))"
      using Suc first extends_trans unfolding grows_def by blast
    ultimately show "extends w (snd (CreateTempFile_loop (Suc n) d name p w))"
      using c bits r by (cases r) (auto simp: t_def ThrowFileError_def)
  qed
qed (simp add: grows_def ThrowFileError_def)

lemma VerifyTempFile_grows [growing]: "grows (VerifyTempFile fd tp p)"
  unfolding VerifyTempFile_def
  by (intro growing) (auto simp: grows_def ThrowFileError_def)

lemma SyncDirectory_extends: "extends w (SyncDirectory d w)"
proof -
  obtain r w' where r: "sys_open_dir d w = (r, w')" by fastforce
  have "extends w w'" "extends w' (snd (sys_fsync fd w'))" "extends w'' (snd (sys_close fd w''))" for fd w''
    using growsD[OF sys_open_dir_grows r] sys_fsync_grows sys_close_grows unfolding grows_def by auto
  then have "extends w w'" "extends w (snd (sys_close fd (snd (sys_fsync fd w'))))" for fd using extends_trans by blast+
  then show ?thesis using r by (cases r) (auto simp: SyncDirectory_def)
qed

lemma replace_tail_grows [growing]: "grows (\<lambda>w. (x, SyncDirectory d (TempFileGuard_release w)))"
  by (rule growsI) (use SyncDirectory_extends[of "TempFileGuard_release _"] in \<open>simp add: TempFileGuard_release_def\<close>)

lemma replace_body_grows [growing]: "grows (replace_body p content tm temp)"
  unfolding replace_body_def Let_def by (intro growing)

lemma destroy_extends: "extends w (TempFileGuard_destroy w)"
proof -
  have o: "extends w (snd (let_others w))" using let_others_grows unfolding grows_def by blast
  then have "extends w (sys_unlink p w)" for p by (auto simp: sys_unlink_def Let_def intro: extends_put)
  then show ?thesis by (auto simp: TempFileGuard_destroy_def split: option.splits)
qed

lemma reset_extends: "extends w (ScopedFd_reset w)"
  by (simp add: ScopedFd_reset_def close_extends split: option.splits)

lemma TargetMode_grows [growing]: "grows (TargetMode p)"
  using sys_lstat_grows[of p] unfolding grows_def TargetMode_def by (auto split: prod.splits sum.splits) (metis snd_conv)+

lemma replace_grows:
  "grows (\<lambda>w. finally_do (finally_do (replace_body p content tm temp) TempFileGuard_destroy) ScopedFd_reset
      (w\<lparr>scoped_fd := Some (fst temp), guard_path := Some (snd temp)\<rparr>))" (is "grows ?m")
proof (rule growsI)
  fix w :: fworld
  let ?w = "w\<lparr>scoped_fd := Some (fst temp), guard_path := Some (snd temp)\<rparr>"
  obtain b w3 where b: "replace_body p content tm temp ?w = (b, w3)" by fastforce
  have "extends w w3" using growsD[OF replace_body_grows b] by simp
  then have "extends w (ScopedFd_reset (TempFileGuard_destroy w3))"
    using destroy_extends reset_extends extends_trans by blast
  then show "extends w (snd (?m w))" using b by (simp add: finally_do_def)
qed

lemma write_file_atomic_grows: "grows (write_file_atomic p content)"
proof (rule growsI)
  fix w
  obtain tm w1 where tm: "TargetMode p w = (tm, w1)" by fastforce
  have "grows (bindF (CreateTempFile (directory_of p) (filename p) p) (\<lambda>temp w2.
           finally_do (finally_do (replace_body p content tm temp) TempFileGuard_destroy) ScopedFd_reset
             (w2\<lparr>scoped_fd := Some (fst temp), guard_path := Some (snd temp)\<rparr>)))"
    unfolding CreateTempFile_def by (rule bindF_grows[OF CreateTempFile_loop_grows replace_grows])
  then show "extends w (snd (write_file_atomic p content w))"
    using growsD[OF TargetMode_grows tm] tm extends_trans unfolding grows_def write_file_atomic_def by auto
qed

text \<open>When nobody else acts, all changes are the program's own.\<close>

definition no_others :: "fworld \<Rightarrow> bool" where
  "no_others w \<longleftrightarrow> (\<forall>(r, acts) \<in> set (steps w). acts = [])"

lemma all_own:
  assumes "grows m" and "no_others w" and "changes w = []" and "c \<in> set (changes (snd (m w)))"
  shows "fst c"
proof -
  obtain used where used: "steps w = used @ steps (snd (m w))"
      "length (filter (\<lambda>c. \<not> fst c) (changes (snd (m w)))) = length (concat (map snd used))"
    using assms(1,3) unfolding grows_def extends_def by fastforce
  have "concat (map snd used) = []" using assms(2) used(1) by (auto simp: no_others_def)
  then have "filter (\<lambda>c. \<not> fst c) (changes (snd (m w))) = []" using used(2) by (simp only: list.size length_0_conv)
  then show ?thesis using assms(4) by (simp add: filter_empty_conv)
qed

section \<open>Assuming and guaranteeing\<close>

text \<open>
  A program keeps a guarantee as long as the others have kept to the assumption: its change respects \<open>guar\<close> when all the changes of the
  others before it respect \<open>friend\<close>.
\<close>

definition good :: "(fsys \<Rightarrow> fsys \<Rightarrow> bool) \<Rightarrow> change list \<Rightarrow> bool" where
  "good friend cs \<longleftrightarrow> (\<forall>(own, s, s') \<in> set cs. own \<or> friend s s')"

definition guarded :: "(fsys \<Rightarrow> fsys \<Rightarrow> bool) \<Rightarrow> (fsys \<Rightarrow> fsys \<Rightarrow> bool) \<Rightarrow> change list \<Rightarrow> bool" where
  "guarded friend guar cs \<longleftrightarrow> (\<forall>n < length cs. good friend (take n cs) \<longrightarrow> fst (cs ! n) \<longrightarrow> guar (fst (snd (cs ! n))) (snd (snd (cs ! n))))"

lemmas call_grows = grows_def extends_def put_fs_def open_desc_def with_file_def Let_def

lemma good_append: "good friend (xs @ ys) \<longleftrightarrow> good friend xs \<and> good friend ys"
  by (auto simp: good_def)

lemma guarded_all: "\<forall>(own, s, s') \<in> set cs. own \<longrightarrow> guar s s' \<Longrightarrow> guarded friend guar cs"
  unfolding guarded_def by (metis (no_types, lifting) case_prod_beta nth_mem)

lemma guarded_after_bad:
  assumes "guarded friend guar cs" and "\<not> good friend cs"
  shows "guarded friend guar (cs @ ds)"
  unfolding guarded_def
proof (intro allI impI)
  fix n
  assume n: "n < length (cs @ ds)" "good friend (take n (cs @ ds))" "fst ((cs @ ds) ! n)"
  have "n < length cs"
  proof (rule ccontr)
    assume "\<not> n < length cs"
    then have "take n (cs @ ds) = cs @ take (n - length cs) ds" by simp
    then show False using n(2) assms(2) by (simp add: good_append)
  qed
  then show "guar (fst (snd ((cs @ ds) ! n))) (snd (snd ((cs @ ds) ! n)))"
    using assms(1) n unfolding guarded_def by (auto simp: nth_append)
qed

end
