(* ===== verification/File_Replacement.thy ===== *)
theory File_Replacement
  imports File_Changes
begin

text \<open>
  The protocol of \<^verbatim>\<open>write_file_atomic\<close> as a locale: the states before, during and after the life of the temporary file, what others may do in each,
  and the calls between them. A Hoare-style triple over the system calls proves once that the code follows the protocol on every path, the error paths and
  destructors included.
\<close>

section \<open>The protocol of a replacement\<close>

text \<open>
  The entries an atomic write may use for its temporary file when it draws the numbers \<open>K\<close> from the counter, and the mode it gives the new file.
\<close>

definition temp_entries :: "string \<Rightarrow> 64 word \<Rightarrow> (64 word) set \<Rightarrow> entry set" where
  "temp_entries path p K = {(directory_of path, temp_name (filename path) (temp_suffix p c r)) | c r. c \<in> K}"

definition mode_at :: "fsys \<Rightarrow> entry \<Rightarrow> 32 word option" where
  "mode_at s e =
     (case dir s e of
        None \<Rightarrow> None
      | Some i \<Rightarrow> if i_kind (inode_of s i) \<noteq> Regular then None else Some (i_mode (inode_of s i) AND 0x1FF))"

definition final_mode :: "32 word \<Rightarrow> 32 word option \<Rightarrow> 32 word" where
  "final_mode um tm = (case tm of Some m \<Rightarrow> m | None \<Rightarrow> (0x1B6 AND NOT um) AND 0x1FF)"

text \<open>
  What a replacement of the file at \<open>path\<close> goes through: the states of the file system before the temporary file exists, during its
  life and after the renaming, each closed under what the others may do, with the calls leading from one to the next. The others do things of
  \<open>menu\<close>, and are assumed to keep to \<open>friend\<close>; the program keeps to \<open>guar\<close>. The kernel answers with numbers of \<open>answers\<close>; it refuses
  nothing when they are positive.
\<close>

locale replacement =
  fixes path content :: string and P :: "64 word" and K :: "(64 word) set" and M :: "32 word" and U lstat_may_fail :: bool and answers :: "int set"
    and menu :: "(fsys \<Rightarrow> fsys) set" and friend guar :: "fsys \<Rightarrow> fsys \<Rightarrow> bool"
    and before after visible_ok :: "fsys \<Rightarrow> bool" and during :: "entry \<Rightarrow> nat \<Rightarrow> fsys \<Rightarrow> bool"
    and mode_ok :: "32 word option \<Rightarrow> bool"
  assumes before_friend: "f \<in> menu \<Longrightarrow> friend s (f s) \<Longrightarrow> before s \<Longrightarrow> before (f s)"
    and during_friend: "f \<in> menu \<Longrightarrow> friend s (f s) \<Longrightarrow> during t i s \<Longrightarrow> during t i (f s) \<and> inode_of (f s) i = inode_of s i"
    and after_friend: "f \<in> menu \<Longrightarrow> friend s (f s) \<Longrightarrow> after s \<Longrightarrow> after (f s)"
    and before_visible: "before s \<Longrightarrow> visible_ok s"
    and during_visible: "during t i s \<Longrightarrow> visible_ok s"
    and after_visible: "after s \<Longrightarrow> visible_ok s"
    and before_mode: "before s \<Longrightarrow> mode_ok (mode_at s (resolve path))"
    and refused_mode: "lstat_may_fail \<Longrightarrow> mode_ok None"
    and create: "before s \<Longrightarrow> t \<in> temp_entries path P K \<Longrightarrow> dir s t = None
      \<Longrightarrow> during t (next_ino s) (create_file t m s) \<and> guar s (create_file t m s)"
    and free: "answers \<subseteq> {0<..} \<Longrightarrow> before s \<Longrightarrow> t \<in> temp_entries path P K \<Longrightarrow> dir s t = None"
    and named: "during t i s \<Longrightarrow> dir s t = Some i"
    and update: "during t i s \<Longrightarrow> (\<And>n. i_kind (g n) = i_kind n)
      \<Longrightarrow> during t i (update_inode i g s) \<and> guar s (update_inode i g s)"
    and unlink: "during t i s \<Longrightarrow> before (unlink_entry t s) \<and> guar s (unlink_entry t s)"
    and replaceable: "answers \<subseteq> {0<..} \<Longrightarrow> during t i s \<Longrightarrow> snd (resolve path) \<notin> {[], ''.'', ''..''}
      \<and> (\<forall>j. dir s (resolve path) = Some j \<longrightarrow> i_kind (inode_of s j) \<noteq> Directory)"
    and rename: "during t i s \<Longrightarrow> i_data (inode_of s i) = content \<Longrightarrow> i_synced (inode_of s i)
      \<Longrightarrow> mode_ok tm \<Longrightarrow> i_mode (inode_of s i) = final_mode M tm \<Longrightarrow> snd (resolve path) \<notin> {[], ''.'', ''..''}
      \<Longrightarrow> after (rename_entry t (resolve path) s) \<and> guar s (rename_entry t (resolve path) s)"
    and settle: "after s \<Longrightarrow> after (s\<lparr>dirty := d\<rparr>) \<and> guar s (s\<lparr>dirty := d\<rparr>)"
begin

definition ok :: "(fworld \<Rightarrow> bool) \<Rightarrow> fworld \<Rightarrow> bool" where
  "ok Q w \<longleftrightarrow> Q w \<and> (\<forall>(own, s, s') \<in> set (changes w). (if own then guar s s' else friend s s') \<and> visible_ok s')
     \<and> (\<forall>(r, acts) \<in> set (steps w). r \<in> answers \<and> set acts \<subseteq> menu)
     \<and> (\<forall>fd \<ge> next_fd w. fds w fd = None) \<and> unlink_ok w = U \<and> umask w = M \<and> pid w = P"

text \<open>When the others have not kept to the assumption, nothing more is known than that the program kept its guarantee until then.\<close>

definition broken :: "fworld \<Rightarrow> bool" where
  "broken w \<longleftrightarrow> \<not> good friend (changes w) \<and> guarded friend guar (changes w)"

definition outcome :: "('a \<Rightarrow> fworld \<Rightarrow> bool) \<Rightarrow> (fworld \<Rightarrow> bool) \<Rightarrow> ('e + 'a) \<times> fworld \<Rightarrow> bool" where
  "outcome R E rw \<longleftrightarrow> broken (snd rw) \<or>
     (case rw of (Inr x, w') \<Rightarrow> ok (R x) w' | (Inl _, w') \<Rightarrow> ok E w' \<and> \<not> answers \<subseteq> {0<..})"

definition triple :: "(fworld \<Rightarrow> bool) \<Rightarrow> (fworld \<Rightarrow> ('e + 'a) \<times> fworld) \<Rightarrow> ('a \<Rightarrow> fworld \<Rightarrow> bool) \<Rightarrow> (fworld \<Rightarrow> bool) \<Rightarrow> bool" where
  "triple Q m R E \<longleftrightarrow> (\<forall>w. ok Q w \<longrightarrow> outcome R E (m w))"

lemma tripleI: "(\<And>w. ok Q w \<Longrightarrow> outcome R E (m w)) \<Longrightarrow> triple Q m R E"
  by (simp add: triple_def)

lemma tripleD: "triple Q m R E \<Longrightarrow> ok Q w \<Longrightarrow> outcome R E (m w)"
  by (simp add: triple_def)

lemma outcome_Inr [simp]: "outcome R E (Inr x, w) \<longleftrightarrow> broken w \<or> ok (R x) w"
  by (simp add: outcome_def)

lemma outcome_Inl [simp]: "outcome R E (Inl e, w) \<longleftrightarrow> broken w \<or> ok E w \<and> \<not> answers \<subseteq> {0<..}"
  by (simp add: outcome_def)

lemma outcome_broken: "broken (snd rw) \<Longrightarrow> outcome R E rw"
  by (simp add: outcome_def)

lemma ok_good: "ok Q w \<Longrightarrow> good friend (changes w) \<and> guarded friend guar (changes w)"
  unfolding ok_def good_def by (intro conjI guarded_all) (auto split: if_splits)

lemma broken_longer: "broken w \<Longrightarrow> changes w' = changes w @ cs \<Longrightarrow> broken w'"
  unfolding broken_def by (auto simp: good_append intro: guarded_after_bad)

lemma broken_extends: "broken w \<Longrightarrow> extends w w' \<Longrightarrow> broken w'"
  unfolding extends_def using broken_longer by blast

lemma broken_grows: "broken w \<Longrightarrow> grows m \<Longrightarrow> broken (snd (m w))"
  using broken_extends unfolding grows_def by blast

lemma bind_triple:
  assumes "triple Q m R E" and "\<And>x. triple (R x) (f x) S E" and "\<And>x. grows (f x)"
  shows "triple Q (bindF m f) S E"
proof (rule tripleI)
  fix w
  assume "ok Q w"
  from tripleD[OF assms(1) this] have o: "outcome R E (m w)" .
  obtain r w' where r: "m w = (r, w')" by fastforce
  show "outcome S E (bindF m f w)"
  proof (cases r)
    case (Inl e)
    then show ?thesis using o r by (simp add: bindF_def)
  next
    case (Inr x)
    then have "broken w' \<or> ok (R x) w'" using o r by simp
    then have "outcome S E (f x w')"
      using tripleD[OF assms(2)] outcome_broken[OF broken_grows[OF _ assms(3)]] by blast
    then show ?thesis using r Inr by (simp add: bindF_def)
  qed
qed

lemma throw_triple: "triple Q c R E \<Longrightarrow> triple Q (or_throw c action p) R E"
  unfolding triple_def or_throw_def ThrowFileError_def outcome_def
  by (auto split: prod.splits sum.splits) (metis snd_conv prod.inject sum.inject sum.distinct)+

lemma ok_weaken: "ok Q w \<Longrightarrow> (\<And>w. Q w \<Longrightarrow> R w) \<Longrightarrow> ok R w"
  by (simp add: ok_def)

definition stable :: "(fworld \<Rightarrow> bool) \<Rightarrow> bool" where
  "stable Q \<longleftrightarrow> (\<forall>w rest. Q w \<longrightarrow> Q (w\<lparr>steps := rest\<rparr>))
     \<and> (\<forall>w. \<forall>f \<in> menu. Q w \<longrightarrow> friend (fs w) (f (fs w)) \<longrightarrow> Q (put_other f w) \<and> visible_ok (f (fs w)))"

lemma stableI:
  assumes "\<And>w rest. Q w \<Longrightarrow> Q (w\<lparr>steps := rest\<rparr>)"
    and "\<And>w f. Q w \<Longrightarrow> f \<in> menu \<Longrightarrow> friend (fs w) (f (fs w)) \<Longrightarrow> Q (put_other f w) \<and> visible_ok (f (fs w))"
  shows "stable Q"
  using assms by (simp add: stable_def)

lemma ok_other:
  assumes "ok Q w" and "stable Q" and "f \<in> menu"
  shows "ok Q (put_other f w) \<or> broken (put_other f w)"
proof (cases "friend (fs w) (f (fs w))")
  case True
  then have "Q (put_other f w)" "visible_ok (f (fs w))" using assms by (auto simp: stable_def ok_def)
  then show ?thesis using assms(1) True unfolding ok_def put_other_def by auto
next
  case False
  have "guarded friend guar (changes w @ [(False, fs w, f (fs w))])"
    using assms(1) by (intro guarded_all) (auto simp: ok_def split: if_splits)
  then show ?thesis using False by (simp add: broken_def put_other_def good_def)
qed

lemma ok_others:
  assumes "ok Q w \<or> broken w" and "stable Q" and "set acts \<subseteq> menu"
  shows "ok Q (fold put_other acts w) \<or> broken (fold put_other acts w)"
  using assms
proof (induction acts arbitrary: w)
  case (Cons f acts)
  have "broken (put_other f w)" if "broken w"
    by (rule broken_longer[OF that, of _ "[(False, fs w, f (fs w))]"]) (simp add: put_other_def)
  then have "ok Q (put_other f w) \<or> broken (put_other f w)" using Cons.prems ok_other by auto
  then show ?case using Cons by simp
qed simp

lemma let_others_ok:
  assumes "ok Q w" and "stable Q" and "let_others w = (r, w')"
  shows "ok Q w' \<or> broken w'" and "answers \<subseteq> {0<..} \<Longrightarrow> r = Some k \<Longrightarrow> 0 < k"
proof -
  have "(ok Q w' \<or> broken w') \<and> (answers \<subseteq> {0<..} \<longrightarrow> (\<forall>k. r = Some k \<longrightarrow> 0 < k))"
  proof (cases "steps w")
    case Nil
    then show ?thesis using assms by (simp add: let_others_def)
  next
    case (Cons a rest)
    obtain k acts where a: "a = (k, acts)" by (cases a)
    have k: "k \<in> answers" "set acts \<subseteq> menu" using assms(1) Cons a by (simp_all add: ok_def)
    have "Q (w\<lparr>steps := rest\<rparr>)" using assms(1,2) by (simp add: ok_def stable_def)
    then have "ok Q (w\<lparr>steps := rest\<rparr>)" using assms(1) Cons by (simp add: ok_def)
    then have "ok Q (fold put_other acts (w\<lparr>steps := rest\<rparr>)) \<or> broken (fold put_other acts (w\<lparr>steps := rest\<rparr>))"
      by (intro ok_others assms(2) k(2)) simp
    then show ?thesis using assms(3) Cons a k(1) by (auto simp: let_others_def)
  qed
  then show "ok Q w' \<or> broken w'" "answers \<subseteq> {0<..} \<Longrightarrow> r = Some k \<Longrightarrow> 0 < k" by simp_all
qed

lemma sys_triple:
  assumes "stable Q" and weaken: "\<And>w. Q w \<Longrightarrow> E w"
    and call: "\<And>n w. (answers \<subseteq> {0<..} \<Longrightarrow> n \<noteq> Some 0) \<Longrightarrow> ok Q w \<Longrightarrow> outcome R E (call n w)"
    and grows: "\<And>n. grows (call n)"
  shows "triple Q (sys call) R E"
proof (rule tripleI)
  fix w
  assume w: "ok Q w"
  obtain r w' where r: "let_others w = (r, w')" by fastforce
  note step = let_others_ok[OF w assms(1) r]
  have carry: "outcome R E (call n w')" if "answers \<subseteq> {0<..} \<Longrightarrow> n \<noteq> Some 0" for n
    using step(1) call[OF that] outcome_broken[OF broken_grows[OF _ grows]] by blast
  show "outcome R E (sys call w)"
  proof (cases r)
    case None
    then show ?thesis using carry[of None] r by (simp add: sys_def)
  next
    case (Some k)
    show ?thesis
    proof (cases "k < 0")
      case True
      have "ok E w' \<or> broken w'" using step(1) ok_weaken weaken by blast
      moreover have "\<not> answers \<subseteq> {0<..}" using step(2)[OF _ Some] True by force
      ultimately show ?thesis using True r Some by (auto simp: sys_def)
    next
      case False
      have "answers \<subseteq> {0<..} \<Longrightarrow> Some (nat k) \<noteq> Some 0" using step(2)[OF _ Some] by simp
      from carry[OF this] show ?thesis using False r Some by (simp add: sys_def)
    qed
  qed
qed

end

text \<open>The temporary file while it is open, with what is known of its inode, and once it is closed.\<close>

context replacement
begin

definition opened :: "(nat \<Rightarrow> desc option) \<Rightarrow> nat \<Rightarrow> string \<Rightarrow> nat \<Rightarrow> (inode \<Rightarrow> bool) \<Rightarrow> fworld \<Rightarrow> bool" where
  "opened F fd tp i g w \<longleftrightarrow> during (resolve tp) i (fs w) \<and> g (inode_of (fs w) i)
     \<and> fds w = F(fd \<mapsto> F_desc i (length (i_data (inode_of (fs w) i))))
     \<and> F fd = None \<and> scoped_fd w = Some fd \<and> guard_path w = Some tp"

definition closed :: "(nat \<Rightarrow> desc option) \<Rightarrow> string \<Rightarrow> nat \<Rightarrow> (inode \<Rightarrow> bool) \<Rightarrow> fworld \<Rightarrow> bool" where
  "closed F tp i g w \<longleftrightarrow> during (resolve tp) i (fs w) \<and> g (inode_of (fs w) i) \<and> fds w = F \<and> scoped_fd w = None \<and> guard_path w = Some tp"

text \<open>What a failure leaves to the destructors.\<close>

definition leftover :: "(nat \<Rightarrow> desc option) \<Rightarrow> string \<Rightarrow> fworld \<Rightarrow> bool" where
  "leftover F tp w \<longleftrightarrow> (\<exists>fd i. opened F fd tp i (\<lambda>_. True) w \<or> closed F tp i (\<lambda>_. True) w)"

lemma opened_leftover: "opened F fd tp i g w \<Longrightarrow> leftover F tp w"
  unfolding leftover_def opened_def closed_def by blast

lemma closed_leftover: "closed F tp i g w \<Longrightarrow> leftover F tp w"
  unfolding leftover_def opened_def closed_def by blast

lemma ok_same: "ok Q w \<Longrightarrow> R w \<Longrightarrow> ok R w"
  unfolding ok_def by blast

lemma okD: "ok Q w \<Longrightarrow> Q w"
  unfolding ok_def by blast

lemma stable_opened: "stable (opened F fd tp i g)"
proof (rule stableI, goal_cases)
  case (2 w f)
  then have "during (resolve tp) i (f (fs w))" "inode_of (f (fs w)) i = inode_of (fs w) i"
    using during_friend[of f "fs w" "resolve tp" i] by (auto simp: opened_def)
  then show ?case using 2 during_visible by (auto simp: opened_def put_other_def)
qed (simp add: opened_def)

lemma stable_closed: "stable (closed F tp i g)"
proof (rule stableI, goal_cases)
  case (2 w f)
  then have "during (resolve tp) i (f (fs w))" "inode_of (f (fs w)) i = inode_of (fs w) i"
    using during_friend[of f "fs w" "resolve tp" i] by (auto simp: closed_def)
  then show ?case using 2 during_visible by (auto simp: closed_def put_other_def)
qed (simp add: closed_def)

lemma ok_put:
  assumes "ok Q w" and "R (put_fs s w)" and "visible_ok s" and "guar (fs w) s"
  shows "ok R (put_fs s w)"
  using assms unfolding ok_def put_fs_def by auto

lemma opened_update:
  assumes "opened F fd tp i g w" and "i_data (h (inode_of (fs w) i)) = i_data (inode_of (fs w) i)" and "g' (h (inode_of (fs w) i))"
    and "\<And>n. i_kind (h n) = i_kind n"
  shows "opened F fd tp i g' (put_fs (update_inode i h (fs w)) w)" and "visible_ok (update_inode i h (fs w))"
    and "guar (fs w) (update_inode i h (fs w))"
proof -
  have u: "during (resolve tp) i (update_inode i h (fs w))" "guar (fs w) (update_inode i h (fs w))"
    using assms(1) update[of "resolve tp" i "fs w" h, OF _ assms(4)] by (simp_all add: opened_def)
  show "opened F fd tp i g' (put_fs (update_inode i h (fs w)) w)"
    using assms(1-3) u by (auto simp: opened_def put_fs_def) (auto simp: update_inode_def)
  show "visible_ok (update_inode i h (fs w))" "guar (fs w) (update_inode i h (fs w))" using u during_visible by auto
qed

lemma fstat_triple:
  "triple (opened F fd tp i g) (sys_fstat fd) (\<lambda>st w. fst st = i \<and> g (snd st) \<and> opened F fd tp i g w) (leftover F tp)"
  unfolding sys_fstat_def
proof (rule sys_triple[OF stable_opened opened_leftover], goal_cases)
  case (2 n w)
  from okD[OF 2(2)] have "g (inode_of (fs w) i) \<and> opened F fd tp i g w" "fds w fd = Some (F_desc i (length (i_data (inode_of (fs w) i))))"
    by (simp_all add: opened_def)
  then show ?case using ok_same[OF 2(2)] by (simp add: with_file_def)
qed (auto simp: call_grows split: option.splits desc.splits)

lemma lstat_temp_triple:
  "triple (opened F fd tp i g) (sys_lstat tp) (\<lambda>st w. fst st = i \<and> opened F fd tp i g w) (leftover F tp)"
  unfolding sys_lstat_def
proof (rule sys_triple[OF stable_opened opened_leftover], goal_cases)
  case (2 n w)
  from okD[OF 2(2)] have "opened F fd tp i g w" "dir (fs w) (resolve tp) = Some i"
    by (simp_all add: opened_def named)
  then show ?case using ok_same[OF 2(2)] by simp
qed (auto simp: call_grows split: option.splits desc.splits)

lemma fchmod_triple:
  assumes "\<And>n. g n \<Longrightarrow> g' (chmod m n)"
  shows "triple (opened F fd tp i g) (sys_fchmod fd m) (\<lambda>_. opened F fd tp i g') (leftover F tp)"
  unfolding sys_fchmod_def
proof (rule sys_triple[OF stable_opened opened_leftover], goal_cases)
  case (2 n w)
  then have o: "opened F fd tp i g w" by (simp add: okD)
  then have "opened F fd tp i g' (put_fs (update_inode i (chmod m) (fs w)) w)" "visible_ok (update_inode i (chmod m) (fs w))"
      "guar (fs w) (update_inode i (chmod m) (fs w))"
    using opened_update[OF o, of "chmod m" g'] assms by (auto simp: chmod_def opened_def)
  then show ?case
    using ok_put[OF 2(2)] o by (simp add: with_file_def opened_def[of F fd tp i g])
qed (auto simp: call_grows split: option.splits desc.splits)

lemma fsync_triple:
  assumes "\<And>n. g n \<Longrightarrow> g' (flushed n)"
  shows "triple (opened F fd tp i g) (sys_fsync fd) (\<lambda>_. opened F fd tp i g') (leftover F tp)"
  unfolding sys_fsync_def
proof (rule sys_triple[OF stable_opened opened_leftover], goal_cases)
  case (2 n w)
  then have o: "opened F fd tp i g w" by (simp add: okD)
  then have "opened F fd tp i g' (put_fs (update_inode i flushed (fs w)) w)" "visible_ok (update_inode i flushed (fs w))"
      "guar (fs w) (update_inode i flushed (fs w))"
    using opened_update[OF o, of flushed g'] assms by (auto simp: flushed_def opened_def)
  then show ?case
    using ok_put[OF 2(2)] o by (simp add: opened_def[of F fd tp i g])
qed (auto simp: call_grows split: option.splits desc.splits)

lemma overwrite_end: "overwrite (length (i_data n)) bytes n = n\<lparr>i_data := i_data n @ bytes, i_synced := False\<rparr>"
  by (simp add: overwrite_def)

lemma overwrite_kind: "i_kind (overwrite off bytes n) = i_kind n"
  by (simp add: overwrite_def)

lemma opened_write:
  assumes "opened F fd tp i (\<lambda>n. i_data n = d) w" and "off = length d"
  shows "opened F fd tp i (\<lambda>n. i_data n = d @ bytes)
      ((put_fs (update_inode i (overwrite off bytes) (fs w)) w)\<lparr>fds := (fds w)(fd \<mapsto> F_desc i (off + length bytes))\<rparr>)"
    and "visible_ok (update_inode i (overwrite off bytes) (fs w))" and "guar (fs w) (update_inode i (overwrite off bytes) (fs w))"
proof -
  have u: "during (resolve tp) i (update_inode i (overwrite off bytes) (fs w))" "guar (fs w) (update_inode i (overwrite off bytes) (fs w))"
    using assms(1) update[of "resolve tp" i "fs w" "overwrite off bytes", OF _ overwrite_kind] by (simp_all add: opened_def)
  show "opened F fd tp i (\<lambda>n. i_data n = d @ bytes)
      ((put_fs (update_inode i (overwrite off bytes) (fs w)) w)\<lparr>fds := (fds w)(fd \<mapsto> F_desc i (off + length bytes))\<rparr>)"
    using assms u by (auto simp: opened_def put_fs_def) (auto simp: update_inode_def overwrite_def)
  show "visible_ok (update_inode i (overwrite off bytes) (fs w))" "guar (fs w) (update_inode i (overwrite off bytes) (fs w))"
    using u during_visible by auto
qed

lemma ok_fds:
  assumes "ok Q w" and "R (w\<lparr>fds := F\<rparr>)" and "\<And>fd. F fd \<noteq> None \<Longrightarrow> fds w fd \<noteq> None"
  shows "ok R (w\<lparr>fds := F\<rparr>)"
  using assms unfolding ok_def by simp (metis not_None_eq)

lemma write_triple:
  "triple (opened F fd tp i (\<lambda>n. i_data n = d)) (sys_write fd data)
    (\<lambda>k w. (answers \<subseteq> {0<..} \<longrightarrow> data \<noteq> [] \<longrightarrow> k \<noteq> 0) \<and> k \<le> length data \<and> opened F fd tp i (\<lambda>n. i_data n = d @ take k data) w)
    (opened F fd tp i (\<lambda>n. i_data n = d))"
  unfolding sys_write_def
proof (rule sys_triple[OF stable_opened], goal_cases)
  case (2 n w)
  define bytes where "bytes = take (case n of None \<Rightarrow> length data | Some m \<Rightarrow> m) data"
  define w1 where "w1 = put_fs (update_inode i (overwrite (length d) bytes) (fs w)) w"
  from okD[OF 2(2)] have o: "opened F fd tp i (\<lambda>n. i_data n = d) w" .
  have fd: "fds w fd = Some (F_desc i (length d))" using o by (auto simp: opened_def)
  have "ok (\<lambda>_. True) w1" unfolding w1_def using opened_write(2,3)[OF o refl] by (intro ok_put[OF 2(2)]) simp_all
  then have "ok (opened F fd tp i (\<lambda>n. i_data n = d @ bytes)) (w1\<lparr>fds := (fds w)(fd \<mapsto> F_desc i (length d + length bytes))\<rparr>)"
    using opened_write(1)[OF o refl, of bytes] fd by (intro ok_fds) (auto simp: w1_def put_fs_def split: if_splits)
  moreover have "answers \<subseteq> {0<..} \<longrightarrow> data \<noteq> [] \<longrightarrow> length bytes \<noteq> 0" using 2(1) by (auto simp: bytes_def split: option.splits)
  moreover have "length bytes \<le> length data" "take (length bytes) data = bytes"
    by (auto simp: bytes_def min_def split: option.splits)
  ultimately have "ok (\<lambda>w. (answers \<subseteq> {0<..} \<longrightarrow> data \<noteq> [] \<longrightarrow> length bytes \<noteq> 0) \<and> length bytes \<le> length data
      \<and> opened F fd tp i (\<lambda>n. i_data n = d @ take (length bytes) data) w) (w1\<lparr>fds := (fds w)(fd \<mapsto> F_desc i (length d + length bytes))\<rparr>)"
    by (intro ok_same[OF _ conjI[OF _ conjI[OF _ okD]]]) simp_all
  then show ?case
    using fd by (simp add: with_file_def Let_def bytes_def[symmetric] w1_def[symmetric])
qed (auto simp: call_grows split: option.splits desc.splits)

lemma WriteAll_triple:
  "triple (opened F fd tp i (\<lambda>n. i_data n = d)) (WriteAll fd data p) (\<lambda>_. opened F fd tp i (\<lambda>n. i_data n = d @ data)) (leftover F tp)"
proof (rule tripleI)
  fix w
  assume "ok (opened F fd tp i (\<lambda>n. i_data n = d)) w"
  then show "outcome (\<lambda>_. opened F fd tp i (\<lambda>n. i_data n = d @ data)) (leftover F tp) (WriteAll fd data p w)"
  proof (induction fd data p w arbitrary: d rule: WriteAll.induct)
    case (1 fd data p w)
    obtain r w' where r: "sys_write fd data w = (r, w')" by fastforce
    note t = tripleD[OF write_triple[of F fd tp i d data] 1(3), unfolded r]
    show ?case
    proof (cases "data = [] \<or> broken w'")
      case True
      have "outcome R E (WriteAll fd data p w)" if "broken w'" "data \<noteq> []" for R E
      proof -
        have "broken (snd (WriteAll fd data' p w'))" for data' by (rule broken_grows[OF that(1) WriteAll_grows])
        then have "broken (snd (WriteAll fd data p w))"
          using r that by (subst WriteAll.simps) (auto simp: ThrowFileError_def split: sum.splits)
        then show ?thesis by (rule outcome_broken)
      qed
      moreover have "WriteAll fd [] p w = (Inr (), w)" by (subst WriteAll.simps) simp
      ultimately show ?thesis using True 1(3) by (cases "data = []") simp_all
    next
      case False
      then have ne: "data \<noteq> []" by simp
      show ?thesis
      proof (cases r)
        case (Inl e)
        have o: "ok (opened F fd tp i (\<lambda>n. i_data n = d)) w'" and nw: "\<not> answers \<subseteq> {0<..}"
          using t False unfolding Inl by simp_all
        show ?thesis
        proof (cases "e = EINTR")
          case True
          then show ?thesis using 1(1)[OF ne r[symmetric] Inl True o] ne r Inl by (subst WriteAll.simps) simp
        next
          case F: False
          then show ?thesis using ne r Inl nw ok_weaken[OF o opened_leftover]
            by (subst WriteAll.simps) (simp add: ThrowFileError_def)
        qed
      next
        case (Inr k)
        have o: "ok (opened F fd tp i (\<lambda>n. i_data n = d @ take k data)) w'" and k: "answers \<subseteq> {0<..} \<longrightarrow> k \<noteq> 0"
          using t Inr False ok_same okD by fastforce+
        show ?thesis
        proof (cases "k = 0")
          case True
          then show ?thesis using ne r Inr k ok_weaken[OF o opened_leftover]
            by (subst WriteAll.simps) (simp add: ThrowFileError_def)
        next
          case F: False
          then show ?thesis using 1(2)[OF ne r[symmetric] Inr F o, unfolded append_assoc append_take_drop_id] ne r Inr
            by (subst WriteAll.simps) simp
        qed
      qed
    qed
  qed
qed

end

context replacement
begin

lemma conseq_triple:
  assumes "triple Q m R E" and "\<And>w. Q' w \<Longrightarrow> Q w" and "\<And>x w. R x w \<Longrightarrow> R' x w" and "\<And>w. E w \<Longrightarrow> E' w"
  shows "triple Q' m R' E'"
proof (rule tripleI)
  fix w
  assume "ok Q' w"
  then have "ok Q w" using assms(2) ok_weaken by blast
  then have o: "outcome R E (m w)" by (rule tripleD[OF assms(1)])
  obtain r w' where r: "m w = (r, w')" by fastforce
  have "ok (R x) w' \<Longrightarrow> ok (R' x) w'" "ok E w' \<Longrightarrow> ok E' w'" for x by (auto intro: ok_weaken assms(3,4))
  then show "outcome R' E' (m w)" using o r by (cases r) auto
qed

lemma return_triple: "(\<And>w. Q w \<Longrightarrow> R x w) \<Longrightarrow> triple Q (\<lambda>w. (Inr x, w)) R E"
  by (rule tripleI) (auto intro: ok_weaken)

lemma pre_triple:
  assumes "\<And>w. Q w \<Longrightarrow> b" and "b \<Longrightarrow> triple Q m R E"
  shows "triple Q m R E"
proof (rule tripleI)
  fix w
  assume w: "ok Q w"
  have b using okD[OF w] by (rule assms(1))
  from tripleD[OF assms(2)[OF this] w]
  show "outcome R E (m w)" .
qed

lemma VerifyTempFile_triple:
  "triple (opened F fd tp i g) (VerifyTempFile fd tp p) (\<lambda>_. opened F fd tp i g) (leftover F tp)"
  unfolding VerifyTempFile_def
proof (rule bind_triple[OF throw_triple[OF fstat_triple]], rule pre_triple)
  fix fd_st :: "nat \<times> inode"
  show "fst fd_st = i" if "fst fd_st = i \<and> g (snd fd_st) \<and> opened F fd tp i g w" for w using that by blast
  assume st: "fst fd_st = i"
  show "triple (\<lambda>w. fst fd_st = i \<and> g (snd fd_st) \<and> opened F fd tp i g w)
     (bindF (or_throw (sys_lstat tp) ''cannot stat temporary file for'' p) (\<lambda>path_st w.
        if fst fd_st \<noteq> fst path_st then ThrowFileError EIO ''temporary file was replaced while writing'' p w else (Inr (), w)))
     (\<lambda>_. opened F fd tp i g) (leftover F tp)"
  proof (rule bind_triple)
    show "triple (\<lambda>w. fst fd_st = i \<and> g (snd fd_st) \<and> opened F fd tp i g w) (or_throw (sys_lstat tp) ''cannot stat temporary file for'' p)
       (\<lambda>st w. fst st = i \<and> opened F fd tp i g w) (leftover F tp)"
      by (rule conseq_triple[OF throw_triple[OF lstat_temp_triple]]) auto
    show "triple (\<lambda>w. fst path_st = i \<and> opened F fd tp i g w)
       (\<lambda>w. if fst fd_st \<noteq> fst path_st then ThrowFileError EIO ''temporary file was replaced while writing'' p w else (Inr (), w))
       (\<lambda>_. opened F fd tp i g) (leftover F tp)" for path_st :: "nat \<times> inode"
      by (rule pre_triple[of _ "fst path_st = i"]) (auto simp: st intro!: return_triple)
  qed (auto simp: call_grows ThrowFileError_def)
next
  show "grows (bindF (or_throw (sys_lstat tp) ''cannot stat temporary file for'' p) (\<lambda>path_st w.
        if fst x \<noteq> fst path_st then ThrowFileError EIO ''temporary file was replaced while writing'' p w else (Inr (), w)))" for x :: "nat \<times> inode"
    by (intro growing) (auto simp: call_grows ThrowFileError_def)
qed

lemma ok_close:
  assumes "ok (opened F fd tp i g) w"
  shows "ok (closed F tp i g) (w\<lparr>scoped_fd := None, fds := (fds w)(fd := None)\<rparr>)"
proof -
  from okD[OF assms] have o: "opened F fd tp i g w" .
  then have "(fds w)(fd := None) = F" by (auto simp: opened_def)
  then have "closed F tp i g (w\<lparr>scoped_fd := None, fds := (fds w)(fd := None)\<rparr>)" using o by (simp add: opened_def closed_def)
  then show ?thesis using assms unfolding ok_def by simp
qed

lemma skip_triple: "stable Q \<Longrightarrow> triple Q (sys (\<lambda>_ w. (Inr (), w))) (\<lambda>_. Q) Q"
  by (rule sys_triple) (auto simp: call_grows)

lemma close_triple: "triple (opened F fd tp i g) ScopedFd_close (\<lambda>_. closed F tp i g) (closed F tp i g)"
proof (rule tripleI)
  fix w
  assume w: "ok (opened F fd tp i g) w"
  then have "scoped_fd w = Some fd" by (auto simp: opened_def dest: okD)
  then show "outcome (\<lambda>_. closed F tp i g) (closed F tp i g) (ScopedFd_close w)"
    using tripleD[OF skip_triple[OF stable_closed] ok_close[OF w]]
    by (simp add: ScopedFd_close_def sys_close_def)
qed

definition replaced :: "(nat \<Rightarrow> desc option) \<Rightarrow> string option \<Rightarrow> fworld \<Rightarrow> bool" where
  "replaced F gp w \<longleftrightarrow> after (fs w) \<and> fds w = F \<and> scoped_fd w = None \<and> guard_path w = gp"

lemma stable_replaced: "stable (replaced F gp)"
  by (rule stableI) (auto simp: replaced_def put_other_def after_friend intro: after_visible)

lemma rename_triple:
  assumes "mode_ok tm"
  shows "triple (closed F tp i (\<lambda>n. i_data n = content \<and> i_mode n = final_mode M tm \<and> i_synced n)) (sys_rename tp path) (\<lambda>_. replaced F (Some tp)) (leftover F tp)"
  unfolding sys_rename_def
proof (rule sys_triple[OF stable_closed closed_leftover], goal_cases)
  case (2 n w)
  from okD[OF 2(2)] have d: "during (resolve tp) i (fs w)" and inode: "i_data (inode_of (fs w) i) = content"
      "i_mode (inode_of (fs w) i) = final_mode M tm" "i_synced (inode_of (fs w) i)" and F: "fds w = F" "scoped_fd w = None" "guard_path w = Some tp"
    by (auto simp: closed_def)
  have lo: "ok (leftover F tp) w" using 2(2) closed_leftover by (rule ok_weaken)
  have moved: "ok (replaced F (Some tp)) (put_fs (rename_entry (resolve tp) (resolve path) (fs w)) w)" if "snd (resolve path) \<notin> {[], ''.'', ''..''}"
  proof -
    have "after (rename_entry (resolve tp) (resolve path) (fs w)) \<and> guar (fs w) (rename_entry (resolve tp) (resolve path) (fs w))" by (rule rename[OF d inode(1,3) assms inode(2) that])
    then show ?thesis using F after_visible by (intro ok_put[OF 2(2)]) (auto simp: replaced_def put_fs_def)
  qed
  have some: "dir (fs w) (resolve tp) \<noteq> None" using named[OF d] by simp
  note allowed = replaceable[OF _ d]
  show ?case
  proof (cases "snd (resolve path) \<in> {[], ''.'', ''..''}")
    case True
    then have "\<not> answers \<subseteq> {0<..}" using allowed by blast
    then show ?thesis using True some lo by (simp only: Let_def if_True if_False outcome_Inr outcome_Inl simp_thms)
  next
    case False
    show ?thesis
    proof (cases "dir (fs w) (resolve path)")
      case None
      then show ?thesis using False some moved[OF False]
        by (simp only: Let_def if_True if_False outcome_Inr outcome_Inl option.case simp_thms)
    next
      case (Some j)
      show ?thesis
      proof (cases "i_kind (inode_of (fs w) j) = Directory")
        case True
        then have "\<not> answers \<subseteq> {0<..}" using allowed Some by blast
        then show ?thesis using True Some False some lo
          by (simp only: Let_def if_True if_False outcome_Inr outcome_Inl option.case simp_thms)
      next
        case F: False
        then show ?thesis using Some False some moved[OF False]
          by (simp only: Let_def if_True if_False outcome_Inr outcome_Inl option.case simp_thms)
      qed
    qed
  qed
qed (auto simp: call_grows split: option.splits desc.splits)

end

context replacement
begin

definition syncing :: "(nat \<Rightarrow> desc option) \<Rightarrow> nat \<Rightarrow> string \<Rightarrow> fworld \<Rightarrow> bool" where
  "syncing F fd d w \<longleftrightarrow> after (fs w) \<and> fds w = F(fd \<mapsto> D_desc d) \<and> F fd = None \<and> scoped_fd w = None \<and> guard_path w = None"

lemma stable_syncing: "stable (syncing F fd d)"
  by (rule stableI) (auto simp: syncing_def put_other_def after_friend intro: after_visible)

lemma open_ok:
  assumes "ok Q w" and "R (next_fd w) (w\<lparr>fds := (fds w)(next_fd w \<mapsto> d), next_fd := Suc (next_fd w)\<rparr>)"
  shows "outcome R E (open_desc d w)"
  using assms unfolding open_desc_def outcome_Inr by (simp add: ok_def)

lemma fresh_fd: "ok Q w \<Longrightarrow> fds w (next_fd w) = None"
  unfolding ok_def by simp

lemma open_dir_triple: "triple (replaced F None) (sys_open_dir d) (\<lambda>fd. syncing F fd d) (replaced F None)"
  unfolding sys_open_dir_def
proof (rule sys_triple[OF stable_replaced], goal_cases)
  case (2 n w)
  then show ?case
    using okD[OF 2(2)] fresh_fd[OF 2(2)] by (intro open_ok[OF 2(2)]) (auto simp: replaced_def syncing_def)
qed (auto simp: call_grows split: option.splits desc.splits)

lemma fsync_dir_triple: "triple (syncing F fd d) (sys_fsync fd) (\<lambda>_. syncing F fd d) (syncing F fd d)"
  unfolding sys_fsync_def
proof (rule sys_triple[OF stable_syncing], goal_cases)
  case (2 n w)
  from okD[OF 2(2)] have s: "syncing F fd d w" "fds w fd = Some (D_desc d)" by (simp_all add: syncing_def)
  have "after ((fs w)\<lparr>dirty := (dirty (fs w))(d := False)\<rparr>)" "guar (fs w) ((fs w)\<lparr>dirty := (dirty (fs w))(d := False)\<rparr>)" using s(1) settle by (simp_all add: syncing_def)
  then show ?case
    using s ok_put[OF 2(2), of "syncing F fd d" "(fs w)\<lparr>dirty := (dirty (fs w))(d := False)\<rparr>"] after_visible
    by (simp add: syncing_def put_fs_def)
qed (auto simp: call_grows split: option.splits desc.splits)

lemma triple_snd:
  assumes "triple Q m (\<lambda>_. R) R" and "grows m" and "ok Q w \<or> broken w"
  shows "ok R (snd (m w)) \<or> broken (snd (m w))"
proof (cases "broken w")
  case True
  then show ?thesis using broken_grows assms(2) by blast
next
  case False
  then have "outcome (\<lambda>_. R) R (m w)" using assms(1,3) tripleD by blast
  then show ?thesis by (cases "m w"; cases "fst (m w)") auto
qed

lemma skip_grows: "grows (sys (\<lambda>_ w. (Inr (), w)))"
  by (rule sys_grows) (rule return_grows)

lemma SyncDirectory_ok:
  assumes "ok (replaced F None) w"
  shows "ok (replaced F None) (SyncDirectory d w) \<or> broken (SyncDirectory d w)"
proof -
  obtain r w' where r: "sys_open_dir d w = (r, w')" by fastforce
  note first = tripleD[OF open_dir_triple assms, of d, unfolded r]
  show ?thesis
  proof (cases r)
    case (Inl e)
    then show ?thesis using first r by (auto simp: SyncDirectory_def)
  next
    case (Inr fd)
    then have "ok (syncing F fd d) w' \<or> broken w'" using first by auto
    from triple_snd[OF fsync_dir_triple sys_fsync_grows this] obtain w2 where w2: "snd (sys_fsync fd w') = w2" "ok (syncing F fd d) w2 \<or> broken w2"
      by blast
    have "ok (replaced F None) (w2\<lparr>fds := (fds w2)(fd := None)\<rparr>)" if "ok (syncing F fd d) w2"
      using that by (intro ok_fds[OF that]) (auto simp: syncing_def replaced_def dest!: okD split: if_splits)
    moreover have "broken (w2\<lparr>fds := (fds w2)(fd := None)\<rparr>)" if "broken w2" by (rule broken_extends[OF that]) simp
    ultimately have "ok (replaced F None) (w2\<lparr>fds := (fds w2)(fd := None)\<rparr>) \<or> broken (w2\<lparr>fds := (fds w2)(fd := None)\<rparr>)" using w2(2) by blast
    from triple_snd[OF skip_triple[OF stable_replaced] skip_grows this]
    show ?thesis using r Inr w2(1) by (simp add: SyncDirectory_def sys_close_def)
  qed
qed

lemma release_ok: "ok (replaced F gp) w \<Longrightarrow> ok (replaced F None) (TempFileGuard_release w)"
  unfolding ok_def TempFileGuard_release_def replaced_def by auto

lemma replace_body_triple:
  assumes "mode_ok tm"
  shows "triple (opened F fd tp i (\<lambda>n. i_data n = [] \<and> i_mode n = 0x1B6 AND NOT M)) (replace_body path content tm (fd, tp))
    (\<lambda>_. replaced F None) (leftover F tp)"
proof -
  let ?g4 = "\<lambda>n. i_data n = content \<and> i_mode n = final_mode M tm"
  let ?g5 = "\<lambda>n. i_data n = content \<and> i_mode n = final_mode M tm \<and> i_synced n"
  let ?r = "\<lambda>_. replaced F None"
  let ?E = "leftover F tp"
  let ?k7 = "\<lambda>_ w. (Inr (), SyncDirectory (directory_of path) (TempFileGuard_release w))"
  let ?k6 = "bindF (or_throw (sys_rename tp path) ''cannot replace file'' path) ?k7"
  let ?k5 = "bindF (or_throw ScopedFd_close ''cannot close file'' path) (\<lambda>_. ?k6)"
  let ?k4 = "bindF (VerifyTempFile fd tp path) (\<lambda>_. ?k5)"
  let ?k3 = "bindF (or_throw (sys_fsync fd) ''cannot flush file'' path) (\<lambda>_. ?k4)"
  let ?k2 = "bindF (or_throw (sys_fchmod fd (final_mode M tm)) ''cannot set permissions on'' path) (\<lambda>_. ?k3)"
  let ?k1 = "bindF (WriteAll fd content path) (\<lambda>_. ?k2)"
  have "triple (replaced F (Some tp)) (?k7 x) ?r ?E" for x :: unit
    using SyncDirectory_ok[OF release_ok] by (intro tripleI) auto
  then have k6: "triple (closed F tp i ?g5) ?k6 ?r ?E"
    by (rule bind_triple[OF throw_triple[OF rename_triple[OF assms]]]) (intro growing)
  have "triple (opened F fd tp i ?g5) ScopedFd_close (\<lambda>_. closed F tp i ?g5) ?E"
    by (rule conseq_triple[OF close_triple]) (auto intro: closed_leftover)
  then have "triple (opened F fd tp i ?g5) ?k5 ?r ?E"
    by (rule bind_triple[OF throw_triple k6]) (intro growing)
  then have "triple (opened F fd tp i ?g5) ?k4 ?r ?E"
    by (rule bind_triple[OF VerifyTempFile_triple]) (intro growing)
  then have "triple (opened F fd tp i ?g4) ?k3 ?r ?E"
    by (intro bind_triple[OF throw_triple[OF fsync_triple[of ?g4 ?g5]]]) (auto simp: flushed_def intro!: growing)
  then have "triple (opened F fd tp i (\<lambda>n. i_data n = content)) ?k2 ?r ?E"
    by (intro bind_triple[OF throw_triple[OF fchmod_triple[of "\<lambda>n. i_data n = content" ?g4]]]) (auto simp: chmod_def intro!: growing)
  then have k1: "triple (opened F fd tp i (\<lambda>n. i_data n = [])) ?k1 ?r ?E"
    by (intro bind_triple[OF WriteAll_triple[of F fd tp i "[]" content path]]) (auto intro!: growing)
  let ?g0 = "\<lambda>n. i_data n = [] \<and> i_mode n = 0x1B6 AND NOT M"
  let ?m = "\<lambda>st. let default_mode = i_mode (snd st) AND 0x1FF
       in bindF (or_throw (sys_fchmod fd 0x180) ''cannot set permissions on'' path) (\<lambda>_.
          bindF (WriteAll fd content path) (\<lambda>_.
          let fm = (case tm of Some m \<Rightarrow> m | None \<Rightarrow> default_mode)
          in bindF (or_throw (sys_fchmod fd fm) ''cannot set permissions on'' path) (\<lambda>_. ?k3)))"
  have "triple (\<lambda>w. fst st = i \<and> ?g0 (snd st) \<and> opened F fd tp i ?g0 w) (?m st) ?r ?E" for st :: "nat \<times> inode"
  proof (rule pre_triple[of _ "?g0 (snd st)"])
    assume st: "?g0 (snd st)"
    then have mode: "(case tm of None \<Rightarrow> i_mode (snd st) AND 0x1FF | Some m \<Rightarrow> m) = final_mode M tm"
      by (simp add: final_mode_def split: option.splits)
    have "triple (opened F fd tp i ?g0) (bindF (or_throw (sys_fchmod fd 0x180) ''cannot set permissions on'' path) (\<lambda>_. ?k1)) ?r ?E"
      by (rule bind_triple[OF throw_triple[OF fchmod_triple[of ?g0 "\<lambda>n. i_data n = []"]] k1]) (auto simp: chmod_def intro!: growing)
    then show "triple (\<lambda>w. fst st = i \<and> ?g0 (snd st) \<and> opened F fd tp i ?g0 w) (?m st) ?r ?E"
      unfolding Let_def mode by (rule conseq_triple) auto
  qed blast
  then show ?thesis
    unfolding replace_body_def fst_conv snd_conv
    by (rule bind_triple[OF throw_triple[OF fstat_triple]]) (unfold Let_def, intro growing)
qed

text \<open>After a failure: everything is closed, and the temporary file is gone unless it cannot be removed.\<close>

definition undone :: "fsys \<Rightarrow> bool" where
  "undone s \<longleftrightarrow> (if U then before s else before s \<or> (\<exists>t \<in> temp_entries path P K. \<exists>i. during t i s))"

definition failed :: "(nat \<Rightarrow> desc option) \<Rightarrow> fworld \<Rightarrow> bool" where
  "failed F w \<longleftrightarrow> undone (fs w) \<and> fds w = F \<and> scoped_fd w = None"

lemma undone_friend: "f \<in> menu \<Longrightarrow> friend s (f s) \<Longrightarrow> undone s \<Longrightarrow> undone (f s) \<and> visible_ok (f s)"
  unfolding undone_def using before_friend during_friend before_visible during_visible by (auto split: if_splits) blast+

lemma stable_failed: "stable (failed F)"
  by (rule stableI) (simp_all add: failed_def put_other_def undone_friend)

lemma stable_leftover: "stable (leftover F tp)"
  using stable_opened[of F _ tp _ "\<lambda>_. True"] stable_closed[of F tp _ "\<lambda>_. True"] unfolding stable_def leftover_def by blast

lemma destroy_ok:
  assumes "ok (leftover F tp) w" and "resolve tp \<in> temp_entries path P K"
  shows "ok (\<lambda>w. undone (fs w) \<and> (scoped_fd w = None \<and> fds w = F \<or> (\<exists>fd d. scoped_fd w = Some fd \<and> F fd = None \<and> fds w = F(fd \<mapsto> d))))
    (TempFileGuard_destroy w) \<or> broken (TempFileGuard_destroy w)"
proof -
  obtain r w1 where r: "let_others w = (r, w1)" by fastforce
  have w1: "ok (leftover F tp) w1 \<or> broken w1" by (rule let_others_ok(1)[OF assms(1) stable_leftover r])
  obtain fd d where gp: "guard_path w = Some tp" using okD[OF assms(1)] unfolding leftover_def opened_def closed_def by blast
  let ?s = "unlink_entry (resolve tp) (fs w1)"
  have w': "TempFileGuard_destroy w = (if unlink_ok w1 then (put_fs ?s w1)\<lparr>guard_path := None\<rparr> else w1\<lparr>guard_path := None\<rparr>)"
    by (simp add: TempFileGuard_destroy_def gp sys_unlink_def r)
  show ?thesis
  proof (cases "broken w1")
    case True
    then have "broken (TempFileGuard_destroy w)" by (rule broken_extends) (auto simp: w' intro: extends_put)
    then show ?thesis by blast
  next
    case False
    then have o: "ok (leftover F tp) w1" using w1 by blast
    obtain i where d: "during (resolve tp) i (fs w1)"
      and F: "scoped_fd w1 = None \<and> fds w1 = F \<or> (\<exists>fd d. scoped_fd w1 = Some fd \<and> F fd = None \<and> fds w1 = F(fd \<mapsto> d))"
      using okD[OF o] unfolding leftover_def opened_def closed_def by blast
    show ?thesis
    proof (cases U)
      case True
      then have "unlink_ok w1" using o unfolding ok_def by blast
      have s: "before ?s" "guar (fs w1) ?s" using unlink[OF d] by auto
      then have "undone ?s" unfolding undone_def by simp
      moreover have "ok (\<lambda>_. True) (put_fs ?s w1)" using before_visible[OF s(1)] s(2) by (intro ok_put[OF o]) simp_all
      ultimately show ?thesis using F \<open>unlink_ok w1\<close> unfolding ok_def w' by (simp add: put_fs_def)
    next
      case False
      then have "\<not> unlink_ok w1" using o unfolding ok_def by blast
      have "undone (fs w1)" using d assms(2) False unfolding undone_def by auto
      then show ?thesis using F o \<open>\<not> unlink_ok w1\<close> unfolding ok_def w' by simp
    qed
  qed
qed

lemma reset_ok:
  assumes "ok (\<lambda>w. undone (fs w) \<and> (scoped_fd w = None \<and> fds w = F \<or> (\<exists>fd d. scoped_fd w = Some fd \<and> F fd = None \<and> fds w = F(fd \<mapsto> d)))) w"
  shows "ok (failed F) (ScopedFd_reset w) \<or> broken (ScopedFd_reset w)"
proof (cases "scoped_fd w")
  case None
  then show ?thesis using ok_same[OF assms, of "failed F"] okD[OF assms] by (simp add: ScopedFd_reset_def failed_def)
next
  case (Some fd)
  then obtain d where d: "undone (fs w)" "F fd = None" "fds w = F(fd \<mapsto> d)" using okD[OF assms] by auto
  let ?w = "w\<lparr>scoped_fd := None, fds := (fds w)(fd := None)\<rparr>"
  have "(fds w)(fd := None) = F" using d(2,3) by auto
  then have "failed F ?w" using d(1) by (simp add: failed_def)
  then have "ok (failed F) ?w" using assms unfolding ok_def by simp
  then show ?thesis
    using triple_snd[OF skip_triple[OF stable_failed] skip_grows, of F ?w] Some by (simp add: ScopedFd_reset_def sys_close_def)
qed

end

lemma filename_join: "CHR ''/'' \<notin> set n \<Longrightarrow> filename (d @ CHR ''/'' # n) = n"
proof -
  assume n: "CHR ''/'' \<notin> set n"
  then have "takeWhile (\<lambda>c. c \<noteq> CHR ''/'') (rev n @ CHR ''/'' # rev d) = rev n"
    by (subst takeWhile_append2) auto
  then show ?thesis by (simp add: filename_def)
qed

lemma parent_join:
  assumes "CHR ''/'' \<notin> set n"
  shows "parent_path (d @ CHR ''/'' # n) = (if dropWhile (\<lambda>c. c = CHR ''/'') (rev d) = [] then ''/'' else rev (dropWhile (\<lambda>c. c = CHR ''/'') (rev d)))"
proof -
  have "dropWhile (\<lambda>c. c \<noteq> CHR ''/'') (rev n @ CHR ''/'' # rev d) = CHR ''/'' # rev d"
    using assms by (subst dropWhile_append2) auto
  then show ?thesis by (simp add: parent_path_def)
qed

lemma directory_of_clean: "directory_of p = ''/'' \<or> directory_of p \<noteq> [] \<and> last (directory_of p) \<noteq> CHR ''/''"
proof -
  define up where "up = dropWhile (\<lambda>c. c \<noteq> CHR ''/'') (rev p)"
  define b where "b = dropWhile (\<lambda>c. c = CHR ''/'') up"
  have p: "parent_path p = (if up = [] then [] else if b = [] then ''/'' else rev b)"
    unfolding parent_path_def Let_def up_def b_def by (rule refl)
  have b: "hd b \<noteq> CHR ''/''" if "b \<noteq> []"
    using hd_dropWhile[of "\<lambda>c. c = CHR ''/''" up] that unfolding b_def by simp
  show ?thesis
  proof (cases "up = [] \<or> b = []")
    case True
    then show ?thesis by (cases "up = []") (simp_all add: directory_of_def p)
  next
    case False
    then show ?thesis using b by (simp add: directory_of_def p last_rev)
  qed
qed

lemma resolve_join:
  assumes "CHR ''/'' \<notin> set n"
  shows "resolve (directory_of p @ ''/'' @ n) = (directory_of p, n)"
proof -
  let ?d = "directory_of p"
  have "parent_path (?d @ CHR ''/'' # n) = ?d"
  proof (cases "?d = ''/''")
    case False
    then have d: "?d \<noteq> []" "last ?d \<noteq> CHR ''/''" using directory_of_clean[of p] by auto
    then have "dropWhile (\<lambda>c. c = CHR ''/'') (rev ?d) = rev ?d" unfolding dropWhile_eq_self_iff by (simp add: hd_rev)
    then show ?thesis using d(1) by (simp add: parent_join[OF assms])
  next
    case True
    then show ?thesis unfolding parent_join[OF assms] by simp
  qed
  moreover have "?d \<noteq> []" using directory_of_clean[of p] by auto
  ultimately show ?thesis by (simp add: resolve_def directory_of_def[of "?d @ CHR ''/'' # n"] filename_join[OF assms])
qed

lemma filename_no_slash: "CHR ''/'' \<notin> set (filename p)"
  unfolding filename_def by (auto dest: set_takeWhileD)

lemma hex_digit_no_slash: "d < 16 \<Longrightarrow> hex_digit d \<noteq> CHR ''/''"
proof -
  assume "d < 16"
  then have "hex_digit d \<in> set ''0123456789abcdef''" unfolding hex_digit_def by (intro nth_mem) simp
  then show ?thesis by auto
qed

lemma temp_name_no_slash: "CHR ''/'' \<notin> set (temp_name (filename p) (temp_suffix q c r))"
proof -
  have dec: "CHR ''/'' \<notin> set (dec_nat n)" for n
    using dec_nat_digits[of n] by (auto simp: is_digit_def)
  have "CHR ''/'' \<notin> set (HexString r)"
    unfolding HexString_def using hex_digit_no_slash by (auto dest!: sym[of "CHR ''/''"])
  then have suffix: "CHR ''/'' \<notin> set (temp_suffix q c r)" using dec by (simp add: temp_suffix_def)
  have "CHR ''/'' \<notin> set (''.'' @ filename p @ ''.tmp.'')" using filename_no_slash by simp
  then have "CHR ''/'' \<notin> set (take k (''.'' @ filename p @ ''.tmp.''))" for k using in_set_takeD by metis
  then show ?thesis using suffix filename_no_slash[of p] unfolding temp_name_def Let_def by (auto split: if_splits)
qed

lemma candidate_entry:
  "c \<in> K \<Longrightarrow> resolve (directory_of p @ ''/'' @ temp_name (filename p) (temp_suffix q c r)) \<in> temp_entries p q K"
  unfolding resolve_join[OF temp_name_no_slash] temp_entries_def by blast

text \<open>The numbers a call draws from the counter.\<close>

fun tickets :: "nat \<Rightarrow> 64 word \<Rightarrow> nat list \<Rightarrow> 64 word list" where
  "tickets 0 c ks = []"
| "tickets (Suc n) c [] = c # tickets n (c + 1) []"
| "tickets (Suc n) c (k # ks) = (c + word_of_nat k) # tickets n (c + word_of_nat k + 1) ks"

lemma fetch_add_tickets:
  assumes "fetch_add w = (c, w')"
  shows "tickets (Suc n) (counter w) (taken w) = c # tickets n (counter w') (taken w')"
    and "\<exists>ks. w' = w\<lparr>counter := c + 1, taken := ks\<rparr>"
proof -
  show "tickets (Suc n) (counter w) (taken w) = c # tickets n (counter w') (taken w')"
    using assms by (cases "taken w") (auto simp: fetch_add_def)
  show "\<exists>ks. w' = w\<lparr>counter := c + 1, taken := ks\<rparr>"
    using assms by (cases w, cases "taken w") (auto simp: fetch_add_def)
qed

text \<open>The name of the temporary file differs from the name of the target, except perhaps when that has 254 characters.\<close>

lemma dec_nat_length_le: "n < 10 ^ k \<Longrightarrow> 0 < k \<Longrightarrow> length (dec_nat n) \<le> k"
proof (induction n arbitrary: k rule: dec_nat.induct)
  case (1 n)
  show ?case
  proof (cases "n < 10")
    case False
    obtain j where k: "k = Suc j" using 1(3) gr0_conv_Suc by auto
    have j: "0 < j" using 1(2) False k by (cases j) auto
    have "n div 10 < 10 ^ j" using 1(2) k by auto
    then show ?thesis using 1(1)[OF False _ j] False k by (subst dec_nat.simps) simp
  qed (use 1(3) in \<open>subst dec_nat.simps, simp\<close>)
qed

lemma length_temp_suffix: "length (temp_suffix q c r) \<le> 58"
proof -
  have "unat x < 10 ^ 20" for x :: "64 word" using unsigned_less[of x] by (rule less_trans) simp
  then have "length (dec_nat (unat x)) \<le> 20" for x :: "64 word" by (rule dec_nat_length_le) simp
  from this[of q] this[of c] show ?thesis by (simp add: temp_suffix_def HexString_def)
qed

lemma length_temp_name:
  "length (temp_name name (temp_suffix q c r)) = 254 \<or> length name < length (temp_name name (temp_suffix q c r))"
  "length (temp_name name (temp_suffix q c r)) \<le> 255"
proof -
  define s where "s = temp_suffix q c r"
  have s: "length s \<le> 58" unfolding s_def by (rule length_temp_suffix)
  have l: "length (temp_name name s) = (if length name + 6 > 254 - length s then 254 - length s else length name + 6) + length s"
    by (simp add: temp_name_def kMaxFileNameLength_def Let_def)
  have "length (temp_name name s) = 254 \<or> length name < length (temp_name name s)" "length (temp_name name s) \<le> 255"
    using s unfolding l by (auto simp del: diff_less_mono)
  then show "length (temp_name name (temp_suffix q c r)) = 254 \<or> length name < length (temp_name name (temp_suffix q c r))"
    "length (temp_name name (temp_suffix q c r)) \<le> 255" by (simp_all only: s_def)
qed

lemma temp_name_differs: "length name \<noteq> 254 \<Longrightarrow> temp_name name (temp_suffix q c r) \<noteq> name"
  using length_temp_name(1)[of name q c r] by force

lemma RandomBits_world: "\<exists>ds. snd (RandomBits w) = w\<lparr>random_device := ds\<rparr>"
proof -
  have "snd (RandomBits w) = w \<or> (\<exists>ds. snd (RandomBits w) = w\<lparr>random_device := ds\<rparr>)"
    by (auto simp: RandomBits_def split: list.splits option.splits)
  moreover have "w = w\<lparr>random_device := random_device w\<rparr>" by simp
  ultimately show ?thesis by metis
qed

context replacement
begin

definition idle :: "(nat \<Rightarrow> desc option) \<Rightarrow> 64 word \<Rightarrow> nat list \<Rightarrow> fworld \<Rightarrow> bool" where
  "idle F c ks w \<longleftrightarrow> before (fs w) \<and> fds w = F \<and> counter w = c \<and> taken w = ks"

definition fresh :: "(nat \<Rightarrow> desc option) \<Rightarrow> nat \<times> string \<Rightarrow> fworld \<Rightarrow> bool" where
  "fresh F temp w \<longleftrightarrow> (\<exists>i. during (resolve (snd temp)) i (fs w)
     \<and> i_data (inode_of (fs w) i) = [] \<and> i_mode (inode_of (fs w) i) = 0x1B6 AND NOT M
     \<and> fds w = F(fst temp \<mapsto> F_desc i 0) \<and> F (fst temp) = None \<and> resolve (snd temp) \<in> temp_entries path P K)"

definition unborn :: "(nat \<Rightarrow> desc option) \<Rightarrow> fworld \<Rightarrow> bool" where
  "unborn F w \<longleftrightarrow> before (fs w) \<and> fds w = F"

lemma stable_idle: "stable (idle F c ks)"
  by (rule stableI) (auto simp: idle_def put_other_def before_friend intro: before_visible)

lemma create_triple:
  assumes "resolve p \<in> temp_entries path P K"
  shows "triple (idle F c ks) (sys_create p 0x1B6) (\<lambda>fd. fresh F (fd, p)) (idle F c ks)"
  unfolding sys_create_def
proof (rule sys_triple[OF stable_idle], goal_cases)
  case (2 n w)
  from okD[OF 2(2)] have b: "before (fs w)" "fds w = F" by (simp_all add: idle_def)
  show ?case
  proof (cases "dir (fs w) (resolve p)")
    case (Some j)
    then have "\<not> answers \<subseteq> {0<..}" using free[OF _ b(1) assms] by fastforce
    then show ?thesis using Some 2(2) by simp
  next
    case None
    let ?s = "create_file (resolve p) (0x1B6 AND NOT (umask w)) (fs w)"
    have d: "during (resolve p) (next_ino (fs w)) ?s" "guar (fs w) ?s" using create[OF b(1) assms None] by auto
    then have "ok (\<lambda>_. True) (put_fs ?s w)" using during_visible by (intro ok_put[OF 2(2)]) simp_all
    moreover have "umask w = M" using 2(2) unfolding ok_def by blast
    moreover have "F (next_fd w) = None" using fresh_fd[OF 2(2)] b(2) by simp
    ultimately show ?thesis
      using d(1) None b(2) assms
      by (simp only: simp_thms if_False if_True, intro open_ok)
        (auto simp: fresh_def put_fs_def create_file_def)
  qed
qed (auto simp: call_grows)

lemma ok_rest:
  "ok (idle F c ks) w \<Longrightarrow> ok (idle F c' ks') (w\<lparr>counter := c', taken := ks', random_device := ds\<rparr>)"
  unfolding ok_def idle_def by auto

lemma CreateTempFile_loop_ok:
  assumes "ok (idle F c ks) w" and "n \<noteq> 0 \<or> \<not> answers \<subseteq> {0<..}" and "set (tickets n c ks) \<subseteq> K"
  shows "outcome (fresh F) (unborn F) (CreateTempFile_loop n (directory_of path) (filename path) target w)"
  using assms
proof (induction n arbitrary: w c ks)
  case 0
  then show ?case by (auto simp: ThrowFileError_def idle_def unborn_def intro: ok_weaken)
next
  case (Suc n)
  obtain k w0 where k: "fetch_add w = (k, w0)" by fastforce
  obtain ks' where w0: "w0 = w\<lparr>counter := k + 1, taken := ks'\<rparr>" using fetch_add_tickets(2)[OF k] by blast
  obtain bits w1 where bits: "RandomBits w0 = (bits, w1)" by fastforce
  then obtain ds where ds: "w1 = w\<lparr>counter := k + 1, taken := ks', random_device := ds\<rparr>"
    using RandomBits_world[of w0] w0 by auto
  have w1: "ok (idle F (k + 1) ks') w1" unfolding ds by (rule ok_rest[OF Suc.prems(1)])
  have P: "pid w = P" using Suc.prems(1) unfolding ok_def by blast
  have K: "k \<in> K" "set (tickets n (k + 1) ks') \<subseteq> K"
    using Suc.prems(3) fetch_add_tickets(1)[OF k, of n] okD[OF Suc.prems(1)] w0 by (simp_all add: idle_def)
  let ?c = "directory_of path @ ''/'' @ temp_name (filename path) (temp_suffix (pid w) k bits)"
  obtain r w2 where r: "sys_create ?c 0x1B6 w1 = (r, w2)" by fastforce
  have t: "outcome (\<lambda>fd. fresh F (fd, ?c)) (idle F (k + 1) ks') (r, w2)"
    using tripleD[OF create_triple[of ?c F "k + 1" ks'] w1] candidate_entry[OF K(1), of path P bits] r by (simp add: P)
  show ?case
  proof (cases r)
    case (Inl e)
    have "outcome (fresh F) (unborn F) (CreateTempFile_loop n (directory_of path) (filename path) target w2)"
    proof (cases "broken w2")
      case True
      then show ?thesis using outcome_broken[OF broken_grows[OF _ CreateTempFile_loop_grows]] by blast
    next
      case False
      then show ?thesis using t Inl Suc.IH[of "k + 1" ks' w2, OF _ _ K(2)] by auto
    qed
    moreover have "outcome (fresh F) (unborn F) (Inl x, w2)" for x :: file_error
      using t Inl by (auto simp: idle_def unborn_def intro: ok_weaken)
    ultimately show ?thesis using r bits k Inl by (simp add: Let_def ThrowFileError_def)
  next
    case (Inr fd)
    then show ?thesis using t r bits k by (simp add: Let_def)
  qed
qed

lemma TargetMode_ok:
  assumes "ok (idle F c ks) w" and "lstat_may_fail \<or> (\<forall>r acts rest. steps w = (r, acts) # rest \<longrightarrow> 0 \<le> r)"
  shows "ok (idle F c ks) (snd (TargetMode path w)) \<and> mode_ok (fst (TargetMode path w)) \<or> broken (snd (TargetMode path w))"
proof -
  obtain r w' where r: "let_others w = (r, w')" by fastforce
  have world: "snd (TargetMode path w) = w'"
    by (auto simp: TargetMode_def sys_lstat_def sys_def r split: option.splits if_splits)
  show ?thesis
  proof (cases "broken w'")
    case True
    then show ?thesis using world by simp
  next
    case False
    then have w': "ok (idle F c ks) w'" using let_others_ok(1)[OF assms(1) stable_idle r] by blast
    have mode: "mode_ok (mode_at (fs w') (resolve path))" using okD[OF w'] before_mode by (simp add: idle_def)
    have "mode_ok (fst (TargetMode path w))"
    proof (cases "\<exists>k. r = Some k \<and> k < 0")
      case True
      then have lstat_may_fail using assms(2) r by (auto simp: let_others_def split: list.splits prod.splits)
      then show ?thesis using True r refused_mode by (auto simp: TargetMode_def sys_lstat_def sys_def)
    next
      case False
      then show ?thesis using mode r
        by (auto simp: TargetMode_def sys_lstat_def sys_def mode_at_def split: option.splits)
    qed
    then show ?thesis using w' world by simp
  qed
qed

text \<open>The outcome of an atomic write.\<close>

lemma replace_ok:
  assumes f: "ok (fresh F (fd, tp)) w" and "mode_ok tm"
  shows "outcome (\<lambda>_. replaced F None) (\<lambda>w. undone (fs w) \<and> fds w = F)
    (finally_do (finally_do (replace_body path content tm (fd, tp)) TempFileGuard_destroy) ScopedFd_reset
      (w\<lparr>scoped_fd := Some fd, guard_path := Some tp\<rparr>))"
proof -
  let ?w = "w\<lparr>scoped_fd := Some fd, guard_path := Some tp\<rparr>"
  obtain i where "during (resolve tp) i (fs w)" "i_data (inode_of (fs w) i) = []" "i_mode (inode_of (fs w) i) = 0x1B6 AND NOT M"
      "fds w = F(fd \<mapsto> F_desc i 0)" "F fd = None" and te: "resolve tp \<in> temp_entries path P K"
    using okD[OF f] unfolding fresh_def by auto
  then have "opened F fd tp i (\<lambda>n. i_data n = [] \<and> i_mode n = 0x1B6 AND NOT M) ?w" by (simp add: opened_def)
  then have o: "ok (opened F fd tp i (\<lambda>n. i_data n = [] \<and> i_mode n = 0x1B6 AND NOT M)) ?w" using f unfolding ok_def by simp
  obtain b w3 where b: "replace_body path content tm (fd, tp) ?w = (b, w3)" by fastforce
  note body = tripleD[OF replace_body_triple[OF assms(2)] o, unfolded b]
  let ?w4 = "ScopedFd_reset (TempFileGuard_destroy w3)"
  have res: "finally_do (finally_do (replace_body path content tm (fd, tp)) TempFileGuard_destroy) ScopedFd_reset ?w = (b, ?w4)"
    using b by (simp add: finally_do_def)
  have cleanup: "broken ?w4" if "broken w3 \<or> broken (TempFileGuard_destroy w3)"
    using that broken_extends destroy_extends reset_extends by blast
  show ?thesis
  proof (cases "broken ?w4")
    case True
    then show ?thesis unfolding res by (intro outcome_broken) simp
  next
    case alright: False
    show ?thesis
    proof (cases b)
      case (Inl e)
      then have lo: "ok (leftover F tp) w3" and nw: "\<not> answers \<subseteq> {0<..}" using body cleanup alright by auto
      from destroy_ok[OF lo te] have "ok (failed F) ?w4" using reset_ok cleanup alright by blast
      then have "ok (\<lambda>w. undone (fs w) \<and> fds w = F) ?w4" by (rule ok_weaken) (simp add: failed_def)
      then show ?thesis using nw res Inl by simp
    next
      case (Inr u)
      then have fin: "ok (replaced F None) w3" using body cleanup alright by auto
      then have "?w4 = w3"
        using okD[OF fin] by (simp add: replaced_def ScopedFd_reset_def TempFileGuard_destroy_def)
      then show ?thesis using res Inr fin by simp
    qed
  qed
qed

lemma write_file_atomic_ok:
  assumes w: "ok (idle F c ks) w" and "lstat_may_fail \<or> (\<forall>r acts rest. steps w = (r, acts) # rest \<longrightarrow> 0 \<le> r)"
    and "set (tickets 128 c ks) \<subseteq> K"
  shows "outcome (\<lambda>_. replaced F None) (\<lambda>w. undone (fs w) \<and> fds w = F) (write_file_atomic path content w)"
proof -
  obtain tm w1 where tm: "TargetMode path w = (tm, w1)" by fastforce
  obtain r w2 where r: "CreateTempFile (directory_of path) (filename path) path w1 = (r, w2)" by fastforce
  define rest where "rest = (\<lambda>temp w2. finally_do (finally_do (replace_body path content tm temp) TempFileGuard_destroy) ScopedFd_reset
             (w2\<lparr>scoped_fd := Some (fst temp), guard_path := Some (snd temp)\<rparr>))"
  have res: "write_file_atomic path content w = bindF (CreateTempFile (directory_of path) (filename path) path) rest w1"
    using tm by (simp add: write_file_atomic_def rest_def)
  have rest_grows: "grows (rest temp)" for temp unfolding rest_def by (rule replace_grows)
  show ?thesis
  proof (cases "broken w1")
    case True
    have "grows (bindF (CreateTempFile (directory_of path) (filename path) path) rest)"
      unfolding CreateTempFile_def by (rule bindF_grows[OF CreateTempFile_loop_grows rest_grows])
    then show ?thesis unfolding res by (rule outcome_broken[OF broken_grows[OF True]])
  next
    case False
    then have w1: "ok (idle F c ks) w1" "mode_ok tm" using TargetMode_ok[OF assms(1,2)] tm by auto
    note created = CreateTempFile_loop_ok[OF w1(1) _ assms(3), of path, folded CreateTempFile_def, unfolded r]
    show ?thesis
    proof (cases r)
      case (Inl e)
      then have "broken w2 \<or> ok (unborn F) w2 \<and> \<not> answers \<subseteq> {0<..}" using created by simp
      moreover have "ok (\<lambda>w. undone (fs w) \<and> fds w = F) w2" if "ok (unborn F) w2"
        using okD[OF that] by (intro ok_same[OF that]) (simp add: unborn_def undone_def)
      ultimately show ?thesis using r Inl by (auto simp: res bindF_def)
    next
      case (Inr temp)
      obtain fd tp where temp: "temp = (fd, tp)" by (cases temp)
      have "outcome (\<lambda>_. replaced F None) (\<lambda>w. undone (fs w) \<and> fds w = F) (rest (fd, tp) w2)"
      proof (cases "broken w2")
        case True
        then show ?thesis by (rule outcome_broken[OF broken_grows[OF _ rest_grows]])
      next
        case False
        then have "ok (fresh F (fd, tp)) w2" using created Inr temp by simp
        then show ?thesis using replace_ok[OF _ w1(2)] by (simp add: rest_def)
      qed
      then show ?thesis using r Inr temp by (simp add: res bindF_def)
    qed
  qed
qed

end

end
