(* ===== verification/File_Sharing.thy ===== *)
theory File_Sharing
  imports File_Replacement
begin

text \<open>
  The replacement of a file that is shared with others: what readers see and a crash leaves while others follow the rules, that the program follows
  the rules itself, and, from the two, that any number of concurrent writers of one file do not harm each other.
\<close>

section \<open>Readers and other writers\<close>

definition fs_wf :: "fsys \<Rightarrow> bool" where
  "fs_wf s \<longleftrightarrow> (\<forall>p i. dir s p = Some i \<longrightarrow> i < next_ino s)"

text \<open>
  What a reader, or a machine that starts again after a power failure, may find at an entry: one of the contents \<open>C\<close>, where \<open>None\<close>
  stands for no file, and that on the disk.
\<close>

definition shows_one_of :: "entry \<Rightarrow> string option set \<Rightarrow> fsys \<Rightarrow> bool" where
  "shows_one_of e C s \<longleftrightarrow>
     (case dir s e of
        None \<Rightarrow> None \<in> C
      | Some i \<Rightarrow> i_kind (inode_of s i) \<noteq> Directory \<and> i_synced (inode_of s i) \<and> Some (i_data (inode_of s i)) \<in> C)"

text \<open>
  A change that spares the temporary files \<open>T\<close> of a writer and the target: it leaves the entries \<open>T\<close> and their files alone and gives them no
  other name, and it leaves the target alone or puts one of the contents \<open>N\<close> there. Other files may be created, changed and removed.
\<close>

definition spares :: "string \<Rightarrow> entry set \<Rightarrow> string option set \<Rightarrow> fsys \<Rightarrow> fsys \<Rightarrow> bool" where
  "spares path T N s s' \<longleftrightarrow> (fs_wf s \<longrightarrow> fs_wf s')
     \<and> (\<forall>t \<in> T. dir s' t = dir s t)
     \<and> (\<forall>t \<in> T. \<forall>i. dir s t = Some i \<longrightarrow> inode_of s' i = inode_of s i \<and> (\<forall>p. dir s' p = Some i \<longrightarrow> dir s p = Some i))
     \<and> (shows_one_of (resolve path) N s' \<or> dir s' (resolve path) = dir s (resolve path)
         \<and> (\<forall>i. dir s (resolve path) = Some i \<longrightarrow> inode_of s' i = inode_of s i))"

text \<open>\<open>T'\<close> are the temporary files of the others; \<open>C\<close> is what the target may show before.\<close>

definition may_proceed :: "string \<Rightarrow> string \<Rightarrow> entry set \<Rightarrow> entry set \<Rightarrow> string option set \<Rightarrow> string option set \<Rightarrow> int set \<Rightarrow> bool" where
  "may_proceed path content T T' N C A \<longleftrightarrow> resolve path \<notin> T \<and> Some content \<in> N \<and> N \<subseteq> C \<and> T \<inter> T' = {} \<and> resolve path \<notin> T'
     \<and> (A \<subseteq> {0<..} \<longrightarrow> filename path \<notin> {[], ''.'', ''..''})"

definition shared_before :: "string \<Rightarrow> string \<Rightarrow> entry set \<Rightarrow> entry set \<Rightarrow> string option set \<Rightarrow> string option set \<Rightarrow> int set \<Rightarrow> fsys \<Rightarrow> bool" where
  "shared_before path content T T' N C A s \<longleftrightarrow> may_proceed path content T T' N C A \<and> fs_wf s \<and> shows_one_of (resolve path) C s
     \<and> (A \<subseteq> {0<..} \<longrightarrow> (\<forall>t \<in> T. dir s t = None))"

definition shared_during :: "string \<Rightarrow> string \<Rightarrow> entry set \<Rightarrow> entry set \<Rightarrow> string option set \<Rightarrow> string option set \<Rightarrow> int set \<Rightarrow> entry \<Rightarrow> nat \<Rightarrow> fsys \<Rightarrow> bool" where
  "shared_during path content T T' N C A t i s \<longleftrightarrow> may_proceed path content T T' N C A \<and> fs_wf s \<and> shows_one_of (resolve path) C s
     \<and> t \<in> T \<and> dir s t = Some i \<and> (\<forall>p. dir s p = Some i \<longrightarrow> p = t) \<and> i_kind (inode_of s i) = Regular
     \<and> (A \<subseteq> {0<..} \<longrightarrow> (\<forall>t' \<in> T. t' \<noteq> t \<longrightarrow> dir s t' = None))"

definition shared_after :: "string \<Rightarrow> string option set \<Rightarrow> string option set \<Rightarrow> fsys \<Rightarrow> bool" where
  "shared_after path N C s \<longleftrightarrow> N \<subseteq> C \<and> fs_wf s \<and> shows_one_of (resolve path) N s"

lemma fs_wf_less: "fs_wf s \<Longrightarrow> dir s p = Some i \<Longrightarrow> i < next_ino s"
  unfolding fs_wf_def by blast

lemma snd_resolve: "snd (resolve path) = filename path"
  by (simp add: resolve_def)

lemma shows_mono: "shows_one_of e N s \<Longrightarrow> N \<subseteq> C \<Longrightarrow> shows_one_of e C s"
  by (auto simp: shows_one_of_def split: option.splits)

lemma shows_cong: "dir s' e = dir s e \<Longrightarrow> (\<And>i. dir s e = Some i \<Longrightarrow> inode_of s' i = inode_of s i) \<Longrightarrow> shows_one_of e C s' = shows_one_of e C s"
  by (auto simp: shows_one_of_def split: option.splits)

lemma spares_shows: "spares path T N s s' \<Longrightarrow> N \<subseteq> C \<Longrightarrow> shows_one_of (resolve path) C s \<Longrightarrow> shows_one_of (resolve path) C s'"
  unfolding spares_def using shows_mono[of "resolve path" N s' C] shows_cong[of s' "resolve path" s C] by blast

lemma sparesI:
  assumes "fs_wf s \<Longrightarrow> fs_wf s'" and "\<And>t. t \<in> T \<Longrightarrow> dir s' t = dir s t"
    and "\<And>t i. t \<in> T \<Longrightarrow> dir s t = Some i \<Longrightarrow> inode_of s' i = inode_of s i"
    and "\<And>t i p. t \<in> T \<Longrightarrow> dir s t = Some i \<Longrightarrow> dir s' p = Some i \<Longrightarrow> dir s p = Some i"
    and "shows_one_of (resolve path) N s' \<or> dir s' (resolve path) = dir s (resolve path)
      \<and> (\<forall>i. dir s (resolve path) = Some i \<longrightarrow> inode_of s' i = inode_of s i)"
  shows "spares path T N s s'"
  unfolding spares_def using assms by blast

lemma sparesD:
  assumes "spares path T N s s'"
  shows "fs_wf s \<Longrightarrow> fs_wf s'" and "t \<in> T \<Longrightarrow> dir s' t = dir s t"
    and "t \<in> T \<Longrightarrow> dir s t = Some i \<Longrightarrow> inode_of s' i = inode_of s i"
    and "t \<in> T \<Longrightarrow> dir s t = Some i \<Longrightarrow> dir s' p = Some i \<Longrightarrow> dir s p = Some i"
  using assms unfolding spares_def by blast+

lemma spares_union: "spares path T N s s' \<Longrightarrow> T' \<subseteq> T \<Longrightarrow> spares path T' N s s'"
  unfolding spares_def by blast

lemma temp_entry_differs: "length (filename path) \<noteq> 254 \<Longrightarrow> t \<in> temp_entries path P K \<Longrightarrow> t \<noteq> resolve path"
  unfolding temp_entries_def resolve_def using temp_name_differs[of "filename path"] by auto

lemma shared_create:
  assumes "shared_before path content T T' N C A s" and "t \<in> T" and "dir s t = None"
  shows "shared_during path content T T' N C A t (next_ino s) (create_file t m s) \<and> spares path T' N s (create_file t m s)"
proof -
  have ne: "t \<noteq> resolve path" "t \<notin> T'" using assms(1,2) by (auto simp: shared_before_def may_proceed_def)
  have wf: "fs_wf s" using assms(1) by (simp add: shared_before_def)
  then have fresh: "dir s p \<noteq> Some (next_ino s)" for p using fs_wf_less by blast
  have "shows_one_of (resolve path) C (create_file t m s)"
    using assms(1) ne fresh[of "resolve path"] by (subst shows_cong[of _ _ s]) (auto simp: create_file_def shared_before_def)
  moreover have wf': "fs_wf (create_file t m s)" using wf by (auto simp: fs_wf_def create_file_def less_Suc_eq)
  ultimately have "shared_during path content T T' N C A t (next_ino s) (create_file t m s)"
    using assms ne fresh by (auto simp: shared_before_def shared_during_def create_file_def)
  moreover have "spares path T' N s (create_file t m s)"
    using wf' ne fresh by (intro sparesI) (auto simp: create_file_def split: if_splits)
  ultimately show ?thesis by blast
qed

lemma shared_duringD:
  assumes "shared_during path content T T' N C A t i s"
  shows "t \<noteq> resolve path" "t \<notin> T'" "resolve path \<notin> T'" "dir s t = Some i" "fs_wf s" "Some content \<in> N" "N \<subseteq> C" "i_kind (inode_of s i) = Regular"
    "shows_one_of (resolve path) C s" "t \<in> T" and "dir s p = Some i \<Longrightarrow> p = t" and "may_proceed path content T T' N C A"
    and "A \<subseteq> {0<..} \<Longrightarrow> t' \<in> T \<Longrightarrow> t' \<noteq> t \<Longrightarrow> dir s t' = None"
  using assms unfolding shared_during_def may_proceed_def by blast+

lemma shared_during_keep:
  assumes "shared_during path content T T' N C A t i s" and "dir s' = dir s" and "next_ino s' = next_ino s"
    and "i_kind (inode_of s' i) = i_kind (inode_of s i)" and "shows_one_of (resolve path) C s'"
  shows "shared_during path content T T' N C A t i s'"
  using assms(1,5) unfolding shared_during_def fs_wf_def assms(2,3,4) by blast

lemma shared_update:
  assumes "shared_during path content T T' N C A t i s" and "\<And>n. i_kind (g n) = i_kind n"
  shows "shared_during path content T T' N C A t i (update_inode i g s) \<and> spares path T' N s (update_inode i g s)"
proof -
  note D = shared_duringD[OF assms(1)]
  have only: "dir s p \<noteq> Some i" if "p \<in> T' \<or> p = resolve path" for p
    using that D(1,2) D(11)[of p] by blast
  have same: "dir (update_inode i g s) = dir s" "next_ino (update_inode i g s) = next_ino s"
    "inode_of (update_inode i g s) = (inode_of s)(i := g (inode_of s i))" by (simp_all add: update_inode_def)
  have keep: "inode_of (update_inode i g s) j = inode_of s j" if "dir s p = Some j" "p \<in> T' \<or> p = resolve path" for p j
    using that only[of p] by (auto simp: same)
  then have "shows_one_of (resolve path) C (update_inode i g s)" using D(9) shows_cong[of "update_inode i g s" "resolve path" s C] by (simp add: same)
  then have "shared_during path content T T' N C A t i (update_inode i g s)" by (intro shared_during_keep[OF assms(1)]) (simp_all add: same assms(2))
  moreover have "spares path T' N s (update_inode i g s)" using keep by (intro sparesI) (auto simp: fs_wf_def same(1,2))
  ultimately show ?thesis by blast
qed

lemma shared_unlink:
  assumes "shared_during path content T T' N C A t i s"
  shows "shared_before path content T T' N C A (unlink_entry t s) \<and> spares path T' N s (unlink_entry t s)"
proof -
  note ne = shared_duringD(1,2)[OF assms]
  have "shows_one_of (resolve path) C (unlink_entry t s)"
    using shared_duringD(9)[OF assms] ne by (subst shows_cong[of _ _ s]) (auto simp: unlink_entry_def)
  then have "shared_before path content T T' N C A (unlink_entry t s)"
    using shared_duringD(5,12)[OF assms] shared_duringD(13)[OF assms]
    by (auto simp: shared_before_def unlink_entry_def fs_wf_def split: if_splits)
  moreover have "spares path T' N s (unlink_entry t s)" 
    using ne by (intro sparesI) (auto simp: unlink_entry_def fs_wf_def split: if_splits)
  ultimately show ?thesis by blast
qed

lemma shared_rename:
  assumes "shared_during path content T T' N C A t i s" and "i_data (inode_of s i) = content" and "i_synced (inode_of s i)"
  shows "shared_after path N C (rename_entry t (resolve path) s) \<and> spares path T' N s (rename_entry t (resolve path) s)"
proof -
  let ?e = "resolve path" and ?s = "rename_entry t (resolve path) s"
  note t = shared_duringD(1-8)[OF assms(1)] and only = shared_duringD(11)[OF assms(1)]
  have d: "dir ?s = (dir s)(?e \<mapsto> i, t := None)" "inode_of ?s = inode_of s" "next_ino ?s = next_ino s"
  proof -
    have "dir s t \<noteq> dir s ?e" using t(1,4) only[of ?e] by metis
    then show "dir ?s = (dir s)(?e \<mapsto> i, t := None)" "inode_of ?s = inode_of s" "next_ino ?s = next_ino s"
      using t(4) by (simp_all add: rename_entry_def)
  qed
  have n: "shows_one_of ?e N ?s" using t assms(2,3) by (simp add: shows_one_of_def d)
  moreover have wf: "fs_wf ?s"
  proof -
    have "i < next_ino s" "\<And>p j. dir s p = Some j \<Longrightarrow> j < next_ino s" using t(4,5) fs_wf_less by blast+
    then show ?thesis unfolding fs_wf_def d by (simp del: split_paired_All)
  qed
  moreover have "spares path T' N s ?s"
  proof (rule sparesI)
    show "dir ?s p = dir s p" if "p \<in> T'" for p using that t(2,3) by (auto simp: d)
    show "dir s p = Some j" if "q \<in> T'" "dir s q = Some j" "dir ?s p = Some j" for p q j
      using that t(2) only[of q] by (auto simp: d split: if_splits)
  qed (use n wf in \<open>simp_all add: d(2)\<close>)
  ultimately show ?thesis using t(7) by (simp add: shared_after_def)
qed

lemma shared_settle: "shared_after path N C s \<Longrightarrow> shared_after path N C (s\<lparr>dirty := d\<rparr>) \<and> spares path T' N s (s\<lparr>dirty := d\<rparr>)"
  using shows_cong[of "s\<lparr>dirty := d\<rparr>" "resolve path" s N] by (simp add: shared_after_def spares_def fs_wf_def)

lemma shared_before_friend:
  assumes "spares path T N s s'" and "shared_before path content T T' N C A s"
  shows "shared_before path content T T' N C A s'"
proof -
  have "shows_one_of (resolve path) C s'"
    using spares_shows[OF assms(1)] assms(2) by (simp add: shared_before_def may_proceed_def)
  then show ?thesis using assms(2) sparesD(1,2)[OF assms(1)] by (simp add: shared_before_def)
qed

lemma shared_during_friend:
  assumes "spares path T N s s'" and "shared_during path content T T' N C A t i s"
  shows "shared_during path content T T' N C A t i s' \<and> inode_of s' i = inode_of s i"
proof -
  note t = shared_duringD(10,4,5)[OF assms(2)] and only = shared_duringD(11)[OF assms(2)]
  have "shows_one_of (resolve path) C s'"
    using spares_shows[OF assms(1)] shared_duringD(7,9)[OF assms(2)] by blast
  moreover have "fs_wf s'" "\<And>t. t \<in> T \<Longrightarrow> dir s' t = dir s t" and same: "inode_of s' i = inode_of s i"
    and "\<forall>p. dir s' p = Some i \<longrightarrow> p = t"
    using sparesD[OF assms(1)] t only by blast+
  moreover have "may_proceed path content T T' N C A" "i_kind (inode_of s i) = Regular"
      "A \<subseteq> {0<..} \<longrightarrow> (\<forall>t' \<in> T. t' \<noteq> t \<longrightarrow> dir s t' = None)"
    using assms(2) unfolding shared_during_def by blast+
  ultimately show ?thesis unfolding shared_during_def same using t(1,2) by (intro conjI impI ballI refl; metis)
qed

lemma shared_after_friend: "spares path T N s s' \<Longrightarrow> shared_after path N C s \<Longrightarrow> shared_after path N C s'"
  using spares_shows[of path T N s s' N] unfolding shared_after_def spares_def by blast

interpretation shared: replacement path content P K M U True A UNIV "spares path (temp_entries path P K) N" "spares path T' N"
  "shared_before path content (temp_entries path P K) T' N C A" "shared_after path N C" "shows_one_of (resolve path) C"
  "shared_during path content (temp_entries path P K) T' N C A" "\<lambda>_. True"
  for path content P K M U A T' N C
proof (unfold_locales, goal_cases)
  case (1 f s) then show ?case using shared_before_friend by blast
next
  case (2 f s t i) then show ?case using shared_during_friend by blast
next
  case (3 f s) then show ?case using shared_after_friend by blast
next
  case (6 s) then show ?case using shows_mono[of "resolve path" N s C] by (simp add: shared_after_def)
next
  case (9 s t m) then show ?case by (rule shared_create)
next
  case (12 t i s g) then show ?case by (rule shared_update)
next
  case (13 t i s) then show ?case by (rule shared_unlink)
next
  case (14 t i s)
  then have "filename path \<notin> {[], ''.'', ''..''}" by (simp add: shared_during_def may_proceed_def)
  then show ?case using shared_duringD(9)[OF 14(2)] by (simp add: snd_resolve shows_one_of_def split: option.splits)
next
  case (15 t i s tm) then show ?case using shared_rename[OF 15(1-3)] by blast
next
  case (16 s d) then show ?case by (rule shared_settle)
qed (simp_all add: shared_before_def shared_during_def)

text \<open>The entries a call of \<^verbatim>\<open>write_file_atomic\<close> uses for its temporary file.\<close>

definition own_temps :: "string \<Rightarrow> fworld \<Rightarrow> entry set" where
  "own_temps path w = temp_entries path (pid w) (set (tickets 128 (counter w) (taken w)))"

definition can_succeed :: "string \<Rightarrow> fworld \<Rightarrow> bool" where
  "can_succeed path w \<longleftrightarrow> (\<forall>(r, acts) \<in> set (steps w). 0 < r) \<and> (\<forall>t \<in> own_temps path w. dir (fs w) t = None)
     \<and> filename path \<notin> {[], ''.'', ''..''}"

lemma atomic_write_outcome:
  assumes "fs_wf (fs w)" and "shows_one_of (resolve path) C (fs w)" and "changes w = []"
    and "\<forall>fd \<ge> next_fd w. fds w fd = None" and "length (filename path) \<noteq> 254" and "Some content \<in> N" and "N \<subseteq> C"
    and "own_temps path w \<inter> T' = {}" and "resolve path \<notin> T'"
    and r: "write_file_atomic path content w = (result, w')"
  shows "guarded (spares path (own_temps path w) N) (spares path T' N) (changes w')"
    and "good (spares path (own_temps path w) N) (changes w') \<Longrightarrow> (\<forall>(own, s, s') \<in> set (changes w'). shows_one_of (resolve path) C s')
      \<and> shows_one_of (resolve path) C (fs w') \<and> fds w' = fds w \<and> (result = Inr () \<longrightarrow> shows_one_of (resolve path) N (fs w'))
      \<and> (can_succeed path w \<longrightarrow> result = Inr ())"
proof -
  define T where "T = own_temps path w"
  let ?K = "set (tickets 128 (counter w) (taken w))"
  have T: "temp_entries path (pid w) ?K = T" by (simp add: T_def own_temps_def)
  have e: "resolve path \<notin> T" using temp_entry_differs[OF assms(5)] unfolding T[symmetric] by blast
  have run: "shared.outcome (pid w) (umask w) (unlink_ok w) A path ?K N T' C (\<lambda>_. shared.replaced path N C (fds w) None)
      (\<lambda>w1. shared.undone path (pid w) ?K (unlink_ok w) content T' N C A (fs w1) \<and> fds w1 = fds w) (result, w')"
    if "shared_before path content T T' N C A (fs w)" "\<forall>(r, acts) \<in> set (steps w). r \<in> A" for A
  proof -
    have "shared.ok (pid w) (umask w) (unlink_ok w) A path ?K N T' C (shared.idle path content (pid w) ?K T' N C A (fds w) (counter w) (taken w)) w"
      using that assms(3,4) unfolding shared.ok_def shared.idle_def by (simp add: T)
    from shared.write_file_atomic_ok[OF this, unfolded r] show ?thesis by simp
  qed
  have nopos: "\<not> (UNIV :: int set) \<subseteq> {0<..}" by force
  have may: "may_proceed path content T T' N C A" if "A \<subseteq> {0<..} \<longrightarrow> filename path \<notin> {[], ''.'', ''..''}" for A
    using that e assms(6-9) T_def by (simp add: may_proceed_def)
  have b: "shared_before path content T T' N C UNIV (fs w)"
    using assms(1,2) may[of UNIV] nopos by (simp add: shared_before_def)
  have ok: "shared.broken path (pid w) ?K N T' w' \<or> (\<exists>Q. shared.ok (pid w) (umask w) (unlink_ok w) UNIV path ?K N T' C Q w'
      \<and> (Q w' \<longrightarrow> shows_one_of (resolve path) C (fs w') \<and> fds w' = fds w \<and> (result = Inr () \<longrightarrow> shows_one_of (resolve path) N (fs w'))))"
  proof (cases result)
    case (Inr u)
    have "shared.broken path (pid w) ?K N T' w' \<or> shared.ok (pid w) (umask w) (unlink_ok w) UNIV path ?K N T' C (shared.replaced path N C (fds w) None) w'"
      using run[OF b] Inr by simp
    moreover have "shows_one_of (resolve path) C (fs w')" if "shows_one_of (resolve path) N (fs w')" by (rule shows_mono[OF that assms(7)])
    ultimately show ?thesis
      by (elim disjE) (simp, intro disjI2 exI conjI, assumption, simp add: shared.replaced_def shared_after_def)
  next
    case (Inl x)
    have "shared.broken path (pid w) ?K N T' w' \<or> shared.ok (pid w) (umask w) (unlink_ok w) UNIV path ?K N T' C
        (\<lambda>w1. shared.undone path (pid w) ?K (unlink_ok w) content T' N C UNIV (fs w1) \<and> fds w1 = fds w) w'"
      using run[OF b] Inl by (simp, elim disjE conjE) simp_all
    moreover have "shows_one_of (resolve path) C s" if "shared.undone path (pid w) ?K (unlink_ok w) content T' N C UNIV s" for s
    proof -
      from that[unfolded shared.undone_def, unfolded T] consider (Before) "shared_before path content T T' N C UNIV s" | (During) t i where "shared_during path content T T' N C UNIV t i s"
        by (cases "unlink_ok w") auto
      then show ?thesis using shared_duringD(9) by cases (simp_all add: shared_before_def)
    qed
    ultimately show ?thesis using Inl by (elim disjE) (simp, intro disjI2 exI conjI, assumption, simp)
  qed
  show "guarded (spares path (own_temps path w) N) (spares path T' N) (changes w')"
    using ok
  proof
    assume "shared.broken path (pid w) ?K N T' w'"
    then show ?thesis unfolding shared.broken_def own_temps_def by (rule conjunct2)
  next
    assume "\<exists>Q. shared.ok (pid w) (umask w) (unlink_ok w) UNIV path ?K N T' C Q w'
      \<and> (Q w' \<longrightarrow> shows_one_of (resolve path) C (fs w') \<and> fds w' = fds w \<and> (result = Inr () \<longrightarrow> shows_one_of (resolve path) N (fs w')))"
    then obtain Q where "shared.ok (pid w) (umask w) (unlink_ok w) UNIV path ?K N T' C Q w'" by (elim exE conjE)
    from shared.ok_good[OF this] show ?thesis unfolding own_temps_def by (rule conjunct2)
  qed
  assume good: "good (spares path (own_temps path w) N) (changes w')"
  then have notbroken: "\<not> shared.broken path (pid w) ?K N T' w'" unfolding shared.broken_def own_temps_def by simp
  then obtain Q where Q: "shared.ok (pid w) (umask w) (unlink_ok w) UNIV path ?K N T' C Q w'"
      "Q w' \<longrightarrow> shows_one_of (resolve path) C (fs w') \<and> fds w' = fds w \<and> (result = Inr () \<longrightarrow> shows_one_of (resolve path) N (fs w'))"
    using ok by (elim disjE exE conjE) simp_all
  have "result = Inr ()" if "can_succeed path w"
  proof -
    have "shared_before path content T T' N C {0<..} (fs w)"
      using that assms(1,2) may[of "{0<..}"] by (simp add: shared_before_def can_succeed_def T_def)
    from run[OF this] show ?thesis using that notbroken by (cases result) (auto simp: can_succeed_def)
  qed
  moreover have "\<forall>(own, s, s') \<in> set (changes w'). shows_one_of (resolve path) C s'" and "Q w'"
    using Q(1) unfolding shared.ok_def by auto
  ultimately show "(\<forall>(own, s, s') \<in> set (changes w'). shows_one_of (resolve path) C s')
      \<and> shows_one_of (resolve path) C (fs w') \<and> fds w' = fds w \<and> (result = Inr () \<longrightarrow> shows_one_of (resolve path) N (fs w'))
      \<and> (can_succeed path w \<longrightarrow> result = Inr ())"
    using Q(2) by simp
qed

section \<open>What can be seen while a file is replaced\<close>

text \<open>
  C2: Whatever the kernel refuses, and whatever others do that spares the temporary files of this call and leaves the target alone or puts one of
  the contents \<open>N\<close> there, every state of the file system that can be seen while \<^verbatim>\<open>write_file_atomic\<close> runs has at the target one of the
  contents \<open>C\<close> that it may have anyway or one of \<open>N\<close>, to which the new content belongs, and that on the disk: neither a reader nor a crash finds a
  partial or an empty file. After a success it is one of \<open>N\<close>. No descriptor is left open. When the kernel refuses nothing, the names for the
  temporary file are free and the path names a file, the write succeeds.
\<close>
theorem atomic_write_visibility:
  assumes "fs_wf (fs w)" and "shows_one_of (resolve path) C (fs w)" and "changes w = []"
    and "\<forall>fd \<ge> next_fd w. fds w fd = None" and "length (filename path) \<noteq> 254" and "Some content \<in> N"
    and others: "good (spares path (own_temps path w) N) (changes (snd (write_file_atomic path content w)))"
  shows "case write_file_atomic path content w of (result, w') \<Rightarrow>
      (\<forall>(own, s, s') \<in> set (changes w'). shows_one_of (resolve path) (C \<union> N) s')
      \<and> shows_one_of (resolve path) (C \<union> N) (fs w')
      \<and> fds w' = fds w
      \<and> (result = Inr () \<longrightarrow> shows_one_of (resolve path) N (fs w'))
      \<and> (can_succeed path w \<longrightarrow> result = Inr ())"
proof -
  have "shows_one_of (resolve path) (C \<union> N) (fs w)" by (rule shows_mono[OF assms(2)]) simp
  moreover obtain result w' where r: "write_file_atomic path content w = (result, w')" by fastforce
  ultimately show ?thesis
    using atomic_write_outcome(2)[OF assms(1) _ assms(3-6) _ _ _ r, of "C \<union> N" "{}"] others by simp
qed

definition demo_fs :: fsys where
  "demo_fs = \<lparr>dir = [(''etc'', ''app.json'') \<mapsto> 0],
     inode_of = (\<lambda>_. \<lparr>i_kind = Regular, i_mode = 0x180, i_data = ''old'', i_synced = True\<rparr>), next_ino = 1, dirty = (\<lambda>_. False)\<rparr>"

definition demo_files :: "(int \<times> (fsys \<Rightarrow> fsys) list) list \<Rightarrow> fworld" where
  "demo_files ss = \<lparr>fs = demo_fs, changes = [], fds = (\<lambda>_. None), next_fd = 3, steps = ss, unlink_ok = True, follow = (\<lambda>s e. e), umask = 0x12,
     pid = 77, counter = 0, taken = [], random_device = [], mem_limit = 1000, scoped_fd = None, guard_path = None\<rparr>"

lemma demo_path: "resolve ''etc/app.json'' = (''etc'', ''app.json'')"
  by (simp add: resolve_def directory_of_def parent_path_def filename_def)

lemma demo_name: "filename ''etc/app.json'' = ''app.json''"
  using demo_path by (simp add: resolve_def)

lemma demo_start: "fs_wf demo_fs" "shows_one_of (''etc'', ''app.json'') {Some ''old''} demo_fs"
  by (auto simp: fs_wf_def shows_one_of_def demo_fs_def split: if_splits)

theorem atomic_write_visibility_witness:
  "case write_file_atomic ''etc/app.json'' ''new'' (demo_files [(3, []), (- 4, []), (- 28, [])]) of (result, w') \<Rightarrow>
     shows_one_of (''etc'', ''app.json'') {Some ''new'', Some ''old''} (fs w') \<and> fds w' = (\<lambda>_. None)"
proof -
  let ?w = "demo_files [(3, []), (- 4, []), (- 28, [])]"
  have "no_others ?w" "changes ?w = []" by (simp_all add: demo_files_def no_others_def)
  then have "good R (changes (snd (write_file_atomic ''etc/app.json'' ''new'' ?w)))" for R
    unfolding good_def using all_own[OF write_file_atomic_grows] by fastforce
  moreover have "{Some ''old''} \<union> {Some ''new''} = {Some ''new'', Some ''old''}" by blast
  ultimately show ?thesis
    using atomic_write_visibility[of ?w "''etc/app.json''" "{Some ''old''}" "''new''" "{Some ''new''}"] demo_start
    by (simp add: demo_path demo_name demo_files_def split: prod.splits)
qed

section \<open>Concurrent writers\<close>

text \<open>Different processes, and different numbers of the counter of one process, give different names, unless the name of the target is very long.\<close>

lemma temp_suffix_inj:
  assumes "temp_suffix p c r = temp_suffix p' c' r'"
  shows "p = p' \<and> c = c'"
proof -
  have dot: "CHR ''.'' \<notin> set (dec_nat n)" for n using dec_nat_digits[of n] by (auto simp: is_digit_def)
  have tw: "takeWhile (\<lambda>x. x \<noteq> CHR ''.'') (dec_nat n @ CHR ''.'' # xs) = dec_nat n" for n xs
    using dot[of n] by (subst takeWhile_append2) auto
  have split: "m = n \<and> xs = ys" if "dec_nat m @ CHR ''.'' # xs = dec_nat n @ CHR ''.'' # ys" for m n xs ys
  proof -
    have "m = n" using arg_cong[OF that, of "takeWhile (\<lambda>x. x \<noteq> CHR ''.'')"] unfolding tw dec_nat_inj .
    then show ?thesis using that by simp
  qed
  have "dec_nat (unat p) @ CHR ''.'' # dec_nat (unat c) @ CHR ''.'' # HexString r
      = dec_nat (unat p') @ CHR ''.'' # dec_nat (unat c') @ CHR ''.'' # HexString r'"
    using assms by (simp only: temp_suffix_def append.simps)
  note first = split[OF this]
  have "unat c = unat c'" using split[OF conjunct2[OF first]] by (rule conjunct1)
  then show ?thesis using first by (simp only: word_unat_eq_iff simp_thms)
qed

lemma temp_name_short:
  assumes "length name \<le> 190"
  shows "temp_name name (temp_suffix p c r) = ''.'' @ name @ ''.tmp.'' @ temp_suffix p c r"
  using assms length_temp_suffix[of p c r] by (simp add: temp_name_def kMaxFileNameLength_def Let_def)

lemma temp_entries_disjoint:
  assumes "length (filename path) \<le> 190" and "p \<noteq> p' \<or> K \<inter> K' = {}"
  shows "temp_entries path p K \<inter> temp_entries path p' K' = {}"
proof (rule ccontr)
  assume "temp_entries path p K \<inter> temp_entries path p' K' \<noteq> {}"
  then obtain c r c' r' where c: "c \<in> K" "c' \<in> K'"
      "temp_name (filename path) (temp_suffix p c r) = temp_name (filename path) (temp_suffix p' c' r')"
    unfolding temp_entries_def by auto
  then have "temp_suffix p c r = temp_suffix p' c' r'" unfolding temp_name_short[OF assms(1)] by simp
  then show False using temp_suffix_inj c(1,2) assms(2) by blast
qed

text \<open>
  A history is the list of all changes of the file system, each with the number of the writer that made it; a writer sees it up to the end of its call.
\<close>

type_synonym history = "(nat \<times> fsys \<times> fsys) list"

definition seen_by :: "nat \<Rightarrow> history \<Rightarrow> change list" where
  "seen_by i h = map (\<lambda>(k, s, s'). (k = i, s, s')) h"

definition state_at :: "fsys \<Rightarrow> history \<Rightarrow> nat \<Rightarrow> fsys" where
  "state_at s h k = (if k = 0 then s else snd (snd (h ! (k - 1))))"

text \<open>
  Calls with these starting states and results are the writers of a history \<open>h\<close>: call \<open>i\<close> ends after \<open>m i\<close> changes, it saw all changes until then, and it
  made no change after it.
\<close>

definition writers :: "nat \<Rightarrow> fsys \<Rightarrow> string \<Rightarrow> (nat \<Rightarrow> string) \<Rightarrow> (nat \<Rightarrow> fworld) \<Rightarrow> history \<Rightarrow> (nat \<Rightarrow> nat) \<Rightarrow> bool" where
  "writers n s path content w h m \<longleftrightarrow>
     (\<forall>i < n. fs (w i) = s \<and> changes (w i) = [] \<and> (\<forall>fd \<ge> next_fd (w i). fds (w i) fd = None)
        \<and> m i \<le> length h \<and> changes (snd (write_file_atomic path (content i) (w i))) = seen_by i (take (m i) h))
     \<and> (\<forall>k < length h. fst (h ! k) < n \<and> k < m (fst (h ! k)))
     \<and> (\<forall>i < n. \<forall>j < n. i \<noteq> j \<longrightarrow> pid (w i) \<noteq> pid (w j)
          \<or> set (tickets 128 (counter (w i)) (taken (w i))) \<inter> set (tickets 128 (counter (w j)) (taken (w j))) = {})"

lemma seen_by_nth: "k < length h \<Longrightarrow> seen_by i h ! k = (fst (h ! k) = i, snd (h ! k))"
  by (simp add: seen_by_def split: prod.splits)

lemma linked_nth:
  assumes "linked s cs t" and "k < length cs"
  shows "fst (snd (cs ! k)) = (if k = 0 then s else snd (snd (cs ! (k - 1))))"
  using assms
proof (induction cs arbitrary: s k)
  case (Cons c cs)
  obtain own a b where c: "c = (own, a, b)" by (cases c)
  show ?case
  proof (cases k)
    case 0
    then show ?thesis using Cons.prems c by simp
  next
    case (Suc j)
    then have "fst (snd (cs ! j)) = (if j = 0 then b else snd (snd (cs ! (j - 1))))" using Cons.prems c by (intro Cons.IH) simp_all
    then show ?thesis using Suc c by (cases j) simp_all
  qed
qed simp

lemma linked_last: "linked s cs t \<Longrightarrow> t = (if cs = [] then s else snd (snd (last cs)))"
  by (induction s cs t rule: linked.induct) auto

definition contents_of :: "nat \<Rightarrow> (nat \<Rightarrow> string) \<Rightarrow> string option set" where
  "contents_of n content = (\<lambda>i. Some (content i)) ` {..<n}"

definition temps_but :: "nat \<Rightarrow> string \<Rightarrow> (nat \<Rightarrow> fworld) \<Rightarrow> nat \<Rightarrow> entry set" where
  "temps_but n path w i = (\<Union>j \<in> {..<n} - {i}. own_temps path (w j))"

lemma writer_outcome:
  assumes "writers n s path content w h m" and "fs_wf s" and "shows_one_of (resolve path) C s" and "length (filename path) \<le> 190" and "i < n"
    and r: "write_file_atomic path (content i) (w i) = (result, w')"
  shows "guarded (spares path (own_temps path (w i)) (contents_of n content)) (spares path (temps_but n path w i) (contents_of n content))
      (seen_by i (take (m i) h))"
    and "good (spares path (own_temps path (w i)) (contents_of n content)) (seen_by i (take (m i) h)) \<Longrightarrow> fds w' = fds (w i)
      \<and> (result = Inr () \<longrightarrow> shows_one_of (resolve path) (contents_of n content) (fs w')) \<and> (can_succeed path (w i) \<longrightarrow> result = Inr ())"
    and "linked s (seen_by i (take (m i) h)) (fs w')"
proof -
  have w: "fs (w i) = s" "changes (w i) = []" "\<forall>fd \<ge> next_fd (w i). fds (w i) fd = None" "changes w' = seen_by i (take (m i) h)"
  proof -
    show "fs (w i) = s" "changes (w i) = []" "\<forall>fd \<ge> next_fd (w i). fds (w i) fd = None" using assms(1,5) unfolding writers_def by blast+
    have "changes (snd (write_file_atomic path (content i) (w i))) = seen_by i (take (m i) h)" using assms(1,5) unfolding writers_def by blast
    then show "changes w' = seen_by i (take (m i) h)" using r by simp
  qed
  have wf: "fs_wf (fs (w i))" and sh: "shows_one_of (resolve path) (C \<union> contents_of n content) (fs (w i))"
    using w(1) assms(2) shows_mono[OF assms(3)] by simp_all
  have len: "length (filename path) \<noteq> 254" using assms(4) by simp
  have mem: "Some (content i) \<in> contents_of n content" using assms(5) by (simp add: contents_of_def)
  have disj: "own_temps path (w i) \<inter> temps_but n path w i = {}"
  proof -
    have "own_temps path (w i) \<inter> own_temps path (w j) = {}" if "j < n" "j \<noteq> i" for j
      unfolding own_temps_def using assms(1,5) that by (intro temp_entries_disjoint[OF assms(4)]) (auto simp: writers_def)
    then show ?thesis unfolding temps_but_def by blast
  qed
  have e: "resolve path \<notin> temps_but n path w i"
    using temp_entry_differs[OF len] unfolding temps_but_def own_temps_def by blast
  note run = atomic_write_outcome[OF wf sh w(2,3) len mem Un_upper2 disj e r, unfolded w(4)]
  show "guarded (spares path (own_temps path (w i)) (contents_of n content)) (spares path (temps_but n path w i) (contents_of n content))
      (seen_by i (take (m i) h))" by (rule run(1))
  show "fds w' = fds (w i) \<and> (result = Inr () \<longrightarrow> shows_one_of (resolve path) (contents_of n content) (fs w'))
      \<and> (can_succeed path (w i) \<longrightarrow> result = Inr ())"
    if "good (spares path (own_temps path (w i)) (contents_of n content)) (seen_by i (take (m i) h))"
    using run(2)[OF that] by simp
  show "linked s (seen_by i (take (m i) h)) (fs w')"
    using growsD[OF write_file_atomic_grows r] w by (auto simp: extends_def)
qed

lemma seen_good:
  assumes "i < n" and "k \<le> length h"
    and "\<And>l. l < k \<Longrightarrow> spares path (temps_but n path w (fst (h ! l))) N (fst (snd (h ! l))) (snd (snd (h ! l)))"
  shows "good (spares path (own_temps path (w i)) N) (seen_by i (take k h))"
  unfolding good_def
proof (rule ballI)
  fix c
  assume "c \<in> set (seen_by i (take k h))"
  then obtain l where "l < length (seen_by i (take k h))" "c = seen_by i (take k h) ! l" by (auto simp: in_set_conv_nth)
  then have l: "l < k" "c = (fst (h ! l) = i, snd (h ! l))" using assms(2) by (simp_all add: seen_by_nth seen_by_def split: prod.splits)
  show "case c of (own, s, s') \<Rightarrow> own \<or> spares path (own_temps path (w i)) N s s'"
  proof (cases "fst (h ! l) = i")
    case False
    then have "own_temps path (w i) \<subseteq> temps_but n path w (fst (h ! l))" using assms(1) unfolding temps_but_def by blast
    then have "spares path (own_temps path (w i)) N (fst (snd (h ! l))) (snd (snd (h ! l)))" by (rule spares_union[OF assms(3)[OF l(1)]])
    then show ?thesis using l(2) by (simp add: case_prod_beta)
  qed (simp add: l(2) case_prod_beta)
qed

lemma history_spares:
  assumes "writers n s path content w h m" and "fs_wf s" and "shows_one_of (resolve path) C s" and "length (filename path) \<le> 190" and "k < length h"
  shows "spares path (temps_but n path w (fst (h ! k))) (contents_of n content) (fst (snd (h ! k))) (snd (snd (h ! k)))"
  using assms(5)
proof (induction k rule: less_induct)
  case (less k)
  define i where "i = fst (h ! k)"
  have i: "i < n" "k < m i" "m i \<le> length h" using assms(1) less.prems by (auto simp: writers_def i_def)
  have "good (spares path (own_temps path (w i)) (contents_of n content)) (seen_by i (take k h))"
    using less.prems by (intro seen_good[OF i(1)] less.IH) simp_all
  moreover obtain result w' where r: "write_file_atomic path (content i) (w i) = (result, w')" by fastforce
  moreover have "take k (seen_by i (take (m i) h)) = seen_by i (take k h)" using i(2) by (simp add: seen_by_def take_map min_absorb1)
  moreover have "seen_by i (take (m i) h) ! k = (True, snd (h ! k))" "k < length (seen_by i (take (m i) h))"
    using i(2,3) by (simp add: seen_by_nth i_def) (use i(2,3) in \<open>simp add: seen_by_def\<close>)
  ultimately show ?case
    using writer_outcome(1)[OF assms(1-4) i(1) r] unfolding guarded_def i_def[symmetric] by fastforce
qed

lemma history_linked:
  assumes "writers n s path content w h m" and "fs_wf s" and "shows_one_of (resolve path) C s" and "length (filename path) \<le> 190" and "k < length h"
  shows "fst (snd (h ! k)) = state_at s h k"
proof -
  define i where "i = fst (h ! k)"
  have i: "i < n" "k < m i" "m i \<le> length h" using assms(1,5) by (auto simp: writers_def i_def)
  obtain result w' where r: "write_file_atomic path (content i) (w i) = (result, w')" by fastforce
  have "k < length (seen_by i (take (m i) h))" using i(2,3) by (simp add: seen_by_def)
  from linked_nth[OF writer_outcome(3)[OF assms(1-4) i(1) r] this] show ?thesis
    using i(2,3) by (simp add: seen_by_nth state_at_def)
qed

lemma history_shows:
  assumes "writers n s path content w h m" and "fs_wf s" and "shows_one_of (resolve path) C s" and "length (filename path) \<le> 190"
    and "contents_of n content \<subseteq> X" and "shows_one_of (resolve path) X (state_at s h k)" and "k \<le> l" and "l \<le> length h"
  shows "shows_one_of (resolve path) X (state_at s h l)"
  using assms(7,8)
proof (induction l rule: dec_induct)
  case (step l)
  then have "spares path (temps_but n path w (fst (h ! l))) (contents_of n content) (state_at s h l) (snd (snd (h ! l)))"
    using history_spares[OF assms(1-4), of l] history_linked[OF assms(1-4), of l] by simp
  then show ?case using spares_shows[OF _ assms(5)] step by (simp add: state_at_def[of s h "Suc l"])
qed (rule assms(6))

text \<open>
  C3: Any number of calls of \<^verbatim>\<open>write_file_atomic\<close> for one file may run at the same time, in threads of one process or in different processes, their system
  calls interleaved in any way and refused in any way. At every moment the target has one of the contents it may have had before or the whole content of
  one of the writers, on the disk. When one of them succeeds, the target in the end has the whole content of one of the writers. A call for which the kernel refuses
  nothing succeeds. Every descriptor is closed again. The name of the target must not be longer than 190 characters, and the numbers the threads of a process draw from their
  counter must be different.
\<close>
theorem concurrent_writers:
  assumes "writers n s path content w h m" and "fs_wf s" and "shows_one_of (resolve path) C s" and "length (filename path) \<le> 190"
  shows "(\<forall>k \<le> length h. shows_one_of (resolve path) (C \<union> contents_of n content) (state_at s h k))
    \<and> ((\<exists>i < n. fst (write_file_atomic path (content i) (w i)) = Inr ()) \<longrightarrow>
        shows_one_of (resolve path) (contents_of n content) (state_at s h (length h)))
    \<and> (\<forall>i < n. can_succeed path (w i) \<longrightarrow> fst (write_file_atomic path (content i) (w i)) = Inr ())
    \<and> (\<forall>i < n. fds (snd (write_file_atomic path (content i) (w i))) = fds (w i))"
proof -
  note keeps = history_shows[OF assms]
  have "shows_one_of (resolve path) (C \<union> contents_of n content) (state_at s h 0)"
    using shows_mono[OF assms(3)] by (simp add: state_at_def)
  then have always: "\<forall>k \<le> length h. shows_one_of (resolve path) (C \<union> contents_of n content) (state_at s h k)"
    using keeps[of "C \<union> contents_of n content" 0] by simp
  have each: "fds w' = fds (w i) \<and> (can_succeed path (w i) \<longrightarrow> result = Inr ())
      \<and> (result = Inr () \<longrightarrow> shows_one_of (resolve path) (contents_of n content) (state_at s h (length h)))"
    if "i < n" "write_file_atomic path (content i) (w i) = (result, w')" for i result w'
  proof -
    note run = writer_outcome[OF assms that]
    have m: "m i \<le> length h" using assms(1) that(1) by (simp add: writers_def)
    have "good (spares path (own_temps path (w i)) (contents_of n content)) (seen_by i (take (m i) h))"
      using m by (intro seen_good[OF that(1) m] history_spares[OF assms]) simp
    note res = run(2)[OF this]
    have "fs w' = state_at s h (m i)"
      using linked_last[OF run(3)] m by (cases "m i = 0") (auto simp: seen_by_def state_at_def last_conv_nth take_eq_Nil case_prod_beta min_absorb1)
    then show ?thesis using res keeps[of "contents_of n content" "m i" "length h"] m by simp
  qed
  then have "fds (snd (write_file_atomic path (content i) (w i))) = fds (w i)
      \<and> (can_succeed path (w i) \<longrightarrow> fst (write_file_atomic path (content i) (w i)) = Inr ())
      \<and> (fst (write_file_atomic path (content i) (w i)) = Inr () \<longrightarrow> shows_one_of (resolve path) (contents_of n content) (state_at s h (length h)))"
    if "i < n" for i using that by (metis prod.collapse)
  then show ?thesis using always by blast
qed

text \<open>A writer that is refused its temporary file, after the others have repeated the changes of a history.\<close>

lemma replay:
  assumes "linked (fs w) cs s"
  shows "changes (fold put_other (map (\<lambda>c _. snd (snd c)) cs) w) = changes w @ map (\<lambda>c. (False, snd c)) cs"
  using assms
proof (induction cs arbitrary: w)
  case (Cons c cs)
  obtain own a b where c: "c = (own, a, b)" by (cases c)
  then have "linked (fs (put_other (\<lambda>_. b) w)) cs s" using Cons.prems by (simp add: put_other_def)
  from Cons.IH[OF this] show ?case using Cons.prems c by (simp add: put_other_def[of _ w])
qed simp

lemma refused_writer:
  assumes "steps w = [(0, acts), (- 13, [])]"
  shows "changes (snd (write_file_atomic path content w)) = changes (fold put_other acts (w\<lparr>steps := [(- 13, [])]\<rparr>))"
proof -
  define w1 where "w1 = fold put_other acts (w\<lparr>steps := [(- 13, [])]\<rparr>)"
  have st: "steps w1 = [(- 13, [])]" by (simp add: w1_def)
  have "snd (TargetMode path w) = w1"
    by (simp add: TargetMode_def sys_lstat_def sys_next[OF assms] w1_def[symmetric] split: option.splits)
  then obtain tm where tm: "TargetMode path w = (tm, w1)" by (metis prod.collapse)
  obtain c w2 where c: "fetch_add w1 = (c, w2)" by fastforce
  obtain bits w3 where bits: "RandomBits w2 = (bits, w3)" by fastforce
  have w3: "changes w3 = changes w1" "steps w3 = [(- 13, [])]"
    using fetch_add_tickets(2)[OF c] RandomBits_world[of w2] bits st by auto
  have "sys_create p 0x1B6 w3 = (Inl 13, w3\<lparr>steps := []\<rparr>)" for p
    by (simp add: sys_create_def sys_next[OF w3(2)])
  moreover have n: "(128 :: nat) = Suc 127" by simp
  ultimately have "snd (CreateTempFile (directory_of path) (filename path) path w1) = w3\<lparr>steps := []\<rparr>"
    and "\<exists>x. fst (CreateTempFile (directory_of path) (filename path) path w1) = Inl x"
    unfolding CreateTempFile_def n CreateTempFile_loop.simps Let_def c bits prod.case by (simp_all add: EEXIST_def ThrowFileError_def)
  then have "snd (write_file_atomic path content w) = w3\<lparr>steps := []\<rparr>"
    using tm by (auto simp: write_file_atomic_def bindF_def split: prod.splits)
  then show ?thesis using w3(1) w1_def by simp
qed

definition demo_history :: history where
  "demo_history = map (\<lambda>c. (0, snd c)) (changes (snd (write_file_atomic ''etc/app.json'' ''new'' (demo_files []))))"

definition demo_writers :: "nat \<Rightarrow> fworld" where
  "demo_writers i = (if i = 0 then demo_files [] else (demo_files [(0, map (\<lambda>c _. snd (snd c)) demo_history), (- 13, [])])\<lparr>pid := 78\<rparr>)"

definition demo_contents :: "nat \<Rightarrow> string" where
  "demo_contents i = (if i = 0 then ''new'' else ''other'')"

lemma demo_writers_ok: "writers 2 demo_fs ''etc/app.json'' demo_contents demo_writers demo_history (\<lambda>_. length demo_history)"
proof -
  define cs where "cs = changes (snd (write_file_atomic ''etc/app.json'' ''new'' (demo_files [])))"
  have h: "demo_history = map (\<lambda>c. (0, snd c)) cs" by (simp add: demo_history_def cs_def)
  have "no_others (demo_files [])" "changes (demo_files []) = []" by (simp_all add: demo_files_def no_others_def)
  then have own: "fst c" if "c \<in> set cs" for c using all_own[OF write_file_atomic_grows] that unfolding cs_def by blast
  have first: "cs = seen_by 0 demo_history"
    unfolding h seen_by_def map_map by (rule map_idI[symmetric]) (use own in \<open>fastforce split: prod.splits\<close>)
  have "extends (demo_files []) (snd (write_file_atomic ''etc/app.json'' ''new'' (demo_files [])))"
    using write_file_atomic_grows unfolding grows_def by blast
  then obtain s where link: "linked demo_fs cs s" by (auto simp: extends_def demo_files_def cs_def)
  let ?w = "demo_writers 1"
  have "steps ?w = [(0, map (\<lambda>c _. snd (snd c)) demo_history), (- 13, [])]" "fs ?w = demo_fs" "changes ?w = []"
    by (simp_all add: demo_writers_def demo_files_def)
  then have "changes (snd (write_file_atomic ''etc/app.json'' ''other'' ?w))
      = changes (fold put_other (map (\<lambda>c _. snd (snd c)) cs) (?w\<lparr>steps := [(- 13, [])]\<rparr>))"
    using refused_writer[of ?w] by (simp add: h comp_def)
  also have "\<dots> = map (\<lambda>c. (False, snd c)) cs"
    using replay[of "?w\<lparr>steps := [(- 13, [])]\<rparr>" cs s] link by (simp add: demo_writers_def demo_files_def)
  also have "\<dots> = seen_by 1 demo_history" by (simp add: h seen_by_def case_prod_beta)
  finally have second: "changes (snd (write_file_atomic ''etc/app.json'' ''other'' ?w)) = seen_by 1 demo_history" .
  have two: "i < 2 \<longleftrightarrow> i = 0 \<or> i = 1" for i :: nat by auto
  show ?thesis
    unfolding writers_def two using first[unfolded cs_def] second
    by (auto simp: demo_writers_def demo_contents_def demo_files_def) (auto simp: h)
qed

theorem concurrent_writers_witness:
  "shows_one_of (''etc'', ''app.json'') {Some ''new'', Some ''other''} (state_at demo_fs demo_history (length demo_history))"
proof -
  have "t \<noteq> (''etc'', ''app.json'')" if "t \<in> own_temps ''etc/app.json'' w" for t w
    using temp_entry_differs[of "''etc/app.json''" t] that by (simp add: own_temps_def demo_path demo_name)
  then have "can_succeed ''etc/app.json'' (demo_writers 0)"
    by (auto simp: can_succeed_def demo_writers_def demo_files_def demo_name demo_fs_def)
  moreover have "contents_of 2 demo_contents = {Some ''new'', Some ''other''}"
    by (auto simp: contents_of_def demo_contents_def numeral_2_eq_2 lessThan_Suc)
  ultimately show ?thesis
    using concurrent_writers[OF demo_writers_ok demo_start(1), of "{Some ''old''}"] demo_start(2)
    by (auto simp: demo_path demo_name)
qed

end
