(* ===== verification/File_Correctness.thy ===== *)
theory File_Correctness
  imports File_Sharing
begin

text \<open>
  Correctness of the file utilities when nobody interferes: the protocol of a replacement instantiated with no others at all, which gives the exact effect of an atomic
  write; reading and writing in place; and the limits of the check of the temporary file.
\<close>

section \<open>A writer alone\<close>

text \<open>The files named in \<open>s0\<close> are unchanged in \<open>s\<close>.\<close>

definition same_files :: "fsys \<Rightarrow> fsys \<Rightarrow> bool" where
  "same_files s0 s \<longleftrightarrow> (\<forall>p i. dir s0 p = Some i \<longrightarrow> inode_of s i = inode_of s0 i) \<and> next_ino s0 \<le> next_ino s"

definition alone_cond :: "string \<Rightarrow> fsys \<Rightarrow> bool" where
  "alone_cond path s0 \<longleftrightarrow> length (filename path) \<noteq> 254 \<and> fs_wf s0"

definition alone_before :: "string \<Rightarrow> fsys \<Rightarrow> fsys \<Rightarrow> bool" where
  "alone_before path s0 s \<longleftrightarrow> alone_cond path s0 \<and> dir s = dir s0 \<and> same_files s0 s"

definition alone_during :: "string \<Rightarrow> 64 word \<Rightarrow> (64 word) set \<Rightarrow> fsys \<Rightarrow> entry \<Rightarrow> nat \<Rightarrow> fsys \<Rightarrow> bool" where
  "alone_during path P K s0 t i s \<longleftrightarrow> alone_cond path s0 \<and> t \<in> temp_entries path P K \<and> dir s0 t = None \<and> dir s = (dir s0)(t \<mapsto> i)
     \<and> same_files s0 s \<and> next_ino s0 \<le> i \<and> i_kind (inode_of s i) = Regular"

definition alone_after :: "string \<Rightarrow> string \<Rightarrow> 32 word \<Rightarrow> bool \<Rightarrow> fsys \<Rightarrow> fsys \<Rightarrow> bool" where
  "alone_after path content M L s0 s \<longleftrightarrow> (\<exists>i mode. dir s = (dir s0)(resolve path \<mapsto> i) \<and> same_files s0 s
     \<and> inode_of s i = \<lparr>i_kind = Regular, i_mode = mode, i_data = content, i_synced = True\<rparr>
     \<and> (mode = final_mode M (mode_at s0 (resolve path)) \<or> L \<and> mode = final_mode M None))"

lemma alone_named:
  assumes "alone_cond path s0" and "next_ino s0 \<le> i"
  shows "dir s0 p \<noteq> Some i"
  using assms fs_wf_less[of s0 p i] by (auto simp: alone_cond_def)

lemma alone_differs: "alone_cond path s0 \<Longrightarrow> t \<in> temp_entries path P K \<Longrightarrow> t \<noteq> resolve path"
  unfolding alone_cond_def using temp_entry_differs by blast

lemma alone_create:
  assumes "alone_before path s0 s" and "t \<in> temp_entries path P K" and "dir s t = None"
  shows "alone_during path P K s0 t (next_ino s) (create_file t m s)"
  using assms alone_named[of path s0 "next_ino s"]
  by (auto simp: alone_before_def alone_during_def create_file_def same_files_def)

lemma alone_update:
  assumes "alone_during path P K s0 t i s" and "\<And>n. i_kind (g n) = i_kind n"
  shows "alone_during path P K s0 t i (update_inode i g s)"
  using assms alone_named[of path s0 i] by (auto simp: alone_during_def update_inode_def same_files_def)

lemma alone_unlink:
  assumes "alone_during path P K s0 t i s"
  shows "alone_before path s0 (unlink_entry t s)"
proof -
  have "((dir s0)(t \<mapsto> i))(t := None) = dir s0" using assms by (auto simp: alone_during_def)
  then show ?thesis using assms by (simp add: alone_before_def alone_during_def unlink_entry_def same_files_def)
qed

lemma alone_rename:
  assumes "alone_during path P K s0 t i s" and "i_data (inode_of s i) = content" and "i_synced (inode_of s i)"
    and "tm = mode_at s0 (resolve path) \<or> L \<and> tm = None" and "i_mode (inode_of s i) = final_mode M tm"
  shows "alone_after path content M L s0 (rename_entry t (resolve path) s)"
proof -
  let ?e = "resolve path"
  have d: "dir s = (dir s0)(t \<mapsto> i)" "dir s0 t = None" "t \<noteq> ?e" "dir s0 ?e \<noteq> Some i"
    using assms(1) alone_differs[of path s0 t P K] alone_named[of path s0 i ?e] by (auto simp: alone_during_def)
  then have r: "dir (rename_entry t ?e s) = (dir s0)(?e \<mapsto> i)" "inode_of (rename_entry t ?e s) = inode_of s"
      "next_ino (rename_entry t ?e s) = next_ino s"
    by (auto simp: rename_entry_def)
  have "inode_of s i = \<lparr>i_kind = Regular, i_mode = final_mode M tm, i_data = content, i_synced = True\<rparr>"
    using assms by (cases "inode_of s i") (auto simp: alone_during_def)
  moreover have "same_files s0 (rename_entry t ?e s)" using assms(1) r by (simp add: alone_during_def same_files_def)
  moreover have "final_mode M tm = final_mode M (mode_at s0 ?e) \<or> L \<and> final_mode M tm = final_mode M None" using assms(4) by auto
  ultimately show ?thesis unfolding alone_after_def r by (intro exI[of _ i] exI[of _ "final_mode M tm"]) simp
qed

lemma alone_mode: "alone_before path s0 s \<Longrightarrow> mode_at s (resolve path) = mode_at s0 (resolve path)"
  by (auto simp: alone_before_def mode_at_def same_files_def simp del: split_paired_All split: option.splits)

interpretation alone: replacement path content P K M U L UNIV "{}" "\<lambda>_ _. True" "\<lambda>_ _. True"
  "alone_before path s0" "alone_after path content M L s0" "\<lambda>_. True" "alone_during path P K s0" "\<lambda>tm. tm = mode_at s0 (resolve path) \<or> L \<and> tm = None"
  for path content P K M U L s0
proof (unfold_locales, goal_cases)
  case (7 s) then show ?case by (simp add: alone_mode)
next
  case (9 s t m) then show ?case using alone_create by blast
next
  case (10 s t) then show ?case by (auto dest!: subsetD[of UNIV _ "0 :: int"])
next
  case (11 t i s) then show ?case by (simp add: alone_during_def)
next
  case (12 t i s g) then show ?case using alone_update by blast
next
  case (13 t i s) then show ?case using alone_unlink by blast
next
  case (14 t i s) then show ?case by (auto dest!: subsetD[of UNIV _ "0 :: int"])
next
  case (15 t i s tm) then show ?case by (blast intro: alone_rename)
next
  case (16 s d) then show ?case by (auto simp: alone_after_def same_files_def)
qed simp_all

text \<open>
  C14: Without interference \<^verbatim>\<open>write_file_atomic\<close> either replaces the target or changes nothing. On success exactly the entry of the target
  changes: it is a new regular file with the given content, on the disk, and with the permission bits of the old file, without its set-id bits,
  or the default ones for a new file; if the kernel refuses to tell the old mode the default ones are used. On failure, if the temporary file can
  be removed, all entries and all files are as before. In both cases every descriptor is closed again.
\<close>
theorem atomic_write_exact:
  assumes "fs_wf (fs w)" and "\<forall>fd \<ge> next_fd w. fds w fd = None" and "length (filename path) \<noteq> 254"
    and alone: "no_others w"
  shows "case write_file_atomic path content w of
      (Inr _, w') \<Rightarrow> fds w' = fds w \<and> same_files (fs w) (fs w') \<and> (\<exists>i mode. dir (fs w') = (dir (fs w))(resolve path \<mapsto> i)
          \<and> inode_of (fs w') i = \<lparr>i_kind = Regular, i_mode = mode, i_data = content, i_synced = True\<rparr>
          \<and> (mode = final_mode (umask w) (mode_at (fs w) (resolve path))
              \<or> fst (hd (steps w)) < 0 \<and> steps w \<noteq> [] \<and> mode = final_mode (umask w) None))
    | (Inl _, w') \<Rightarrow> fds w' = fds w \<and> same_files (fs w) (fs w') \<and> (unlink_ok w \<longrightarrow> dir (fs w') = dir (fs w))
        \<and> dir (fs w') (resolve path) = dir (fs w) (resolve path)"
proof -
  define L where "L \<longleftrightarrow> steps w \<noteq> [] \<and> fst (hd (steps w)) < 0"
  let ?K = "set (tickets 128 (counter w) (taken w))"
  have "alone.ok (pid w) (umask w) (unlink_ok w) (alone.idle path (fs w) (fds w) (counter w) (taken w)) w"
    using assms by (auto simp: alone.ok_def alone.idle_def alone_before_def alone_cond_def same_files_def no_others_def)
  moreover have "L \<or> (\<forall>r acts rest. steps w = (r, acts) # rest \<longrightarrow> 0 \<le> r)" by (auto simp: L_def)
  moreover obtain result w' where r: "write_file_atomic path content w = (result, w')" by fastforce
  moreover have "\<not> alone.broken w" for w by (simp add: alone.broken_def good_def)
  ultimately have run: "case result of Inr _ \<Rightarrow> alone_after path content (umask w) L (fs w) (fs w') \<and> fds w' = fds w
      | Inl _ \<Rightarrow> alone.undone path (pid w) ?K (unlink_ok w) (fs w) (fs w') \<and> fds w' = fds w"
    using alone.write_file_atomic_ok[of "pid w" "umask w" "unlink_ok w" path "fs w" "fds w" "counter w" "taken w" w L ?K content]
    by (cases result) (auto simp: alone.ok_def alone.replaced_def)
  show ?thesis
  proof (cases result)
    case (Inr u)
    then have "alone_after path content (umask w) L (fs w) (fs w')" "fds w' = fds w"
      using run by simp_all
    then show ?thesis unfolding r Inr prod.case sum.case alone_after_def L_def by blast
  next
    case (Inl x)
    then have u: "alone.undone path (pid w) ?K (unlink_ok w) (fs w) (fs w')" "fds w' = fds w"
      using run by simp_all
    have "dir (fs w') (resolve path) = dir (fs w) (resolve path)" if "alone_during path (pid w) ?K (fs w) t i (fs w')" for t i
      using that alone_differs[of path "fs w" t "pid w" ?K] by (auto simp: alone_during_def)
    then show ?thesis
      using u by (auto simp: r Inl alone.undone_def alone_before_def split: if_splits) (auto simp: alone_during_def)
  qed
qed

theorem atomic_write_exact_witness:
  "case write_file_atomic ''etc/app.json'' ''new'' (demo_files [(3, []), (1, []), (- 5, [])]) of
      (Inr _, w') \<Rightarrow> fds w' = (\<lambda>_. None)
    | (Inl _, w') \<Rightarrow> fds w' = (\<lambda>_. None) \<and> dir (fs w') = dir demo_fs"
  using atomic_write_exact[of "demo_files [(3, []), (1, []), (- 5, [])]" "''etc/app.json''" "''new''"] demo_start(1)
  by (auto simp: demo_name demo_files_def no_others_def split: prod.splits sum.splits)

section \<open>Reading and writing in place\<close>

text \<open>A call the kernel refuses, and a call it carries out, when nobody interferes.\<close>

lemma sys_alone_cases:
  assumes "no_others w"
  obtains (Refused) r rest where "steps w = (r, []) # rest" "r < 0" "sys call w = (Inl (- r), w\<lparr>steps := rest\<rparr>)"
    | (Done) n rest where "rest = tl (steps w)" "sys call w = call n (w\<lparr>steps := rest\<rparr>)"
      "n = None \<or> (\<exists>r. n = Some (nat r) \<and> (r, []) \<in> set (steps w))"
proof (cases "steps w")
  case Nil
  have "w\<lparr>steps := []\<rparr> = w" unfolding Nil[symmetric] by simp
  then have "sys call w = call None (w\<lparr>steps := []\<rparr>)" using sys_end[OF Nil] by simp
  then show ?thesis using Done[where rest = "[]" and n = None] Nil by simp
next
  case (Cons a rest)
  then obtain r where a: "a = (r, [])" using assms by (cases a) (auto simp: no_others_def)
  show ?thesis
  proof (cases "r < 0")
    case True
    then show ?thesis using Refused[where r = r and rest = rest] Cons a by (simp add: sys_next[of w r "[]" rest])
  next
    case False
    then show ?thesis using Done[where rest = rest and n = "Some (nat r)"] Cons a by (auto simp: sys_next[of w r "[]" rest])
  qed
qed

lemma no_others_tl: "no_others w \<Longrightarrow> no_others (w\<lparr>steps := tl (steps w)\<rparr>)"
  by (cases "steps w") (auto simp: no_others_def)

lemma no_others_rest: "no_others w \<Longrightarrow> steps w = a # rest \<Longrightarrow> no_others (w\<lparr>steps := rest\<rparr>)"
  by (auto simp: no_others_def)

text \<open>What the loops leave alone.\<close>

definition only_reads :: "nat \<Rightarrow> fworld \<Rightarrow> fworld \<Rightarrow> bool" where
  "only_reads fd w w' \<longleftrightarrow> fs w' = fs w \<and> (fds w')(fd := None) = (fds w)(fd := None) \<and> scoped_fd w' = scoped_fd w \<and> no_others w'"

definition fatal :: "fworld \<Rightarrow> bool" where
  "fatal w \<longleftrightarrow> (\<exists>(r, f) \<in> set (steps w). r < 0 \<and> r \<noteq> - EINTR)"

lemma fatal_mono: "fatal w' \<Longrightarrow> set (steps w') \<subseteq> set (steps w) \<Longrightarrow> fatal w"
  unfolding fatal_def by blast

lemma ReadLoop_exact:
  assumes "no_others w" and "fds w fd = Some (F_desc i off)" and "sink = take off d" and "i_data (inode_of (fs w) i) = d"
    and "i_kind (inode_of (fs w) i) \<noteq> Directory" and "length d \<le> mem_limit w"
  shows "case ReadLoop fd path sink w of
      (Inr s, w') \<Rightarrow> s = d \<and> only_reads fd w w'
    | (Inl _, w') \<Rightarrow> fatal w \<and> only_reads fd w w'"
  using assms
proof (induction fd path sink w arbitrary: off rule: ReadLoop.induct)
  case (1 fd path sink w)
  let ?call = "\<lambda>n. with_file fd (\<lambda>i off w.
     if i_kind (inode_of (fs w) i) = Directory then (Inl EISDIR, w)
     else (let bytes = take (case n of None \<Rightarrow> kReadBufferSize | Some m \<Rightarrow> max 1 (min m kReadBufferSize)) (drop off (i_data (inode_of (fs w) i)))
           in (Inr bytes, w\<lparr>fds := (fds w)(fd \<mapsto> F_desc i (off + length bytes))\<rparr>)))"
  show ?case
  proof (rule sys_alone_cases[OF 1(3), of ?call])
    fix r rest
    let ?w = "w\<lparr>steps := rest\<rparr>"
    assume a: "steps w = (r, []) # rest" "r < 0" "sys ?call w = (Inl (- r), ?w)"
    then have rd: "sys_read fd kReadBufferSize w = (Inl (- r), ?w)" by (simp add: sys_read_def)
    have or: "only_reads fd w ?w" using no_others_rest[OF 1(3) a(1)] by (simp add: only_reads_def)
    show ?thesis
    proof (cases "- r = EINTR")
      case True
      have "case ReadLoop fd path sink ?w of (Inr s, w') \<Rightarrow> s = d \<and> only_reads fd ?w w' | (Inl _, w') \<Rightarrow> fatal ?w \<and> only_reads fd ?w w'"
        using 1(1)[OF rd[symmetric] refl True, of off] no_others_rest[OF 1(3) a(1)] 1(4-8) by simp
      then show ?thesis
        using rd True fatal_mono[of ?w w] a(1) or
        by (subst ReadLoop.simps) (auto simp: only_reads_def split: prod.splits sum.splits)
    next
      case False
      then have "fatal w" using a by (auto simp: fatal_def)
      then show ?thesis using rd False or by (subst ReadLoop.simps) (simp add: ThrowFileError_def)
    qed
  next
    fix n rest
    let ?w = "w\<lparr>steps := rest\<rparr>"
    define bytes where "bytes = take (case n of None \<Rightarrow> kReadBufferSize | Some m \<Rightarrow> max 1 (min m kReadBufferSize)) (drop off d)"
    let ?w' = "?w\<lparr>fds := (fds w)(fd \<mapsto> F_desc i (off + length bytes))\<rparr>"
    have len: "length bytes = min (length d - off) (case n of None \<Rightarrow> kReadBufferSize | Some m \<Rightarrow> max 1 (min m kReadBufferSize))"
      by (simp add: bytes_def min.commute)
    assume a: "rest = tl (steps w)" "sys ?call w = ?call n ?w"
    then have rd: "sys_read fd kReadBufferSize w = (Inr bytes, ?w')"
      using 1(4,6,7) by (simp add: sys_read_def with_file_def bytes_def[symmetric] len)
    have no: "no_others ?w'" using no_others_tl[OF 1(3)] a(1) by (simp add: no_others_def)
    then have or: "only_reads fd w ?w'" by (simp add: only_reads_def)
    have sink: "sink @ bytes = take (off + length bytes) d"
      using 1(5) by (simp add: bytes_def take_add min_def)
    have sub: "set rest \<subseteq> set (steps w)" using a(1) by (cases "steps w") auto
    show ?thesis
    proof (cases "bytes = []")
      case True
      then have "length d \<le> off" by (auto simp: bytes_def kReadBufferSize_def split: option.splits)
      then show ?thesis using rd True or 1(5) by (subst ReadLoop.simps) simp
    next
      case False
      have mem: "\<not> length (sink @ bytes) > mem_limit ?w'" using 1(8) unfolding sink by simp
      have "case ReadLoop fd path (sink @ bytes) ?w' of (Inr s, w') \<Rightarrow> s = d \<and> only_reads fd ?w' w' | (Inl _, w') \<Rightarrow> fatal ?w' \<and> only_reads fd ?w' w'"
        using 1(2)[OF rd[symmetric] refl False mem, of "off + length bytes"] no 1(6-8) sink by simp
      then show ?thesis
        using rd False mem fatal_mono[of ?w' w] sub
        by (subst ReadLoop.simps) (auto simp: only_reads_def split: prod.splits sum.splits)
    qed
  qed
qed

lemma reset_closes:
  assumes "scoped_fd w = Some fd" and "no_others w"
  shows "fds (ScopedFd_reset w) = (fds w)(fd := None)" and "fs (ScopedFd_reset w) = fs w"
proof -
  let ?w = "w\<lparr>scoped_fd := None, fds := (fds w)(fd := None)\<rparr>"
  have "no_others ?w" using assms(2) by (simp add: no_others_def)
  then have "fds (snd (sys (\<lambda>_ w. (Inr (), w)) ?w)) = (fds w)(fd := None) \<and> fs (snd (sys (\<lambda>_ w. (Inr (), w)) ?w)) = fs w"
    by (rule sys_alone_cases[of ?w "\<lambda>_ w. (Inr (), w)"]) simp_all
  then show "fds (ScopedFd_reset w) = (fds w)(fd := None)" "fs (ScopedFd_reset w) = fs w"
    using assms(1) by (simp_all add: ScopedFd_reset_def sys_close_def)
qed

definition first_refused :: "fworld \<Rightarrow> bool" where
  "first_refused w \<longleftrightarrow> steps w \<noteq> [] \<and> fst (hd (steps w)) < 0"

lemma read_opened:
  assumes "no_others w" and "fds w fd = Some (F_desc i 0)" and "i_kind (inode_of (fs w) i) \<noteq> Directory"
    and "length (i_data (inode_of (fs w) i)) \<le> mem_limit w" and "scoped_fd w = Some fd"
  shows "case finally_do (\<lambda>w. case sys_fstat fd w of
           (Inl e, w') \<Rightarrow> ReadLoop fd path [] w'
         | (Inr (i, n), w') \<Rightarrow>
             if i_kind n = Regular \<and> 0 < length (i_data n) \<and> length (i_data n) > mem_limit w'
             then ThrowOutOfMemory ''cannot read file'' path w'
             else ReadLoop fd path [] w') ScopedFd_reset w of
      (Inr s, w') \<Rightarrow> s = i_data (inode_of (fs w) i) \<and> fs w' = fs w \<and> fds w' = (fds w)(fd := None)
    | (Inl _, w') \<Rightarrow> fatal w \<and> fs w' = fs w \<and> fds w' = (fds w)(fd := None)"
proof -
  define m where "m = (\<lambda>w. case sys_fstat fd w of
           (Inl e, w') \<Rightarrow> ReadLoop fd path [] w'
         | (Inr (i, n), w') \<Rightarrow>
             if i_kind n = Regular \<and> 0 < length (i_data n) \<and> length (i_data n) > mem_limit w'
             then ThrowOutOfMemory ''cannot read file'' path w'
             else ReadLoop fd path [] w')"
  have "\<exists>rest. m w = ReadLoop fd path [] (w\<lparr>steps := rest\<rparr>) \<and> no_others (w\<lparr>steps := rest\<rparr>) \<and> set rest \<subseteq> set (steps w)"
  proof (rule sys_alone_cases[OF assms(1), of "\<lambda>_. with_file fd (\<lambda>i off w. (Inr (i, inode_of (fs w) i), w))"], goal_cases)
    case (1 r rest)
    then show ?thesis using no_others_rest[OF assms(1) 1(1)]
      by (intro exI[of _ rest]) (auto simp: m_def sys_fstat_def)
  next
    case (2 n rest)
    have "set rest \<subseteq> set (steps w)" using 2(1) by (cases "steps w") auto
    then show ?thesis using 2 no_others_tl[OF assms(1)] assms(2,4)
      by (intro exI[of _ rest]) (auto simp: m_def sys_fstat_def with_file_def)
  qed
  then obtain w2 where w2: "m w = ReadLoop fd path [] w2" "no_others w2" "fs w2 = fs w" "fds w2 = fds w" "mem_limit w2 = mem_limit w"
      "scoped_fd w2 = Some fd" "set (steps w2) \<subseteq> set (steps w)" using assms(5) by fastforce
  have loop: "case ReadLoop fd path [] w2 of (Inr s, w') \<Rightarrow> s = i_data (inode_of (fs w) i) \<and> only_reads fd w2 w'
      | (Inl _, w') \<Rightarrow> fatal w2 \<and> only_reads fd w2 w'"
    using ReadLoop_exact[OF w2(2), of fd i 0 "[]" "i_data (inode_of (fs w) i)" path] w2 assms(2-4) by simp
  have "fs (ScopedFd_reset w') = fs w \<and> fds (ScopedFd_reset w') = (fds w)(fd := None)" if "only_reads fd w2 w'" for w'
    using reset_closes[of w' fd] that w2(3,4,6) by (simp add: only_reads_def)
  then show ?thesis
    using loop fatal_mono[OF _ w2(7)] unfolding m_def[symmetric] finally_do_def w2(1)
    by (auto split: prod.splits sum.splits)
qed

text \<open>
  C40: \<^verbatim>\<open>read_file\<close> returns the whole content of a file that fits into memory, through short reads and interrupted calls; it fails only when the kernel refuses
  to open the file or refuses a later call for another reason than a signal. It changes nothing and closes its descriptor, also when it fails.
\<close>
theorem read_file_exact:
  assumes "no_others w" and "dir (fs w) (follow w (fs w) (resolve path)) = Some i" and "i_kind (inode_of (fs w) i) \<noteq> Directory"
    and "length (i_data (inode_of (fs w) i)) \<le> mem_limit w" and "\<forall>fd \<ge> next_fd w. fds w fd = None"
  shows "case read_file path w of
      (Inr s, w') \<Rightarrow> s = i_data (inode_of (fs w) i) \<and> fs w' = fs w \<and> fds w' = fds w
    | (Inl _, w') \<Rightarrow> (first_refused w \<or> fatal w) \<and> fs w' = fs w \<and> fds w' = fds w"
proof -
  let ?call = "\<lambda>_ w. case dir (fs w) (follow w (fs w) (resolve path)) of None \<Rightarrow> (Inl ENOENT, w) | Some i \<Rightarrow> open_desc (F_desc i 0) w"
  show ?thesis
  proof (rule sys_alone_cases[OF assms(1), of ?call])
    fix r rest
    assume a: "steps w = (r, []) # rest" "r < 0" "sys ?call w = (Inl (- r), w\<lparr>steps := rest\<rparr>)"
    then show ?thesis
      by (simp add: read_file_def ReadInto_def bindF_def or_throw_def sys_open_read_def ThrowFileError_def first_refused_def)
  next
    fix n rest
    let ?fd = "next_fd w"
    let ?w = "w\<lparr>steps := rest, fds := (fds w)(?fd \<mapsto> F_desc i 0), next_fd := Suc ?fd, scoped_fd := Some ?fd\<rparr>"
    assume a: "rest = tl (steps w)" "sys ?call w = ?call n (w\<lparr>steps := rest\<rparr>)"
    have no: "no_others ?w" using no_others_tl[OF assms(1)] a(1) by (simp add: no_others_def)
    have sub: "set (steps ?w) \<subseteq> set (steps w)" using a(1) by (cases "steps w") auto
    have F: "((fds w)(?fd \<mapsto> F_desc i 0))(?fd := None) = fds w" using assms(5) by auto
    show ?thesis
      using read_opened[OF no, of ?fd i path] a(2) assms(2-4) F fatal_mono[OF _ sub]
      by (simp add: read_file_def ReadInto_def bindF_def or_throw_def sys_open_read_def open_desc_def split: prod.splits sum.splits)
  qed
qed

theorem read_file_exact_witness:
  "case read_file ''etc/app.json'' (demo_files [(0, []), (- 4, []), (2, []), (- 4, []), (1, [])]) of
      (Inr s, w') \<Rightarrow> s = ''old'' | (Inl _, w') \<Rightarrow> False"
  using read_file_exact[of "demo_files [(0, []), (- 4, []), (2, []), (- 4, []), (1, [])]" "''etc/app.json''" 0]
  by (auto simp: demo_files_def demo_path demo_fs_def no_others_def first_refused_def fatal_def EINTR_def split: prod.splits sum.splits)

definition only_writes :: "nat \<Rightarrow> fworld \<Rightarrow> fworld \<Rightarrow> bool" where
  "only_writes fd w w' \<longleftrightarrow> dir (fs w') = dir (fs w) \<and> (fds w')(fd := None) = (fds w)(fd := None) \<and> scoped_fd w' = scoped_fd w \<and> no_others w'"

lemma WriteAll_prefix:
  assumes "no_others w" and "fds w fd = Some (F_desc i (length d))" and "i_data (inode_of (fs w) i) = d"
  shows "case WriteAll fd content path w of
      (Inr _, w') \<Rightarrow> i_data (inode_of (fs w') i) = d @ content \<and> only_writes fd w w'
    | (Inl _, w') \<Rightarrow> (\<exists>k. i_data (inode_of (fs w') i) = d @ take k content) \<and> only_writes fd w w'"
  using assms
proof (induction fd content path w arbitrary: d rule: WriteAll.induct)
  case (1 fd content path w)
  let ?call = "\<lambda>n. with_file fd (\<lambda>i off w.
     let bytes = take (case n of None \<Rightarrow> length content | Some m \<Rightarrow> m) content
     in (Inr (length bytes),
         (put_fs (update_inode i (overwrite off bytes) (fs w)) w)\<lparr>fds := (fds w)(fd \<mapsto> F_desc i (off + length bytes))\<rparr>))"
  show ?case
  proof (cases "content = []")
    case True
    then show ?thesis using 1(3,5) by (subst WriteAll.simps) (simp add: only_writes_def)
  next
    case ne: False
    show ?thesis
    proof (rule sys_alone_cases[OF 1(3), of ?call])
      fix r rest
      let ?w = "w\<lparr>steps := rest\<rparr>"
      assume a: "steps w = (r, []) # rest" "r < 0" "sys ?call w = (Inl (- r), ?w)"
      then have wr: "sys_write fd content w = (Inl (- r), ?w)" by (simp add: sys_write_def)
      have ow: "only_writes fd w ?w" using no_others_rest[OF 1(3) a(1)] by (simp add: only_writes_def)
      show ?thesis
      proof (cases "- r = EINTR")
        case True
        have "case WriteAll fd content path ?w of (Inr _, w') \<Rightarrow> i_data (inode_of (fs w') i) = d @ content \<and> only_writes fd ?w w'
            | (Inl _, w') \<Rightarrow> (\<exists>k. i_data (inode_of (fs w') i) = d @ take k content) \<and> only_writes fd ?w w'"
          using 1(1)[OF ne wr[symmetric] refl True, of d] no_others_rest[OF 1(3) a(1)] 1(4,5) by simp
        then show ?thesis
          using wr True ne by (subst WriteAll.simps) (auto simp: only_writes_def split: prod.splits sum.splits)
      next
        case False
        then show ?thesis using wr ne ow 1(5) by (subst WriteAll.simps) (auto simp: ThrowFileError_def intro: exI[of _ 0])
      qed
    next
      fix n rest
      define bytes where "bytes = take (case n of None \<Rightarrow> length content | Some m \<Rightarrow> m) content"
      define w1 where "w1 = (put_fs (update_inode i (overwrite (length d) bytes) (fs w)) (w\<lparr>steps := rest\<rparr>))
        \<lparr>fds := (fds w)(fd \<mapsto> F_desc i (length d + length bytes))\<rparr>"
      have len: "length bytes = min (length content) (case n of None \<Rightarrow> length content | Some m \<Rightarrow> m)" by (simp add: bytes_def)
      assume a: "rest = tl (steps w)" "sys ?call w = ?call n (w\<lparr>steps := rest\<rparr>)"
      then have wr: "sys_write fd content w = (Inr (length bytes), w1)"
        using 1(4) by (simp add: sys_write_def with_file_def Let_def w1_def bytes_def[symmetric])
      have data: "i_data (inode_of (fs w1) i) = d @ bytes"
        using 1(5) by (simp add: w1_def put_fs_def update_inode_def overwrite_def)
      have "no_others (w\<lparr>steps := rest\<rparr>)" using no_others_tl[OF 1(3)] a(1) by simp
      then have no: "no_others w1" by (simp add: w1_def put_fs_def no_others_def)
      then have ow: "only_writes fd w w1"
        by (simp add: only_writes_def w1_def put_fs_def update_inode_def)
      show ?thesis
      proof (cases "length bytes = 0")
        case True
        then show ?thesis using wr ne ow data by (subst WriteAll.simps) (auto simp: ThrowFileError_def intro: exI[of _ 0])
      next
        case False
        have drop: "d @ content = (d @ bytes) @ drop (length bytes) content"
          by (simp add: bytes_def min_def split: option.splits)
        have pre: "(d @ bytes) @ take k (drop (length bytes) content) = d @ take (length bytes + k) content" for k
          by (simp add: bytes_def take_add min_def split: option.splits)
        have "case WriteAll fd (drop (length bytes) content) path w1 of
              (Inr _, w') \<Rightarrow> i_data (inode_of (fs w') i) = (d @ bytes) @ drop (length bytes) content \<and> only_writes fd w1 w'
            | (Inl _, w') \<Rightarrow> (\<exists>k. i_data (inode_of (fs w') i) = (d @ bytes) @ take k (drop (length bytes) content)) \<and> only_writes fd w1 w'"
          using 1(2)[OF ne wr[symmetric] refl False, of "d @ bytes"] no data by (simp add: w1_def)
        then have "case WriteAll fd (drop (length bytes) content) path w1 of
              (Inr _, w') \<Rightarrow> i_data (inode_of (fs w') i) = d @ content \<and> only_writes fd w w'
            | (Inl _, w') \<Rightarrow> (\<exists>k. i_data (inode_of (fs w') i) = d @ take k content) \<and> only_writes fd w w'"
          unfolding drop[symmetric] pre using ow by (auto simp: only_writes_def split: prod.splits sum.splits)
        then show ?thesis using wr ne False by (subst WriteAll.simps) simp
      qed
    qed
  qed
qed

lemma close_alone:
  assumes "no_others w" and "scoped_fd w = Some fd"
  shows "case ScopedFd_close w of (r, w') \<Rightarrow> fs w' = fs w \<and> fds w' = (fds w)(fd := None) \<and> scoped_fd w' = None"
proof -
  let ?w = "w\<lparr>scoped_fd := None, fds := (fds w)(fd := None)\<rparr>"
  have "no_others ?w" using assms(1) by (simp add: no_others_def)
  then show ?thesis
    by (rule sys_alone_cases[of ?w "\<lambda>_ w. (Inr (), w)"]) (simp_all add: ScopedFd_close_def sys_close_def assms(2))
qed

lemma write_opened:
  assumes "no_others w" and "fds w fd = Some (F_desc i 0)" and "i_data (inode_of (fs w) i) = []" and "scoped_fd w = Some fd"
  shows "case finally_do (bindF (WriteAll fd content path) (\<lambda>_. or_throw ScopedFd_close ''cannot close file'' path)) ScopedFd_reset w of
      (r, w') \<Rightarrow> dir (fs w') = dir (fs w) \<and> fds w' = (fds w)(fd := None)
        \<and> (\<exists>k. i_data (inode_of (fs w') i) = take k content) \<and> (r = Inr () \<longrightarrow> i_data (inode_of (fs w') i) = content)"
proof -
  obtain r w1 where wa: "WriteAll fd content path w = (r, w1)" by fastforce
  have wr: "only_writes fd w w1" "case r of Inr _ \<Rightarrow> i_data (inode_of (fs w1) i) = content
      | Inl _ \<Rightarrow> (\<exists>k. i_data (inode_of (fs w1) i) = take k content)"
    using WriteAll_prefix[of w fd i "[]" content path] assms(1-3) wa by (cases r; simp)+
  then have w1: "dir (fs w1) = dir (fs w)" "(fds w1)(fd := None) = (fds w)(fd := None)" "scoped_fd w1 = Some fd" "no_others w1"
    using assms(4) by (simp_all add: only_writes_def)
  show ?thesis
  proof (cases r)
    case (Inl e)
    then show ?thesis using wa w1 wr(2) reset_closes[OF w1(3,4)] by (simp add: finally_do_def bindF_def)
  next
    case (Inr u)
    obtain c w2 where c: "ScopedFd_close w1 = (c, w2)" by fastforce
    then have w2: "fs w2 = fs w1" "fds w2 = (fds w1)(fd := None)" "scoped_fd w2 = None" using close_alone[OF w1(4,3)] by simp_all
    then have "ScopedFd_reset w2 = w2" by (simp add: ScopedFd_reset_def)
    then show ?thesis
      using wa Inr c w2 w1(1,2) wr(2)
      by (cases c) (auto simp: finally_do_def bindF_def or_throw_def ThrowFileError_def intro: exI[of _ "length content"])
  qed
qed

text \<open>
  \<^verbatim>\<open>write_file\<close> is not atomic: when it fails after the file was opened, the file holds the beginning of the content, and what it held before is lost.
  When it returns the file holds the content. The descriptor is closed in every case.
\<close>
theorem write_file_prefix:
  assumes "no_others w" and "\<forall>fd \<ge> next_fd w. fds w fd = None"
    and target: "follow w (fs w) (resolve path) = e" "\<And>i. dir (fs w) e = Some i \<Longrightarrow> i_kind (inode_of (fs w) i) \<noteq> Directory"
  shows "case write_file path content w of (r, w') \<Rightarrow> fds w' = fds w
      \<and> (fs w' = fs w \<and> first_refused w \<and> r \<noteq> Inr ()
         \<or> (\<exists>i k. dir (fs w') e = Some i \<and> i_data (inode_of (fs w') i) = take k content) \<and> \<not> first_refused w)
      \<and> (r = Inr () \<longrightarrow> (\<exists>i. dir (fs w') e = Some i \<and> i_data (inode_of (fs w') i) = content))"
proof -
  let ?call = "\<lambda>_ w. let e = follow w (fs w) (resolve path)
     in case dir (fs w) e of
          None \<Rightarrow> open_desc (F_desc (next_ino (fs w)) 0) (put_fs (create_file e (0x1B6 AND NOT (umask w)) (fs w)) w)
        | Some i \<Rightarrow>
            if i_kind (inode_of (fs w) i) = Directory then (Inl EISDIR, w)
            else open_desc (F_desc i 0) (put_fs (update_inode i truncated (fs w)) w)"
  let ?fd = "next_fd w"
  have F: "((fds w)(?fd \<mapsto> d))(?fd := None) = fds w" for d using assms(2) by auto
  show ?thesis
  proof (cases "first_refused w")
    case True
    then obtain r rest where st: "steps w = (r, []) # rest" "r < 0"
      using assms(1) by (cases "steps w") (auto simp: first_refused_def no_others_def)
    then have "sys ?call w = (Inl (- r), w\<lparr>steps := rest\<rparr>)" by (simp add: sys_next[OF st(1)])
    then show ?thesis using True
      by (simp add: write_file_def bindF_def or_throw_def sys_open_trunc_def ThrowFileError_def)
  next
    case False
    obtain n where call: "sys ?call w = ?call n (w\<lparr>steps := tl (steps w)\<rparr>)"
    proof (rule sys_alone_cases[OF assms(1), of ?call])
      show thesis if "steps w = (r, []) # rest" "r < 0" for r rest using that False by (simp add: first_refused_def)
    qed blast
    let ?w = "w\<lparr>steps := tl (steps w)\<rparr>"
    have "\<exists>i w1. sys_open_trunc path 0x1B6 w = (Inr ?fd, w1) \<and> no_others w1 \<and> fds w1 = (fds w)(?fd \<mapsto> F_desc i 0)
        \<and> i_data (inode_of (fs w1) i) = [] \<and> dir (fs w1) e = Some i"
    proof (cases "dir (fs w) e")
      case None
      then show ?thesis using call target no_others_tl[OF assms(1)]
        by (simp add: sys_open_trunc_def open_desc_def put_fs_def create_file_def no_others_def)
    next
      case (Some i)
      then show ?thesis using call target no_others_tl[OF assms(1)]
        by (simp add: sys_open_trunc_def open_desc_def put_fs_def update_inode_def truncated_def no_others_def)
    qed
    then obtain i w1 where o: "sys_open_trunc path 0x1B6 w = (Inr ?fd, w1)" and w1: "no_others w1" "fds w1 = (fds w)(?fd \<mapsto> F_desc i 0)"
        "i_data (inode_of (fs w1) i) = []" "dir (fs w1) e = Some i" by blast
    let ?w1 = "w1\<lparr>scoped_fd := Some ?fd\<rparr>"
    have "no_others ?w1" using w1(1) by (simp add: no_others_def)
    from write_opened[OF this, of ?fd i content path] show ?thesis
      using o w1 F False by (auto simp: write_file_def bindF_def or_throw_def split: prod.splits)
  qed
qed

theorem write_file_prefix_witness:
  "case write_file ''etc/app.json'' ''new'' (demo_files [(0, []), (2, []), (- 28, [])]) of (r, w') \<Rightarrow> fds w' = (\<lambda>_. None)
     \<and> (\<exists>i k. dir (fs w') (''etc'', ''app.json'') = Some i \<and> i_data (inode_of (fs w') i) = take k ''new'')"
  using write_file_prefix[of "demo_files [(0, []), (2, []), (- 28, [])]" "''etc/app.json''" "(''etc'', ''app.json'')" "''new''"]
  by (simp add: demo_files_def demo_path demo_fs_def no_others_def first_refused_def split: prod.splits)

section \<open>The check of the temporary file\<close>



















end
