(* ===== verification/Logging.thy ===== *)
theory Logging
  imports Prelude "HOL-Library.List_Lexorder"
begin

text \<open>
  Logging, \<^verbatim>\<open>deps/common/log/logging.cpp\<close>: the registry of loggers and the removal of old log files. The loggers themselves belong to the
  logging library; they are identified by a number, and a logger lives while the registry holds it.
\<close>

section \<open>The registry\<close>

datatype LoggerType = CONSOLE | RUNTIME

record registry =
  loggers :: "LoggerType \<Rightarrow> nat option"
  disused_loggers :: "LoggerType \<Rightarrow> nat option"

definition registry_init :: registry where
  "registry_init = \<lparr>loggers = (\<lambda>_. None), disused_loggers = (\<lambda>_. None)\<rparr>"

definition get_logger :: "LoggerType \<Rightarrow> registry \<Rightarrow> nat option" where
  "get_logger type reg = loggers reg type"

definition register_logger :: "LoggerType \<Rightarrow> nat option \<Rightarrow> registry \<Rightarrow> registry" where
  "register_logger type logger reg =
     (let reg = reg\<lparr>disused_loggers := (disused_loggers reg)(type := loggers reg type)\<rparr>
      in reg\<lparr>loggers := (loggers reg)(type := logger)\<rparr>)"

text \<open>The levels of the loggers, and the loggers told to flush.\<close>

definition set_level :: "'l \<Rightarrow> registry \<Rightarrow> (nat \<Rightarrow> 'l) \<Rightarrow> (nat \<Rightarrow> 'l)" where
  "set_level level reg levels =
     (let levels = (case loggers reg CONSOLE of None \<Rightarrow> levels | Some i \<Rightarrow> levels(i := level))
      in case loggers reg RUNTIME of None \<Rightarrow> levels | Some i \<Rightarrow> levels(i := level))"

definition flush :: "registry \<Rightarrow> nat list" where
  "flush reg = concat (map (\<lambda>t. case loggers reg t of None \<Rightarrow> [] | Some i \<Rightarrow> [i]) [CONSOLE, RUNTIME])"

definition logger_alive :: "nat \<Rightarrow> registry \<Rightarrow> bool" where
  "logger_alive i reg \<longleftrightarrow> (\<exists>t. loggers reg t = Some i \<or> disused_loggers reg t = Some i)"

text \<open>A logger that is replaced lives on through one registration, so that a pointer to it can still be used; a second one deletes it.\<close>

lemma replaced_logger_lives_once:
  assumes "get_logger t reg = Some i"
  shows "logger_alive i (register_logger t l reg)"
  using assms by (auto simp: logger_alive_def register_logger_def get_logger_def)

lemma replaced_logger_dies:
  assumes "get_logger t reg = Some i" and "\<And>t'. t' \<noteq> t \<Longrightarrow> loggers reg t' \<noteq> Some i \<and> disused_loggers reg t' \<noteq> Some i"
    and "l \<noteq> Some i" and "l' \<noteq> Some i"
  shows "\<not> logger_alive i (register_logger t l' (register_logger t l reg))"
  using assms by (auto simp: logger_alive_def register_logger_def)

lemma set_level_get: "get_logger t reg = Some i \<Longrightarrow> set_level level reg levels i = level"
  by (cases t) (auto simp: set_level_def get_logger_def Let_def split: option.splits)

lemma flush_all: "set (flush reg) = {i. \<exists>t. get_logger t reg = Some i}"
proof -
  have "(\<exists>t. get_logger t reg = Some i) \<longleftrightarrow> loggers reg CONSOLE = Some i \<or> loggers reg RUNTIME = Some i" for i
    by (metis LoggerType.exhaust get_logger_def)
  then show ?thesis by (auto simp: flush_def split: option.splits)
qed

section \<open>Removing old log files\<close>

text \<open>
  The entries of the directory are names with whether they are regular files; \<open>is_file_needed\<close> is the optional condition on names. The entries to be removed are
  removed one after the other; the first that cannot be removed ends the call with an exception.
\<close>

definition selected :: "(string \<Rightarrow> bool) option \<Rightarrow> string \<times> bool \<Rightarrow> bool" where
  "selected is_file_needed e \<longleftrightarrow> snd e \<and> (case is_file_needed of None \<Rightarrow> True | Some f \<Rightarrow> f (fst e))"

definition name_key :: "string \<times> bool \<Rightarrow> nat list" where
  "name_key e = map of_char (fst e)"

definition remove_entry :: "(string \<Rightarrow> bool) \<Rightarrow> string \<times> bool \<Rightarrow> (string \<times> bool) list \<Rightarrow> (string \<times> bool) list res" where
  "remove_entry removable e dir =
     (if removable (fst e) then Inr (remove1 e dir) else Inl (Runtime_Error ''cannot remove''))"

definition clean_logfiles ::
  "bool \<Rightarrow> (string \<Rightarrow> bool) \<Rightarrow> nat \<Rightarrow> (string \<Rightarrow> bool) option \<Rightarrow> (string \<times> bool) list \<Rightarrow> (string \<times> bool) list res" where
  "clean_logfiles is_directory removable max_files is_file_needed dir =
     (if \<not> is_directory then Inr dir
      else (let entries = filter (selected is_file_needed) dir
            in if length entries > max_files
               then foldE (remove_entry removable) (take (length entries - max_files) (sort_key name_key entries)) dir
               else Inr dir))"

lemma remove_all:
  assumes "\<And>e. e \<in> set es \<Longrightarrow> removable (fst e)"
  shows "foldE (remove_entry removable) es dir = Inr (fold remove1 es dir)"
  using assms by (induction es arbitrary: dir) (auto simp: remove_entry_def)

lemma set_fold_remove1: "distinct dir \<Longrightarrow> set (fold remove1 es dir) = set dir - set es \<and> distinct (fold remove1 es dir)"
  by (induction es arbitrary: dir) auto

lemma sorted_take_drop: "sorted (map f xs) \<Longrightarrow> x \<in> set (take k xs) \<Longrightarrow> y \<in> set (drop k xs) \<Longrightarrow> f x \<le> f y"
proof -
  assume s: "sorted (map f xs)" and x: "x \<in> set (take k xs)" and y: "y \<in> set (drop k xs)"
  have "sorted (map f (take k xs) @ map f (drop k xs))" using s by (simp flip: map_append)
  then show ?thesis using x y unfolding sorted_append by auto
qed

text \<open>
  When nothing refuses, the selected files that remain are the \<open>max_files\<close> last ones by name, everything else in the directory remains, and no
  removed file has a name after a selected file that was kept.
\<close>

lemma clean_keeps_last:
  assumes "distinct dir" and "\<And>e. e \<in> set dir \<Longrightarrow> removable (fst e)"
    and "clean_logfiles True removable max_files is_file_needed dir = Inr dir'"
  shows "set dir' \<subseteq> set dir" and "\<And>e. e \<in> set dir \<Longrightarrow> \<not> selected is_file_needed e \<Longrightarrow> e \<in> set dir'"
    and "card {e \<in> set dir'. selected is_file_needed e} = min max_files (length (filter (selected is_file_needed) dir))"
    and "\<And>e e'. e \<in> set dir - set dir' \<Longrightarrow> e' \<in> set dir' \<Longrightarrow> selected is_file_needed e' \<Longrightarrow> name_key e \<le> name_key e'"
proof -
  define es where "es = filter (selected is_file_needed) dir"
  define k where "k = length es - max_files"
  define ks where "ks = sort_key name_key es"
  define gone where "gone = take k ks"
  have ks: "set ks = set es" "length ks = length es" "distinct ks" "sorted (map name_key ks)"
    using assms(1) by (simp_all add: ks_def es_def)
  have "\<And>e. e \<in> set gone \<Longrightarrow> removable (fst e)"
    using assms(2) ks(1) in_set_takeD[of _ k ks] by (auto simp: gone_def es_def)
  then have "dir' = (if length es > max_files then fold remove1 gone dir else dir)"
    using assms(3) remove_all[of gone removable dir]
    by (auto simp: clean_logfiles_def Let_def es_def[symmetric] ks_def[symmetric] k_def[symmetric] gone_def[symmetric] split: if_splits)
  moreover have "gone = []" if "\<not> length es > max_files" using that by (simp add: gone_def k_def)
  ultimately have "dir' = fold remove1 gone dir" by auto
  then have d': "set dir' = set dir - set gone" using set_fold_remove1[OF assms(1)] by simp
  have gone: "set gone \<subseteq> set es" using ks(1) set_take_subset[of k ks] by (simp add: gone_def)
  have rest: "set es - set gone = set (drop k ks)"
    using ks(1,3) set_take_disj_set_drop_if_distinct[OF ks(3), of k k] append_take_drop_id[of k ks]
    unfolding gone_def by (metis Diff_disjoint Un_Diff_cancel2 Diff_Un Diff_triv Int_commute order_refl set_append Un_Diff sup_bot_left Diff_cancel)
  show "set dir' \<subseteq> set dir" using d' by blast
  show "e \<in> set dir'" if "e \<in> set dir" "\<not> selected is_file_needed e" for e
    using that d' gone by (auto simp: es_def)
  have sel: "{e \<in> set dir'. selected is_file_needed e} = set (drop k ks)"
    using d' rest by (auto simp: es_def)
  have "card (set (drop k ks)) = length es - k" using ks(2,3) by (simp add: distinct_card)
  then show "card {e \<in> set dir'. selected is_file_needed e} = min max_files (length (filter (selected is_file_needed) dir))"
    unfolding sel es_def[symmetric] k_def by simp
  show "name_key e \<le> name_key e'" if "e \<in> set dir - set dir'" "e' \<in> set dir'" "selected is_file_needed e'" for e e'
    using that d' sel sorted_take_drop[OF ks(4), of e k e'] by (auto simp: gone_def)
qed

section \<open>Short file names\<close>

text \<open>\<^verbatim>\<open>past_last_slash\<close> of \<^verbatim>\<open>utilities/short_file.h\<close>: pointers into the text are the suffixes they point to.\<close>

fun past_last_slash_from :: "string \<Rightarrow> string \<Rightarrow> string" where
  "past_last_slash_from [] last_pos = last_pos"
| "past_last_slash_from (c # str) last_pos =
     (if c = CHR ''/'' \<or> c = CHR 0x5C then past_last_slash_from str str else past_last_slash_from str last_pos)"

definition past_last_slash :: "string \<Rightarrow> string" where
  "past_last_slash str = past_last_slash_from str str"

definition is_separator :: "char \<Rightarrow> bool" where
  "is_separator c \<longleftrightarrow> c = CHR ''/'' \<or> c = CHR 0x5C"

lemma no_separator: "\<not> (\<exists>c \<in> set str. is_separator c) \<Longrightarrow> takeWhile (\<lambda>c. \<not> is_separator c) (rev str) = rev str"
  by (simp add: takeWhile_eq_all_conv)

lemma past_last_slash_from_spec:
  "past_last_slash_from str last_pos =
     (if \<exists>c \<in> set str. is_separator c then rev (takeWhile (\<lambda>c. \<not> is_separator c) (rev str)) else last_pos)"
proof (induction str arbitrary: last_pos)
  case (Cons c str)
  have step: "past_last_slash_from (c # str) last_pos = past_last_slash_from str (if is_separator c then str else last_pos)"
    by (simp add: is_separator_def)
  show ?case
  proof (cases "\<exists>c \<in> set str. is_separator c")
    case True
    then obtain x where "x \<in> set (rev str)" "\<not> \<not> is_separator x" by auto
    then have "takeWhile (\<lambda>c. \<not> is_separator c) (rev str @ [c]) = takeWhile (\<lambda>c. \<not> is_separator c) (rev str)"
      by (rule takeWhile_append1)
    then show ?thesis using True Cons.IH by (simp add: step del: past_last_slash_from.simps)
  next
    case False
    then have "takeWhile (\<lambda>c. \<not> is_separator c) (rev str @ [c]) = rev str @ takeWhile (\<lambda>c. \<not> is_separator c) [c]"
      by (intro takeWhile_append2) auto
    then show ?thesis using False Cons.IH by (simp add: step del: past_last_slash_from.simps)
  qed
qed simp

text \<open>The short name is the part behind the last slash or backslash.\<close>

lemma past_last_slash_spec: "past_last_slash str = rev (takeWhile (\<lambda>c. \<not> is_separator c) (rev str))"
proof (cases "\<exists>c \<in> set str. is_separator c")
  case False
  show ?thesis unfolding past_last_slash_def past_last_slash_from_spec no_separator[OF False] by simp
qed (simp add: past_last_slash_def past_last_slash_from_spec)

end
