(* ===== verification/Threads.thy ===== *)
theory Threads
  imports Interfaces Inet_Address
begin

text \<open>
  Threads, \<^verbatim>\<open>deps/common/base/{thread,current_thread}\<close>, and the rule of one event loop for each thread,
  \<^verbatim>\<open>plugins/Muduo/muduo/net/EventLoop.cpp\<close>: what a thread knows of itself, starting, joining and naming threads, and which
  thread a loop belongs to.
\<close>

section \<open>What a thread knows of itself\<close>

text \<open>
  The cache of a thread is made from the kernel's number when the thread first asks, and kept for its life. \<open>loop_here\<close> is the thread's
  \<^verbatim>\<open>t_loopInThisThread\<close>.
\<close>

record cache =
  c_tid :: int
  tidStr :: string
  threadName :: string

record sys_thread =
  kernel_tid :: int
  th_cache :: "cache option"
  loop_here :: "nat option"
  ended :: bool

text \<open>A process: its threads by their order of creation, and its live loops with the number of the thread each belongs to.\<close>

record process =
  getpid :: int
  sys_threads :: "sys_thread list"
  loops :: "nat \<Rightarrow> int option"

definition pad_left :: "nat \<Rightarrow> string \<Rightarrow> string" where
  "pad_left n s = replicate (n - length s) (CHR '' '') @ s"

definition Cache_new :: "int \<Rightarrow> cache" where
  "Cache_new tid = \<lparr>c_tid = tid, tidStr = take 31 (pad_left 6 (dec_int tid)), threadName = ''unKnown''\<rparr>"

definition with_cache :: "(cache \<Rightarrow> cache) \<Rightarrow> nat \<Rightarrow> process \<Rightarrow> process" where
  "with_cache f t p =
     (let th = sys_threads p ! t; c = (case th_cache th of Some c \<Rightarrow> c | None \<Rightarrow> Cache_new (kernel_tid th))
      in p\<lparr>sys_threads := (sys_threads p)[t := th\<lparr>th_cache := Some (f c)\<rparr>]\<rparr>)"

definition cache_of :: "nat \<Rightarrow> process \<Rightarrow> cache" where
  "cache_of t p = (case th_cache (sys_threads p ! t) of Some c \<Rightarrow> c | None \<Rightarrow> Cache_new (kernel_tid (sys_threads p ! t)))"

definition current_id :: "nat \<Rightarrow> process \<Rightarrow> int \<times> process" where
  "current_id t p = (c_tid (cache_of t p), with_cache id t p)"

definition is_main :: "nat \<Rightarrow> process \<Rightarrow> bool \<times> process" where
  "is_main t p = (let (i, p') = current_id t p in (i = getpid p', p'))"

text \<open>\<^verbatim>\<open>strncpy\<close> into a field of 32 bytes whose last one stays zero.\<close>

definition set_thread_name :: "string \<Rightarrow> nat \<Rightarrow> process \<Rightarrow> process" where
  "set_thread_name name = with_cache (\<lambda>c. c\<lparr>threadName := take 31 (c_str name)\<rparr>)"

definition thread_name :: "nat \<Rightarrow> process \<Rightarrow> string \<times> process" where
  "thread_name t p = (threadName (cache_of t p), with_cache id t p)"

section \<open>Thread objects\<close>

text \<open>\<^verbatim>\<open>thread_\<close> is empty after a move; a \<^verbatim>\<open>std::thread\<close> stands for a thread until it is joined or detached.\<close>

record thread_obj =
  std_thread :: "nat option option"
  th_name :: string
  th_tid :: int

text \<open>
  \<open>start_thread\<close> returns when the new thread has stored its number. \<open>None\<close> is a system that cannot make a thread. The kernel gives the new thread
  the number \<open>k\<close>.
\<close>

definition start_thread :: "string \<Rightarrow> int option \<Rightarrow> process \<Rightarrow> (thread_obj \<times> process) res" where
  "start_thread name k p =
     (case k of
        None \<Rightarrow> Inl (Runtime_Error ''system_error'')
      | Some k \<Rightarrow>
          (let t = length (sys_threads p);
               p1 = p\<lparr>sys_threads := sys_threads p @ [\<lparr>kernel_tid = k, th_cache = None, loop_here = None, ended = False\<rparr>]\<rparr>;
               (tid, p2) = current_id t p1
           in Inr (\<lparr>std_thread = Some (Some t), th_name = name, th_tid = tid\<rparr>, p2)))"

text \<open>What the new thread does around its function: the name before it, and the name after it, when it returned or an exception was swallowed.\<close>

definition monitor_begin :: "string \<Rightarrow> nat \<Rightarrow> process \<Rightarrow> process" where
  "monitor_begin name = set_thread_name name"

definition monitor_end :: "bool \<Rightarrow> nat \<Rightarrow> process \<Rightarrow> process" where
  "monitor_end throws t p =
     (let p' = set_thread_name (if throws then ''crashed'' else ''finished'') t p
      in p'\<lparr>sys_threads := (sys_threads p')[t := (sys_threads p' ! t)\<lparr>ended := True\<rparr>]\<rparr>)"

text \<open>\<open>Inr None\<close> is a caller that still waits.\<close>

definition Thread_join :: "nat \<Rightarrow> thread_obj \<Rightarrow> process \<Rightarrow> thread_obj option res" where
  "Thread_join caller ob p =
     (case std_thread ob of
        None \<Rightarrow> Inl Null_Deref
      | Some None \<Rightarrow> Inr (Some ob)
      | Some (Some t) \<Rightarrow>
          if t = caller then Inl (Runtime_Error ''system_error'')
          else if ended (sys_threads p ! t) then Inr (Some (ob\<lparr>std_thread := Some None\<rparr>)) else Inr None)"

definition Thread_detach :: "thread_obj \<Rightarrow> thread_obj res" where
  "Thread_detach ob =
     (case std_thread ob of
        None \<Rightarrow> Inl Null_Deref
      | Some None \<Rightarrow> Inl (Runtime_Error ''system_error'')
      | Some (Some t) \<Rightarrow> Inr (ob\<lparr>std_thread := Some None\<rparr>))"

text \<open>Moving takes the \<^verbatim>\<open>std::thread\<close> along and copies the rest. Destroying one that can still be joined ends the program.\<close>

definition Thread_move :: "thread_obj \<Rightarrow> thread_obj \<times> thread_obj" where
  "Thread_move ob = (ob, ob\<lparr>std_thread := None\<rparr>)"

definition Thread_delete :: "thread_obj \<Rightarrow> unit res" where
  "Thread_delete ob = (case std_thread ob of Some (Some t) \<Rightarrow> Inl Exit_Failure | _ \<Rightarrow> Inr ())"

section \<open>One loop for each thread\<close>

definition put_loop :: "nat \<Rightarrow> nat option \<Rightarrow> process \<Rightarrow> process" where
  "put_loop t l p = p\<lparr>sys_threads := (sys_threads p)[t := (sys_threads p ! t)\<lparr>loop_here := l\<rparr>]\<rparr>"

definition getEventLoopOfCurrentThread :: "nat \<Rightarrow> process \<Rightarrow> nat option" where
  "getEventLoopOfCurrentThread t p = loop_here (sys_threads p ! t)"

text \<open>The descriptor of \<^verbatim>\<open>eventfd\<close>, which the constructor cannot do without.\<close>

definition createEventfd :: "int \<Rightarrow> int res" where
  "createEventfd fd = (if fd < 0 then Inl Exit_Failure else Inr fd)"

definition loop_construct :: "int \<Rightarrow> nat \<Rightarrow> nat \<Rightarrow> process \<Rightarrow> process res" where
  "loop_construct fd t l p =
     (let (tid, p1) = current_id t p
      in bindE (createEventfd fd) (\<lambda>_.
           if getEventLoopOfCurrentThread t p1 \<noteq> None then Inl Exit_Failure
           else Inr (put_loop t (Some l) (p1\<lparr>loops := (loops p1)(l \<mapsto> tid)\<rparr>))))"

definition loop_destroy :: "nat \<Rightarrow> nat \<Rightarrow> process \<Rightarrow> process res" where
  "loop_destroy t l p =
     (if loops p l = None then Inl Use_After_Free
      else Inr (put_loop t None (p\<lparr>loops := (loops p)(l := None)\<rparr>)))"

definition isInLoopThread :: "nat \<Rightarrow> nat \<Rightarrow> process \<Rightarrow> (bool \<times> process) res" where
  "isInLoopThread t l p =
     (case loops p l of
        None \<Rightarrow> Inl Use_After_Free
      | Some i \<Rightarrow> (let (tid, p') = current_id t p in Inr (i = tid, p')))"

definition abortNotInLoopThread :: "process res" where
  "abortNotInLoopThread = Inl Exit_Failure"

definition assertInLoopThread :: "nat \<Rightarrow> nat \<Rightarrow> process \<Rightarrow> process res" where
  "assertInLoopThread t l p = bindE (isInLoopThread t l p) (\<lambda>(b, p'). if \<not> b then abortNotInLoopThread else Inr p')"

section \<open>The life of a process\<close>

definition alive :: "process \<Rightarrow> nat \<Rightarrow> bool" where
  "alive p t \<longleftrightarrow> t < length (sys_threads p) \<and> \<not> ended (sys_threads p ! t)"

text \<open>
  The moves of the threads. The kernel gives a new thread a number that no running thread has and that is not the number of the process. The rules of the library: a
  thread destroys only its own loop, and it does so before it ends, as \<^verbatim>\<open>EventLoopThread\<close> does with the loop on the stack of its function. A move
  that is not possible leaves the process as it is.
\<close>

datatype th_event = Spawn nat string int | Named nat string | Ended nat bool | New_Loop int nat nat | Delete_Loop nat nat | Use_Loop nat nat

fun th_step :: "th_event \<Rightarrow> process \<Rightarrow> process res" where
  "th_step (Spawn t name k) p =
     (if alive p t \<and> k \<noteq> getpid p \<and> (\<forall>th \<in> set (sys_threads p). \<not> ended th \<longrightarrow> kernel_tid th \<noteq> k)
      then bindE (start_thread name (Some k) p) (\<lambda>(ob, p'). Inr p') else Inr p)"
| "th_step (Named t name) p = Inr (if alive p t then monitor_begin name t p else p)"
| "th_step (Ended t throws) p = Inr (if alive p t \<and> getEventLoopOfCurrentThread t p = None then monitor_end throws t p else p)"
| "th_step (New_Loop fd t l) p = (if alive p t \<and> loops p l = None then loop_construct fd t l p else Inr p)"
| "th_step (Delete_Loop t l) p =
     (if alive p t \<and> getEventLoopOfCurrentThread t p = Some l then loop_destroy t l p else Inr p)"
| "th_step (Use_Loop t l) p = (if alive p t \<and> loops p l \<noteq> None then assertInLoopThread t l p else Inr p)"

definition new_process :: "int \<Rightarrow> process" where
  "new_process pid = \<lparr>getpid = pid, sys_threads = [\<lparr>kernel_tid = pid, th_cache = None, loop_here = None, ended = False\<rparr>], loops = (\<lambda>_. None)\<rparr>"

definition th_inv :: "process \<Rightarrow> bool" where
  "th_inv p \<longleftrightarrow>
     (\<forall>t < length (sys_threads p). \<forall>c. th_cache (sys_threads p ! t) = Some c \<longrightarrow> c_tid c = kernel_tid (sys_threads p ! t))
     \<and> (\<forall>t u. alive p t \<longrightarrow> alive p u \<longrightarrow> kernel_tid (sys_threads p ! t) = kernel_tid (sys_threads p ! u) \<longrightarrow> t = u)
     \<and> (\<forall>t < length (sys_threads p). kernel_tid (sys_threads p ! t) = getpid p \<longleftrightarrow> t = 0)
     \<and> (\<forall>l i. loops p l = Some i \<longrightarrow> (\<exists>t. alive p t \<and> kernel_tid (sys_threads p ! t) = i \<and> loop_here (sys_threads p ! t) = Some l))
     \<and> (\<forall>t l. alive p t \<longrightarrow> loop_here (sys_threads p ! t) = Some l \<longrightarrow> loops p l = Some (kernel_tid (sys_threads p ! t)))"

lemma th_invD:
  assumes "th_inv p"
  shows "t < length (sys_threads p) \<Longrightarrow> th_cache (sys_threads p ! t) = Some c \<Longrightarrow> c_tid c = kernel_tid (sys_threads p ! t)"
    and "alive p t \<Longrightarrow> alive p u \<Longrightarrow> kernel_tid (sys_threads p ! t) = kernel_tid (sys_threads p ! u) \<Longrightarrow> t = u"
    and "t < length (sys_threads p) \<Longrightarrow> kernel_tid (sys_threads p ! t) = getpid p \<longleftrightarrow> t = 0"
    and "loops p l = Some i \<Longrightarrow> \<exists>t. alive p t \<and> kernel_tid (sys_threads p ! t) = i \<and> loop_here (sys_threads p ! t) = Some l"
    and "alive p t \<Longrightarrow> loop_here (sys_threads p ! t) = Some l \<Longrightarrow> loops p l = Some (kernel_tid (sys_threads p ! t))"
  using assms unfolding th_inv_def by blast+

lemma th_invI:
  assumes "\<And>t c. t < length (sys_threads p) \<Longrightarrow> th_cache (sys_threads p ! t) = Some c \<Longrightarrow> c_tid c = kernel_tid (sys_threads p ! t)"
    and "\<And>t u. alive p t \<Longrightarrow> alive p u \<Longrightarrow> kernel_tid (sys_threads p ! t) = kernel_tid (sys_threads p ! u) \<Longrightarrow> t = u"
    and "\<And>t. t < length (sys_threads p) \<Longrightarrow> kernel_tid (sys_threads p ! t) = getpid p \<longleftrightarrow> t = 0"
    and "\<And>l i. loops p l = Some i \<Longrightarrow> \<exists>t. alive p t \<and> kernel_tid (sys_threads p ! t) = i \<and> loop_here (sys_threads p ! t) = Some l"
    and "\<And>t l. alive p t \<Longrightarrow> loop_here (sys_threads p ! t) = Some l \<Longrightarrow> loops p l = Some (kernel_tid (sys_threads p ! t))"
  shows "th_inv p"
  unfolding th_inv_def using assms by blast

lemma th_inv_new: "th_inv (new_process pid)"
  by (rule th_invI) (simp_all add: new_process_def alive_def)

lemma id_kernel: "th_inv p \<Longrightarrow> t < length (sys_threads p) \<Longrightarrow> c_tid (cache_of t p) = kernel_tid (sys_threads p ! t)"
  by (cases "th_cache (sys_threads p ! t)") (simp_all add: cache_of_def Cache_new_def th_invD(1))

lemma alive_less: "alive p t \<Longrightarrow> t < length (sys_threads p)"
  by (simp add: alive_def)

lemma nth_upd: "(xs[t := x]) ! u = (if u = t \<and> t < length xs then x else xs ! u)"
  by (cases "t < length xs") (auto simp: nth_list_update list_update_beyond)

lemma with_cache_frame [simp]:
  "loops (with_cache f t p) = loops p" "getpid (with_cache f t p) = getpid p" "length (sys_threads (with_cache f t p)) = length (sys_threads p)"
  "kernel_tid (sys_threads (with_cache f t p) ! u) = kernel_tid (sys_threads p ! u)"
  "loop_here (sys_threads (with_cache f t p) ! u) = loop_here (sys_threads p ! u)"
  "ended (sys_threads (with_cache f t p) ! u) = ended (sys_threads p ! u)"
  by (simp_all add: with_cache_def Let_def nth_upd)

lemma with_cache_alive [simp]: "alive (with_cache f t p) u = alive p u"
  by (simp add: alive_def)

lemma with_cache_cache:
  assumes "t < length (sys_threads p)" and "th_cache (sys_threads (with_cache f t p) ! u) = Some c"
  shows "u = t \<and> c = f (cache_of t p) \<or> u \<noteq> t \<and> th_cache (sys_threads p ! u) = Some c"
  using assms by (cases "u = t") (auto simp: with_cache_def Let_def cache_of_def)

lemma th_inv_with_cache:
  assumes "th_inv p" and "t < length (sys_threads p)" and "\<And>c. c_tid (f c) = c_tid c"
  shows "th_inv (with_cache f t p)"
proof (rule th_invI, goal_cases)
  case (1 u c)
  then show ?case using with_cache_cache[OF assms(2), of f u c] assms(3) id_kernel[OF assms(1,2)] th_invD(1)[OF assms(1), of u c] by auto
qed (use th_invD(2-5)[OF assms(1)] in \<open>simp_all\<close>)

lemma th_inv_spawn:
  assumes "th_inv p" and "k \<noteq> getpid p" and "\<forall>th \<in> set (sys_threads p). \<not> ended th \<longrightarrow> kernel_tid th \<noteq> k" and "start_thread name (Some k) p = Inr (ob, p')"
    and "alive p t0"
  shows "th_inv p'"
proof -
  define q where "q = p\<lparr>sys_threads := sys_threads p @ [\<lparr>kernel_tid = k, th_cache = None, loop_here = None, ended = False\<rparr>]\<rparr>"
  let ?n = "length (sys_threads p)"
  have old: "sys_threads q ! t = sys_threads p ! t" if "t < ?n" for t using that by (simp add: q_def nth_append)
  have new: "sys_threads q ! ?n = \<lparr>kernel_tid = k, th_cache = None, loop_here = None, ended = False\<rparr>" by (simp add: q_def)
  have len: "t < length (sys_threads q) \<longleftrightarrow> t < ?n \<or> t = ?n" for t by (auto simp: q_def)
  have pid: "getpid q = getpid p" and lp: "loops q = loops p" by (simp_all add: q_def)
  have al: "alive q t \<longleftrightarrow> alive p t \<or> t = ?n" for t
    using old[of t] new by (auto simp: alive_def len)
  have differ: "kernel_tid (sys_threads p ! t) \<noteq> k" if "alive p t" for t using that assms(3) by (auto simp: alive_def)
  have zero: "?n \<noteq> 0" using assms(5) by (auto simp: alive_def)
  have "th_inv q"
  proof (rule th_invI, goal_cases)
    case (1 t c) then show ?case using th_invD(1)[OF assms(1), of t c] old[of t] new by (auto simp: len)
  next
    case (2 t u) then show ?case using th_invD(2)[OF assms(1), of t u] old[of t] old[of u] new differ[of t] differ[of u] alive_less[of p t] alive_less[of p u] by (auto simp: al)
  next
    case (3 t) then show ?case using th_invD(3)[OF assms(1), of t] old[of t] new assms(2) zero pid by (auto simp: len)
  next
    case (4 l i)
    then obtain t where "alive p t" "kernel_tid (sys_threads p ! t) = i" "loop_here (sys_threads p ! t) = Some l"
      using th_invD(4)[OF assms(1), of l i] by (auto simp: lp)
    then show ?case using old[of t] alive_less[of p t] by (intro exI[of _ t]) (simp add: al)
  next
    case (5 t l) then show ?case using th_invD(5)[OF assms(1), of t l] old[of t] new alive_less[of p t] by (auto simp: al lp)
  qed
  then have "th_inv (with_cache id ?n q)" by (rule th_inv_with_cache) (simp_all add: q_def)
  then show ?thesis using assms(4) by (simp add: start_thread_def current_id_def q_def Let_def)
qed

lemma th_inv_end:
  assumes "th_inv p" and "alive p t" and "loop_here (sys_threads p ! t) = None"
  shows "th_inv (monitor_end throws t p)"
proof -
  define q where "q = set_thread_name (if throws then ''crashed'' else ''finished'') t p"
  have q: "th_inv q" unfolding q_def set_thread_name_def by (rule th_inv_with_cache[OF assms(1) alive_less[OF assms(2)]]) simp
  have here: "loop_here (sys_threads q ! t) = None" using assms(3) by (simp add: q_def set_thread_name_def)
  define q' where "q' = q\<lparr>sys_threads := (sys_threads q)[t := (sys_threads q ! t)\<lparr>ended := True\<rparr>]\<rparr>"
  have same: "kernel_tid (sys_threads q' ! u) = kernel_tid (sys_threads q ! u)" "loop_here (sys_threads q' ! u) = loop_here (sys_threads q ! u)"
      "th_cache (sys_threads q' ! u) = th_cache (sys_threads q ! u)" "length (sys_threads q') = length (sys_threads q)" "loops q' = loops q"
      "getpid q' = getpid q" for u
    by (simp_all add: q'_def nth_upd)
  have al: "alive q' u \<longleftrightarrow> alive q u \<and> u \<noteq> t" for u by (auto simp: q'_def alive_def nth_upd)
  have "th_inv q'"
  proof (rule th_invI, goal_cases)
    case (4 l i)
    then obtain u where u: "alive q u" "kernel_tid (sys_threads q ! u) = i" "loop_here (sys_threads q ! u) = Some l"
      using th_invD(4)[OF q, of l i] by (auto simp: same)
    then have "u \<noteq> t" using here by auto
    then show ?case using u by (intro exI[of _ u]) (simp add: same al)
  qed (use th_invD[OF q] in \<open>simp_all add: same al\<close>)
  then show ?thesis by (simp add: monitor_end_def q_def q'_def Let_def)
qed

lemma put_loop_frame:
  "kernel_tid (sys_threads (put_loop t l p) ! u) = kernel_tid (sys_threads p ! u)" "th_cache (sys_threads (put_loop t l p) ! u) = th_cache (sys_threads p ! u)"
  "alive (put_loop t l p) u = alive p u" "length (sys_threads (put_loop t l p)) = length (sys_threads p)" "loops (put_loop t l p) = loops p"
  "getpid (put_loop t l p) = getpid p"
  by (simp_all add: put_loop_def nth_upd alive_def)

lemma put_loop_here: "alive p t \<Longrightarrow> loop_here (sys_threads (put_loop t l p) ! u) = (if u = t then l else loop_here (sys_threads p ! u))"
  by (simp add: put_loop_def nth_upd alive_def)

lemma th_inv_construct:
  assumes "th_inv p" and "alive p t" and "loops p l = None" and "loop_construct fd t l p = Inr p'"
  shows "th_inv p'"
proof -
  define q where "q = with_cache id t p"
  let ?i = "kernel_tid (sys_threads q ! t)"
  have q: "th_inv q" "alive q t" "loops q l = None"
    using th_inv_with_cache[OF assms(1) alive_less[OF assms(2)], of id] assms(2,3) by (simp_all add: q_def)
  have p': "p' = put_loop t (Some l) (q\<lparr>loops := (loops q)(l \<mapsto> ?i)\<rparr>)" and here: "loop_here (sys_threads q ! t) = None"
    using assms(4) id_kernel[OF assms(1) alive_less[OF assms(2)]]
    by (auto simp: loop_construct_def current_id_def createEventfd_def getEventLoopOfCurrentThread_def q_def Let_def bindE_Inr_iff split: if_splits)
  let ?q = "q\<lparr>loops := (loops q)(l \<mapsto> ?i)\<rparr>"
  have al: "alive ?q u = alive q u" for u by (simp add: alive_def)
  note frame = put_loop_frame[of t "Some l" ?q, unfolded al] and lh = put_loop_here[of ?q t "Some l", unfolded al, OF q(2)]
  show ?thesis unfolding p'
  proof (rule th_invI, goal_cases)
    case (4 m j)
    show ?case
    proof (cases "m = l")
      case True
      then have "j = ?i" using 4 by (simp add: frame)
      show ?thesis unfolding True \<open>j = ?i\<close> by (intro exI[of _ t]) (simp add: frame lh q(2))
    next
      case False
      then obtain u where u: "alive q u" "kernel_tid (sys_threads q ! u) = j" "loop_here (sys_threads q ! u) = Some m"
        using 4 th_invD(4)[OF q(1), of m j] by (auto simp: frame)
      then have "u \<noteq> t" using here by auto
      then show ?thesis using u by (intro exI[of _ u]) (simp add: frame lh)
    qed
  next
    case (5 u m)
    show ?case
    proof (cases "u = t")
      case True
      then have "m = l" using 5 by (simp add: frame lh)
      then show ?thesis unfolding True by (simp add: frame)
    next
      case False
      then have "loops q m = Some (kernel_tid (sys_threads q ! u))" using 5 th_invD(5)[OF q(1), of u m] by (simp add: frame lh)
      then show ?thesis using q(3) by (auto simp: frame)
    qed
  qed (use th_invD(1-3)[OF q(1)] in \<open>simp_all add: frame\<close>)
qed

lemma th_inv_destroy:
  assumes "th_inv p" and "alive p t" and "loop_here (sys_threads p ! t) = Some l" and "loop_destroy t l p = Inr p'"
  shows "th_inv p'"
proof -
  let ?q = "p\<lparr>loops := (loops p)(l := None)\<rparr>"
  have p': "p' = put_loop t None ?q" using assms(4) by (simp add: loop_destroy_def split: if_splits)
  have al: "alive ?q u = alive p u" for u by (simp add: alive_def)
  note frame = put_loop_frame[of t None ?q, unfolded al] and lh = put_loop_here[of ?q t None, unfolded al, OF assms(2)]
  have own: "u = t" if "alive p u" "loop_here (sys_threads p ! u) = Some l" for u
    using th_invD(5)[OF assms(1) that] th_invD(5)[OF assms(1,2,3)] th_invD(2)[OF assms(1) that(1) assms(2)] by simp
  show ?thesis unfolding p'
  proof (rule th_invI, goal_cases)
    case (4 m j)
    then have m: "m \<noteq> l" "loops p m = Some j" by (auto simp: frame split: if_splits)
    obtain u where u: "alive p u" "kernel_tid (sys_threads p ! u) = j" "loop_here (sys_threads p ! u) = Some m"
      using th_invD(4)[OF assms(1) m(2)] by auto
    then have "u \<noteq> t" using m(1) assms(3) by auto
    then show ?case using u by (intro exI[of _ u]) (simp add: frame lh)
  next
    case (5 u m)
    then have u: "u \<noteq> t" "alive p u" "loop_here (sys_threads p ! u) = Some m" by (auto simp: frame lh split: if_splits)
    then have "m \<noteq> l" using own by auto
    then show ?case using th_invD(5)[OF assms(1) u(2,3)] by (simp add: frame)
  qed (use th_invD(1-3)[OF assms(1)] in \<open>simp_all add: frame\<close>)
qed

lemma isInLoopThread_eq:
  assumes "th_inv p" and "alive p t" and "loops p l = Some i"
  shows "isInLoopThread t l p = Inr (i = kernel_tid (sys_threads p ! t), with_cache id t p)"
  using assms id_kernel[OF assms(1) alive_less[OF assms(2)]] by (simp add: isInLoopThread_def current_id_def)

interpretation th: event_machine th_inv "\<lambda>_. True" "{Exit_Failure}" th_step
proof
  fix p e p' f
  assume i: "th_inv p"
  have cache: "th_inv (with_cache g t p)" if "alive p t" "\<And>c. c_tid (g c) = c_tid c" for g t
    using th_inv_with_cache[OF i alive_less] that by blast
  have assert: "assertInLoopThread t l p = Inl Exit_Failure \<or> assertInLoopThread t l p = Inr (with_cache id t p)" if "alive p t" "loops p l \<noteq> None" for t l
    using that isInLoopThread_eq[OF i] by (auto simp: assertInLoopThread_def abortNotInLoopThread_def)
  show "th_step e p = Inr p' \<Longrightarrow> th_inv p'"
  proof (cases e)
    case (Spawn t name k)
    then show "th_step e p = Inr p' \<Longrightarrow> th_inv p'"
      using i th_inv_spawn[OF i, of k name _ p' t] by (auto simp: bindE_Inr_iff split: if_splits)
  next
    case (Named t name)
    then show "th_step e p = Inr p' \<Longrightarrow> th_inv p'"
      using i cache[of t] by (auto simp: monitor_begin_def set_thread_name_def split: if_splits)
  next
    case (Ended t throws)
    then show "th_step e p = Inr p' \<Longrightarrow> th_inv p'"
      using i th_inv_end[OF i] by (auto simp: getEventLoopOfCurrentThread_def split: if_splits)
  next
    case (New_Loop fd t l)
    then show "th_step e p = Inr p' \<Longrightarrow> th_inv p'"
      using i th_inv_construct[OF i] by (auto split: if_splits)
  next
    case (Delete_Loop t l)
    then show "th_step e p = Inr p' \<Longrightarrow> th_inv p'"
      using i th_inv_destroy[OF i] by (auto simp: getEventLoopOfCurrentThread_def split: if_splits)
  next
    case (Use_Loop t l)
    then show "th_step e p = Inr p' \<Longrightarrow> th_inv p'"
      using i assert[of t l] cache[of t id] by (auto split: if_splits)
  qed
  show "th_step e p = Inl f \<Longrightarrow> f \<in> {Exit_Failure}"
  proof (cases e)
    case (Spawn t name k)
    then show "th_step e p = Inl f \<Longrightarrow> f \<in> {Exit_Failure}"
      by (auto simp: start_thread_def current_id_def Let_def split: if_splits)
  next
    case (New_Loop fd t l)
    then show "th_step e p = Inl f \<Longrightarrow> f \<in> {Exit_Failure}"
      by (auto simp: loop_construct_def current_id_def createEventfd_def bindE_Inl_iff Let_def split: if_splits)
  next
    case (Delete_Loop t l)
    then show "th_step e p = Inl f \<Longrightarrow> f \<in> {Exit_Failure}"
      using th_invD(5)[OF i, of t l] by (auto simp: getEventLoopOfCurrentThread_def loop_destroy_def split: if_splits)
  next
    case (Use_Loop t l)
    then show "th_step e p = Inl f \<Longrightarrow> f \<in> {Exit_Failure}"
      using assert[of t l] by (auto split: if_splits)
  qed (auto split: if_splits)
qed

text \<open>
  C13: One loop for each thread. Whatever threads are started, named and ended, and whatever loops they make, use and destroy, as long as each destroys only its own
  loop and does so before it ends: a live loop belongs to exactly one running thread, which is the one that finds it as the loop of the current thread; of all running threads only that one passes
  \<^verbatim>\<open>isInLoopThread\<close>, also when the kernel uses the number of an ended thread again; no thread has two loops; and \<^verbatim>\<open>is_main\<close> holds in the first thread only. The
  program ends only where the library means it to: on a second loop in a thread, on a use of a loop by another thread, or when there is no descriptor.
\<close>
theorem loop_affinity:
  "case foldE th_step es (new_process pid) of
     Inl f \<Rightarrow> f = Exit_Failure
   | Inr p \<Rightarrow>
       (\<forall>l. loops p l \<noteq> None \<longrightarrow> (\<exists>t. alive p t
          \<and> (\<forall>u. alive p u \<longrightarrow> map_sum id fst (isInLoopThread u l p) = Inr (u = t) \<and> (getEventLoopOfCurrentThread u p = Some l \<longleftrightarrow> u = t))))
       \<and> (\<forall>t. alive p t \<longrightarrow> fst (is_main t p) = (t = 0))"
proof (cases "foldE th_step es (new_process pid)")
  case (Inl f)
  then show ?thesis using th.run_safe[OF th_inv_new, of es pid] by simp
next
  case (Inr p)
  then have i: "th_inv p" using th.run_safe[OF th_inv_new, of es pid] by simp
  have "\<exists>t. alive p t \<and> (\<forall>u. alive p u \<longrightarrow> map_sum id fst (isInLoopThread u l p) = Inr (u = t)
      \<and> (getEventLoopOfCurrentThread u p = Some l \<longleftrightarrow> u = t))" if live: "loops p l \<noteq> None" for l
  proof -
    obtain j where j: "loops p l = Some j" using live by blast
    then obtain t where t: "alive p t" "kernel_tid (sys_threads p ! t) = j" "loop_here (sys_threads p ! t) = Some l" using th_invD(4)[OF i] by blast
    have uniq: "j = kernel_tid (sys_threads p ! u) \<longleftrightarrow> u = t" if "alive p u" for u
      using th_invD(2)[OF i that t(1)] t(2) by (cases "u = t") auto
    have here: "loop_here (sys_threads p ! u) = Some l \<longleftrightarrow> u = t" if "alive p u" for u
      using th_invD(5)[OF i that, of l] j uniq[OF that] t(3) by (cases "u = t") auto
    show ?thesis
    proof (intro exI[of _ t] conjI allI impI)
      fix u
      assume u: "alive p u"
      show "map_sum id fst (isInLoopThread u l p) = Inr (u = t)" by (simp add: isInLoopThread_eq[OF i u j] uniq[OF u])
      show "getEventLoopOfCurrentThread u p = Some l \<longleftrightarrow> u = t" unfolding getEventLoopOfCurrentThread_def by (rule here[OF u])
    qed (rule t(1))
  qed
  moreover have "fst (is_main t p) = (t = 0)" if "alive p t" for t
    using id_kernel[OF i alive_less[OF that]] th_invD(3)[OF i alive_less[OF that]] by (simp add: is_main_def current_id_def)
  ultimately show ?thesis using Inr by simp
qed

definition demo_process :: process where
  "demo_process = \<lparr>getpid = 3, sys_threads = [
     \<lparr>kernel_tid = 3, th_cache = Some (Cache_new 3), loop_here = Some 100, ended = False\<rparr>,
     \<lparr>kernel_tid = 7, th_cache = Some (Cache_new 7), loop_here = None, ended = False\<rparr>], loops = [100 \<mapsto> 3]\<rparr>"

lemma demo_process_run: "foldE th_step [Spawn 0 ''io'' 7, New_Loop 5 0 100] (new_process 3) = Inr demo_process"
  by (simp add: new_process_def alive_def start_thread_def current_id_def with_cache_def cache_of_def loop_construct_def createEventfd_def
      getEventLoopOfCurrentThread_def put_loop_def Let_def demo_process_def)
    (simp add: Cache_new_def)

theorem loop_affinity_witness:
  "fst (is_main 0 demo_process) \<and> \<not> fst (is_main 1 demo_process) \<and> map_sum id fst (isInLoopThread 1 100 demo_process) = Inr False"
proof -
  have "alive demo_process 0" "alive demo_process 1" "loops demo_process 100 \<noteq> None" "getEventLoopOfCurrentThread 1 demo_process = None"
    by (simp_all add: demo_process_def alive_def getEventLoopOfCurrentThread_def)
  then show ?thesis using loop_affinity[of "[Spawn 0 ''io'' 7, New_Loop 5 0 100]" 3, unfolded demo_process_run sum.case] by (metis option.distinct(1) zero_neq_one)
qed

section \<open>Thread objects and foreign loops\<close>

text \<open>
  A started thread knows its number; destroying its object before it was joined ends the program. When the function has returned, or thrown, the thread has its last name
  and can be joined once; then the object can be destroyed, but no longer detached. An object that was moved from can be destroyed only.
\<close>

lemma thread_object_life:
  assumes "start_thread name (Some k) p = Inr (ob, p')" and "caller < length (sys_threads p)"
  defines "t \<equiv> length (sys_threads p)"
  shows "th_tid ob = k" and "Thread_delete ob = Inl Exit_Failure" and "Thread_join caller ob p' = Inr None"
    and "Thread_join caller ob (monitor_end throws t p') = Inr (Some (ob\<lparr>std_thread := Some None\<rparr>))"
    and "fst (thread_name t (monitor_end throws t p')) = (if throws then ''crashed'' else ''finished'')"
    and "Thread_delete (ob\<lparr>std_thread := Some None\<rparr>) = Inr ()" and "Thread_detach (ob\<lparr>std_thread := Some None\<rparr>) = Inl (Runtime_Error ''system_error'')"
    and "Thread_join caller (snd (Thread_move ob)) p' = Inl Null_Deref" and "Thread_delete (snd (Thread_move ob)) = Inr ()"
proof -
  have ob: "std_thread ob = Some (Some t)" "th_tid ob = k" and p': "sys_threads p' = sys_threads p @ [\<lparr>kernel_tid = k, th_cache = Some (Cache_new k), loop_here = None, ended = False\<rparr>]"
    using assms(1) by (auto simp: start_thread_def current_id_def cache_of_def with_cache_def Cache_new_def Let_def t_def)
  have c: "caller \<noteq> t" using assms(2) by (simp add: t_def)
  have e: "sys_threads (monitor_end throws t p') ! t = \<lparr>kernel_tid = k, th_cache = Some ((Cache_new k)\<lparr>threadName := if throws then ''crashed'' else ''finished''\<rparr>), loop_here = None, ended = True\<rparr>"
    by (simp add: monitor_end_def set_thread_name_def with_cache_def p' Let_def t_def c_str_def)
  show "th_tid ob = k" "Thread_delete ob = Inl Exit_Failure" "Thread_join caller ob p' = Inr None"
      "Thread_join caller ob (monitor_end throws t p') = Inr (Some (ob\<lparr>std_thread := Some None\<rparr>))"
      "fst (thread_name t (monitor_end throws t p')) = (if throws then ''crashed'' else ''finished'')"
    using ob c by (simp_all add: Thread_delete_def Thread_join_def thread_name_def cache_of_def e) (simp add: p' t_def)
qed (simp_all add: Thread_delete_def Thread_detach_def Thread_join_def Thread_move_def)

text \<open>
  The destructor of a loop resets the loop of the thread that runs it, not that of the thread the loop belongs to. A thread with a loop \<open>m\<close> that destroys the loop \<open>l\<close> of another thread
  forgets its own, live loop, and the other thread keeps the address of the dead one.
\<close>

lemma foreign_destroy:
  assumes "alive p t" and "t \<noteq> u" and "loop_here (sys_threads p ! u) = Some l" and "loops p l \<noteq> None" and "m \<noteq> l"
  shows "\<exists>p'. loop_destroy t l p = Inr p' \<and> getEventLoopOfCurrentThread t p' = None \<and> loops p' m = loops p m
    \<and> getEventLoopOfCurrentThread u p' = Some l \<and> loops p' l = None"
  using assms by (auto simp: loop_destroy_def getEventLoopOfCurrentThread_def put_loop_def nth_upd alive_def)

end
