(* ===== verification/Small_Utils.thy ===== *)
theory Small_Utils
  imports Prelude
begin

text \<open>
  Small utilities: \<^verbatim>\<open>defer\<close> and \<^verbatim>\<open>singleton\<close> of \<^verbatim>\<open>deps/common/utilities\<close>, \<^verbatim>\<open>demangle\<close> of \<^verbatim>\<open>deps/common/base\<close>, and the flags and options of descriptors that
  \<^verbatim>\<open>plugins/Muduo/muduo/net/socket.cpp\<close> and \<^verbatim>\<open>example/miniftpd_c/src/sysutils.cpp\<close> set.
\<close>

unbundle bit_operations_syntax

section \<open>Deferred calls\<close>

text \<open>
  A block of code is a list of statements: an action that may throw, or the declaration of a deferred call, which runs when the block is left, the last declared one
  first, whether or not something was thrown. A cleanup that throws ends the program, since destructors do not throw.
\<close>

datatype 's stmt = Do "'s \<Rightarrow> (string + unit) \<times> 's" | Defer "'s \<Rightarrow> (string + unit) \<times> 's"

definition defer_destroy :: "('s \<Rightarrow> (string + unit) \<times> 's) \<Rightarrow> (string + unit) \<times> 's \<Rightarrow> ((string + unit) \<times> 's) res" where
  "defer_destroy cleanup rs = (case cleanup (snd rs) of (Inl e, s') \<Rightarrow> Inl Exit_Failure | (Inr u, s') \<Rightarrow> Inr (fst rs, s'))"

fun run_block :: "'s stmt list \<Rightarrow> 's \<Rightarrow> ((string + unit) \<times> 's) res" where
  "run_block [] s = Inr (Inr (), s)"
| "run_block (Do f # b) s = (case f s of (Inl e, s') \<Rightarrow> Inr (Inl e, s') | (Inr u, s') \<Rightarrow> run_block b s')"
| "run_block (Defer g # b) s = bindE (run_block b s) (defer_destroy g)"

text \<open>The statements of a block that are reached, and the cleanups they leave, the last one first.\<close>

fun reached :: "'s stmt list \<Rightarrow> 's \<Rightarrow> (string + unit) \<times> 's \<times> ('s \<Rightarrow> (string + unit) \<times> 's) list" where
  "reached [] s = (Inr (), s, [])"
| "reached (Do f # b) s = (case f s of (Inl e, s') \<Rightarrow> (Inl e, s', []) | (Inr u, s') \<Rightarrow> reached b s')"
| "reached (Defer g # b) s = (case reached b s of (r, s', gs) \<Rightarrow> (r, s', gs @ [g]))"

text \<open>Every deferred call that was declared runs once, in the reverse order, after the block, and the result of the block is unchanged.\<close>

lemma defer_runs_all:
  assumes "\<And>g s. Defer g \<in> set b \<Longrightarrow> fst (g s) = Inr ()" and "reached b s = (r, s', gs)"
  shows "run_block b s = Inr (r, fold (\<lambda>g s. snd (g s)) gs s')"
  using assms
proof (induction b s arbitrary: r s' gs rule: run_block.induct)
  case (2 f b s)
  obtain x s1 where f: "f s = (x, s1)" by (cases "f s")
  show ?case
  proof (cases x)
    case (Inl e)
    then show ?thesis using 2(3) f by auto
  next
    case (Inr u)
    then have "reached b s1 = (r, s', gs)" using 2(3) f by simp
    then show ?thesis using 2(1)[OF f[symmetric] Inr] 2(2) f Inr by simp
  qed
next
  case (3 g b s)
  obtain r1 s1 gs1 where b: "reached b s = (r1, s1, gs1)" by (cases "reached b s")
  have "run_block b s = Inr (r1, fold (\<lambda>g s. snd (g s)) gs1 s1)" using 3(1)[OF _ b] 3(2) by simp
  moreover obtain s2 where "g (fold (\<lambda>g s. snd (g s)) gs1 s1) = (Inr (), s2)" using 3(2)[of g "fold (\<lambda>g s. snd (g s)) gs1 s1"] by (metis list.set_intros(1) prod.collapse)
  ultimately show ?case using 3(3) b by (auto simp: defer_destroy_def)
qed simp

section \<open>Singletons\<close>

text \<open>
  The local static of \<^verbatim>\<open>instance()\<close>: the first thread that comes constructs the object, others wait meanwhile, and a constructor that throws leaves the object to the
  next one that comes. \<open>si_objects\<close> counts the constructed objects.
\<close>

datatype static_state = Uninitialized | Initializing nat | Initialized nat

record singleton =
  inst :: static_state
  si_waiting :: "nat set"
  si_objects :: nat
  si_returned :: "(nat \<times> nat) list"

datatype si_event = Call nat | Constructed bool

definition instance_enter :: "nat \<Rightarrow> singleton \<Rightarrow> singleton" where
  "instance_enter t s =
     (case inst s of
        Uninitialized \<Rightarrow> s\<lparr>inst := Initializing t, si_waiting := si_waiting s - {t}\<rparr>
      | Initializing u \<Rightarrow> if u = t then s else s\<lparr>si_waiting := insert t (si_waiting s)\<rparr>
      | Initialized a \<Rightarrow> s\<lparr>si_waiting := si_waiting s - {t}, si_returned := si_returned s @ [(t, a)]\<rparr>)"

definition instance_construct :: "bool \<Rightarrow> singleton \<Rightarrow> singleton" where
  "instance_construct throws s =
     (case inst s of
        Initializing t \<Rightarrow>
          if throws then s\<lparr>inst := Uninitialized\<rparr>
          else s\<lparr>inst := Initialized (si_objects s), si_objects := Suc (si_objects s), si_returned := si_returned s @ [(t, si_objects s)]\<rparr>
      | _ \<Rightarrow> s)"

fun si_step :: "si_event \<Rightarrow> singleton \<Rightarrow> singleton" where
  "si_step (Call t) s = instance_enter t s"
| "si_step (Constructed throws) s = instance_construct throws s"

definition singleton_new :: singleton where
  "singleton_new = \<lparr>inst = Uninitialized, si_waiting = {}, si_objects = 0, si_returned = []\<rparr>"

text \<open>In every interleaving at most one object is made, and every call that returns gives that one.\<close>

lemma singleton_once:
  assumes s_def: "s = fold si_step es singleton_new"
  shows "si_objects s \<le> 1" and "(t, a) \<in> set (si_returned s) \<Longrightarrow> a = 0 \<and> inst s = Initialized 0"
proof -
  have "(case inst s of Initialized a \<Rightarrow> a = 0 \<and> si_objects s = 1 \<and> (\<forall>(t, b) \<in> set (si_returned s). b = 0)
      | _ \<Rightarrow> si_objects s = 0 \<and> si_returned s = [])"
    unfolding s_def
  proof (induction es rule: rev_induct)
    case (snoc e es)
    then show ?case
      by (cases e) (auto simp: instance_enter_def instance_construct_def split: static_state.splits if_splits)
  qed (simp add: singleton_new_def)
  then show "si_objects s \<le> 1" "(t, a) \<in> set (si_returned s) \<Longrightarrow> a = 0 \<and> inst s = Initialized 0"
    by (auto split: static_state.splits)
qed

section \<open>Demangling\<close>

text \<open>
  The demangler of the runtime gives a text, or none and a status that is not zero.
\<close>

definition try_demangle :: "(string \<Rightarrow> string option \<times> int) \<Rightarrow> string \<Rightarrow> string option \<times> int" where
  "try_demangle cxa_demangle name = cxa_demangle name"

definition demangle :: "(string \<Rightarrow> string option \<times> int) \<Rightarrow> string \<Rightarrow> string \<times> int" where
  "demangle cxa_demangle name =
     (case try_demangle cxa_demangle name of (Some text, status) \<Rightarrow> (text, status) | (None, status) \<Rightarrow> (name, status))"

section \<open>Descriptor flags and socket options\<close>

record descriptor =
  fd_flags :: "32 word"
  tcp_nodelay :: int
  so_reuseaddr :: int
  so_keepalive :: int
  so_oobinline :: int
  fd_owner :: int

definition O_NONBLOCK_flag :: "32 word" where "O_NONBLOCK_flag = 0x800"

text \<open>\<open>get_ok\<close> and \<open>set_ok\<close> say whether the kernel answers the two calls of \<^verbatim>\<open>fcntl\<close>.\<close>

definition activate_nonblock :: "bool \<Rightarrow> bool \<Rightarrow> descriptor \<Rightarrow> descriptor res" where
  "activate_nonblock get_ok set_ok d =
     (if \<not> get_ok \<or> \<not> set_ok then Inl Exit_Failure else Inr (d\<lparr>fd_flags := fd_flags d OR O_NONBLOCK_flag\<rparr>))"

definition deactivate_nonblock :: "bool \<Rightarrow> bool \<Rightarrow> descriptor \<Rightarrow> descriptor res" where
  "deactivate_nonblock get_ok set_ok d =
     (if \<not> get_ok \<or> \<not> set_ok then Inl Exit_Failure else Inr (d\<lparr>fd_flags := fd_flags d AND NOT O_NONBLOCK_flag\<rparr>))"

definition activate_oobinline :: "bool \<Rightarrow> descriptor \<Rightarrow> descriptor res" where
  "activate_oobinline set_ok d = (if \<not> set_ok then Inl Exit_Failure else Inr (d\<lparr>so_oobinline := 1\<rparr>))"

definition activate_sigurg :: "bool \<Rightarrow> int \<Rightarrow> descriptor \<Rightarrow> descriptor res" where
  "activate_sigurg set_ok pid d = (if \<not> set_ok then Inl Exit_Failure else Inr (d\<lparr>fd_owner := pid\<rparr>))"

text \<open>The options of \<^verbatim>\<open>Socket\<close> ignore an error of the kernel.\<close>

definition setTcpNoDelay :: "bool \<Rightarrow> bool \<Rightarrow> descriptor \<Rightarrow> descriptor" where
  "setTcpNoDelay set_ok on d = (let optval = (if on then 1 else 0) in if set_ok then d\<lparr>tcp_nodelay := optval\<rparr> else d)"

definition setReuseAddr :: "bool \<Rightarrow> bool \<Rightarrow> descriptor \<Rightarrow> descriptor" where
  "setReuseAddr set_ok on d = (let optval = (if on then 1 else 0) in if set_ok then d\<lparr>so_reuseaddr := optval\<rparr> else d)"

definition setKeepAlive :: "bool \<Rightarrow> bool \<Rightarrow> descriptor \<Rightarrow> descriptor" where
  "setKeepAlive set_ok on d = (let optval = (if on then 1 else 0) in if set_ok then d\<lparr>so_keepalive := optval\<rparr> else d)"

text \<open>
  \<^verbatim>\<open>connect_timeout\<close> switches a descriptor to non-blocking and back: all other flags stay, and a descriptor that blocked before does so again; one that did not is
  blocking afterwards.
\<close>

lemma nonblock_and_back:
  assumes "activate_nonblock True True d = Inr d'" and "deactivate_nonblock True True d' = Inr d''"
  shows "fd_flags d'' = fd_flags d AND NOT O_NONBLOCK_flag" and "fd_flags d AND O_NONBLOCK_flag = 0 \<Longrightarrow> d'' = d"
    and "bit (fd_flags d') n \<longleftrightarrow> bit (fd_flags d) n \<or> n = 11"
proof -
  have d: "d' = d\<lparr>fd_flags := fd_flags d OR O_NONBLOCK_flag\<rparr>" "d'' = d'\<lparr>fd_flags := fd_flags d' AND NOT O_NONBLOCK_flag\<rparr>"
    using assms by (simp_all add: activate_nonblock_def deactivate_nonblock_def)
  have two: "O_NONBLOCK_flag = 2 ^ 11" by (simp add: O_NONBLOCK_flag_def)
  have flag: "bit O_NONBLOCK_flag n \<longleftrightarrow> n = 11" for n unfolding two bit_exp_iff by (auto simp: possible_bit_word)
  show f: "fd_flags d'' = fd_flags d AND NOT O_NONBLOCK_flag"
    unfolding d by (rule bit_word_eqI) (auto simp: bit_simps)
  show "d'' = d" if "fd_flags d AND O_NONBLOCK_flag = 0"
  proof -
    have "fd_flags d AND NOT O_NONBLOCK_flag = fd_flags d"
    proof (rule bit_word_eqI)
      fix n
      show "bit (fd_flags d AND NOT O_NONBLOCK_flag) n \<longleftrightarrow> bit (fd_flags d) n" if "n < LENGTH(32)"
        using arg_cong[OF \<open>fd_flags d AND O_NONBLOCK_flag = 0\<close>, of "\<lambda>x. bit x n"] that by (auto simp: bit_simps)
    qed
    then show ?thesis using f by (cases d) (simp add: d)
  qed
  show "bit (fd_flags d') n \<longleftrightarrow> bit (fd_flags d) n \<or> n = 11"
    unfolding d by (auto simp: bit_or_iff flag)
qed

end
