(* ===== verification/Spec2Isabelle.thy ===== *)
theory Spec2Isabelle
  imports Tcp_Correctness Timer_Correctness String_Utils Tcp_Server Ftp_Correctness Thread_Pools Config_Reader Sys_Utils File_Correctness Logging Threads Small_Utils
begin

text \<open>
  Verification of MOBAN: the Muduo-style network library (\<^verbatim>\<open>plugins/Muduo\<close>), the common library it builds on (\<^verbatim>\<open>deps/common\<close>) and the
  FTP servers that use them (\<^verbatim>\<open>example\<close>).

  \<^bold>\<open>The program.\<close> An \<^verbatim>\<open>EventLoop\<close> waits in an \<^verbatim>\<open>EPollPoller\<close> for events of \<^verbatim>\<open>Channel\<close>s, runs the timers of its \<^verbatim>\<open>TimerQueue\<close> and then
  the functors that other threads queued; an eventfd wakes it. A \<^verbatim>\<open>TcpServer\<close> takes connections from its \<^verbatim>\<open>Acceptor\<close> and a \<^verbatim>\<open>TcpClient\<close> from its \<^verbatim>\<open>Connector\<close>;
  each \<^verbatim>\<open>TcpConnection\<close> belongs to one loop of an \<^verbatim>\<open>EventLoopThreadPool\<close> and keeps what the kernel does not take at once in a \<^verbatim>\<open>Buffer\<close>.
  An FTP session of \<^verbatim>\<open>miniftpd\<close> runs over such connections and reads files through a bounded pool of disk threads. Apart from that the common library
  has blocking queues, a latch, a thread pool, a configuration reader, string and file utilities and logging.

  \<^bold>\<open>How it is modelled.\<close> A class is a record with its members, an operation a function on it. A call that can fail returns \<open>failure + 'a\<close>: a failed
  assertion, an access out of bounds or after deletion, undefined behaviour, \<^verbatim>\<open>exit\<close>, or an exception. Sizes are natural numbers with the wrap-around of
  \<^verbatim>\<open>size_t\<close> written out; protocol and mode words have their widths. The kernel, the clock, other libraries and the user's callbacks are parameters: functions or lists of
  answers, and where a property needs it a named hypothesis states their documented behaviour (\<open>env_documented\<close>, \<open>ctl_documented\<close>, \<open>acc_env_documented\<close>). Threads are
  interleavings of atomic steps, one for each critical section, queued functor or system call; the locale \<open>event_machine\<close> of \<^verbatim>\<open>Interfaces\<close> turns an invariant of one
  step into safety of every run, and each machine interprets it on its own step function.

  \<^bold>\<open>Theories and sources.\<close>
  \<^item> \<^verbatim>\<open>Prelude\<close>, \<^verbatim>\<open>Interfaces\<close>, \<^verbatim>\<open>Std_Set\<close>: results and their sequencing, \<^verbatim>\<open>size_t\<close>, bytes and decimal numbers; the contracts \<open>byte_queue\<close> and \<open>event_machine\<close>;
    \<^verbatim>\<open>std::set\<close> as a sorted list.
  \<^item> \<^verbatim>\<open>Net_Buffer\<close> (\<^verbatim>\<open>buffer.{h,cpp}\<close>): every operation refines an operation on the readable bytes; integers are big-endian; \<^verbatim>\<open>readFd\<close> appends what arrives.
  \<^item> \<^verbatim>\<open>Timestamp\<close>, \<^verbatim>\<open>Timer_Queue\<close>, \<^verbatim>\<open>Timer_Correctness\<close> (\<^verbatim>\<open>timestamp\<close>, \<^verbatim>\<open>Timer\<close>, \<^verbatim>\<open>TimerQueue\<close>): no assertion fails and no deleted timer is used; exactly the due timers fire;
    a cancelled one never does; the descriptor stays armed.
  \<^item> \<^verbatim>\<open>Channel_Poller\<close> (\<^verbatim>\<open>Channel\<close>, \<^verbatim>\<open>EPollPoller\<close>): the kernel's interest list is what the channels want.
  \<^item> \<^verbatim>\<open>Event_Loop\<close>, \<^verbatim>\<open>Loop_Threads\<close> (\<^verbatim>\<open>EventLoop\<close>, \<^verbatim>\<open>EventLoopThread\<close>, \<^verbatim>\<open>EventLoopThreadPool\<close>): no wake-up is lost, functors run once and in order; starting and ending loop threads.
  \<^item> \<^verbatim>\<open>Threads\<close> (\<^verbatim>\<open>thread\<close>, \<^verbatim>\<open>current_thread\<close> of \<^verbatim>\<open>deps/common/base\<close>, and the thread checks of \<^verbatim>\<open>EventLoop\<close>): the life of thread objects; a loop belongs to exactly one running thread.
  \<^item> \<^verbatim>\<open>Tcp_Connection\<close>, \<^verbatim>\<open>Tcp_Correctness\<close> (\<^verbatim>\<open>TcpConnection\<close>): accepted bytes reach the kernel complete and in order; the life cycle; graceful shutdown.
  \<^item> \<^verbatim>\<open>Inet_Address\<close>, \<^verbatim>\<open>Sockets\<close>, \<^verbatim>\<open>Tcp_Client\<close>, \<^verbatim>\<open>Tcp_Server\<close> (\<^verbatim>\<open>InetAddress\<close>, \<^verbatim>\<open>socketOps\<close>, \<^verbatim>\<open>Acceptor\<close>, \<^verbatim>\<open>Connector\<close>, \<^verbatim>\<open>TcpClient\<close>, \<^verbatim>\<open>TcpServer\<close>): addresses and their texts; no descriptor is
    leaked; the map of connections is the set of open ones.
  \<^item> \<^verbatim>\<open>Ftp_Session\<close>, \<^verbatim>\<open>Ftp_Safety\<close>, \<^verbatim>\<open>Ftp_Download\<close>, \<^verbatim>\<open>Ftp_Correctness\<close> (\<^verbatim>\<open>example/miniftpd/src/ftp_session\<close>): a download delivers the file and can always be completed; paths stay below the
    served directory; nothing happens before the login; the command loop ends and handles each line once; two ways to abort a session.
  \<^item> \<^verbatim>\<open>Blocking_Queues\<close>, \<^verbatim>\<open>Thread_Pools\<close> (\<^verbatim>\<open>deps/common/base\<close>, \<^verbatim>\<open>example/miniftpd/src/thread_pool.h\<close>): elements are handed over once and in order, the ring refines a bounded list, no
    waiting thread is forgotten; accepted tasks run; the disk pool is bounded.
  \<^item> \<^verbatim>\<open>Config_Reader\<close> (\<^verbatim>\<open>deps/common/config\<close>): loaded trees are well typed; dotted paths locate nodes; errors and defaults.
  \<^item> \<^verbatim>\<open>String_Utils\<close>, \<^verbatim>\<open>Logging\<close> (\<^verbatim>\<open>deps/common/utilities\<close>, \<^verbatim>\<open>deps/common/log\<close>): splitting, replacing and number parsing; the logger registry and the removal of old log files.
  \<^item> \<^verbatim>\<open>File_Utils\<close>, \<^verbatim>\<open>File_Changes\<close>, \<^verbatim>\<open>File_Replacement\<close>, \<^verbatim>\<open>File_Sharing\<close>, \<^verbatim>\<open>File_Correctness\<close> (\<^verbatim>\<open>file_utils.{h,cpp}\<close>): the system calls as programs over a file system that other
    threads and processes change meanwhile, with a record of all changes; the protocol of an atomic write as the locale \<open>replacement\<close>, in which the program guarantees something of its own changes as long as
    the others have kept to an assumption. Interpreted with others, readers see the old or the whole new file, on the disk, and what a writer guarantees is what another one assumes, so any number of concurrent
    writers of a file are safe; interpreted without others, exactly the target changes or nothing does. Reading and writing in place; what the check of the temporary file cannot see.
  \<^item> \<^verbatim>\<open>Small_Utils\<close> (\<^verbatim>\<open>defer.h\<close>, \<^verbatim>\<open>singleton.h\<close>, \<^verbatim>\<open>demangle.cpp\<close>, \<^verbatim>\<open>socket.cpp\<close>): deferred calls run once, in reverse, also after an exception; one object for each singleton; descriptor flags.
  \<^item> \<^verbatim>\<open>Sys_Utils\<close> (\<^verbatim>\<open>example/miniftpd_c/src\<close>): exact reads and writes, \<^verbatim>\<open>readline\<close>, calls with a timeout, locks, permission texts and the strings of commands.

  \<^bold>\<open>Bounds and termination.\<close> No function runs on fuel. Loops that depend on the kernel recurse on the list of its answers: in \<^verbatim>\<open>File_Utils\<close> an exhausted list means that
  every call succeeds, so the loops are total, and in \<^verbatim>\<open>Sys_Utils\<close> that the call still waits, which is \<open>None\<close>. The command loop of the session and the loops over a buffer end because the bytes left decrease. Runs of the machines
  are finite lists of events of any length; liveness is stated as the existence of a finite run of enabled moves to the goal from every reachable state. Counters that wrap
  (timer sequence numbers, connection names, transfer generations) carry the bound under which their property holds in its statement.

  \<^bold>\<open>Not modelled.\<close> Third-party libraries (JSON, spdlog, fmt, curl, OpenSSL, c-ares) and the C library beyond what the sources use of it; the device-interface headers \<^verbatim>\<open>deps/common/di\<close>, which only rename vendor calls; templates without
  behaviour of their own (\<^verbatim>\<open>noncopyable.h\<close>); wrappers that only pass on one system call; the construction of the default loggers; Windows branches;
  tests and build files. Log output is counted, not spelled out. Memory is sequentially consistent, as the mutexes and atomics of the sources make it; failed allocations are modelled where the source handles them. File systems compare directories by
  their text, so two names of one directory count as two.
\<close>

end
